(* ===== verification/Prelude.thy ===== *)
theory Prelude
  imports Main "HOL-Library.Word"
begin

text \<open>
  What every component of the development shares: the results of C code that can go
  wrong, blocks of memory with explicit bounds, C strings, the allocator as a parameter,
  the integer conversions of the C library, and \<open>struct timeval\<close> with its comparison.

  A function of the program that can only return is a plain HOL function. A function that
  can leave the defined behaviour of C (a null pointer is followed, a block is accessed
  outside its bounds, a loop never ends) returns \<open>fault + 'a\<close>, and every access that
  can do so is written out as such in its definition.
\<close>

section \<open>Results that may fault\<close>

datatype fault = NullDeref | OutOfBounds | Diverges

type_synonym 'a res = "fault + 'a"

definition bind_r :: "'a res \<Rightarrow> ('a \<Rightarrow> 'b res) \<Rightarrow> 'b res" where
  "bind_r r f = (case r of Inl e \<Rightarrow> Inl e | Inr x \<Rightarrow> f x)"

named_theorems res_simps "rewriting of faulting results"
named_theorems wf_intros "well-formedness is preserved"

lemma bind_r_simps [simp, res_simps]:
  "bind_r (Inr x) f = f x"
  "bind_r (Inl e) f = Inl e"
  by (simp_all add: bind_r_def)

lemma bind_r_Inr_iff [res_simps]:
  "bind_r r f = Inr y \<longleftrightarrow> (\<exists>x. r = Inr x \<and> f x = Inr y)"
  by (cases r) auto

lemma bind_r_InrE [elim]:
  assumes "bind_r r f = Inr y"
  obtains x where "r = Inr x" and "f x = Inr y"
  using assms by (auto simp: bind_r_Inr_iff)

text \<open>A recursive call behind a bind is made on the value of the bound result only.\<close>

lemma bind_r_cong [fundef_cong]:
  "r = r' \<Longrightarrow> (\<And>x. r' = Inr x \<Longrightarrow> f x = f' x) \<Longrightarrow> bind_r r f = bind_r r' f'"
  by (cases r') auto

lemma bind_r_assoc: "bind_r (bind_r r f) g = bind_r r (\<lambda>x. bind_r (f x) g)"
  by (cases r) auto

text \<open>A pointer that must not be null, and a checked read of a block.\<close>

definition deref :: "'a option \<Rightarrow> 'a res" where
  "deref p = (case p of None \<Rightarrow> Inl NullDeref | Some x \<Rightarrow> Inr x)"

lemma deref_simps [simp, res_simps]:
  "deref (Some x) = Inr x"
  "deref None = Inl NullDeref"
  by (simp_all add: deref_def)

lemma deref_Inr_iff [res_simps]: "deref p = Inr x \<longleftrightarrow> p = Some x"
  by (cases p) auto

definition slot :: "'a list \<Rightarrow> int \<Rightarrow> 'a res" where
  "slot xs i = (if 0 \<le> i \<and> i < int (length xs) then Inr (xs ! nat i) else Inl OutOfBounds)"

definition set_slot :: "'a list \<Rightarrow> int \<Rightarrow> 'a \<Rightarrow> 'a list res" where
  "set_slot xs i x =
     (if 0 \<le> i \<and> i < int (length xs) then Inr (xs[nat i := x]) else Inl OutOfBounds)"

lemma slot_in [simp]: "0 \<le> i \<Longrightarrow> i < int (length xs) \<Longrightarrow> slot xs i = Inr (xs ! nat i)"
  by (simp add: slot_def)

lemma slot_out: "i < 0 \<or> int (length xs) \<le> i \<Longrightarrow> slot xs i = Inl OutOfBounds"
  by (auto simp: slot_def)

lemma slot_Inr_iff [res_simps]:
  "slot xs i = Inr x \<longleftrightarrow> 0 \<le> i \<and> i < int (length xs) \<and> x = xs ! nat i"
  by (auto simp: slot_def)

lemma set_slot_in [simp]:
  "0 \<le> i \<Longrightarrow> i < int (length xs) \<Longrightarrow> set_slot xs i x = Inr (xs[nat i := x])"
  by (simp add: set_slot_def)

lemma set_slot_Inr_iff [res_simps]:
  "set_slot xs i x = Inr ys \<longleftrightarrow> 0 \<le> i \<and> i < int (length xs) \<and> ys = xs[nat i := x]"
  by (auto simp: set_slot_def)

lemma take_Suc_drop:
  "i < length xs \<Longrightarrow> take (Suc n) (drop i xs) = xs ! i # take n (drop (Suc i) xs)"
  by (metis Cons_nth_drop_Suc take_Suc_Cons)

section \<open>Bytes and C strings\<close>

definition NUL :: char where
  "NUL = CHR 0x00"

definition TAB :: char where
  "TAB = CHR 0x09"

definition NL :: char where
  "NL = CHR 0x0A"

lemma ctrl_distinct [simp]:
  "NUL \<noteq> TAB" "TAB \<noteq> NUL" "NUL \<noteq> NL" "NL \<noteq> NUL" "TAB \<noteq> NL" "NL \<noteq> TAB"
  by (simp_all add: NUL_def TAB_def NL_def)

text \<open>
  The C string at the start of a block: the bytes before the first terminator. Reading it
  from a block without a terminator runs out of the block.
\<close>

definition c_str :: "char list \<Rightarrow> string res" where
  "c_str mem = (if NUL \<in> set mem then Inr (takeWhile (\<lambda>c. c \<noteq> NUL) mem) else Inl OutOfBounds)"

text \<open>The block that a string literal or a freshly copied string occupies.\<close>

definition c_block :: "string \<Rightarrow> char list" where
  "c_block s = s @ [NUL]"

lemma takeWhile_until_NUL:
  assumes "NUL \<notin> set s"
  shows "takeWhile (\<lambda>c. c \<noteq> NUL) (s @ NUL # rest) = s"
  using assms by (induction s) auto

lemma c_str_append [simp]: "NUL \<notin> set s \<Longrightarrow> c_str (s @ NUL # rest) = Inr s"
  by (simp add: c_str_def takeWhile_until_NUL)

lemma c_str_block [simp]: "NUL \<notin> set s \<Longrightarrow> c_str (c_block s) = Inr s"
  by (simp add: c_block_def)

lemma length_c_block [simp]: "length (c_block s) = Suc (length s)"
  by (simp add: c_block_def)

lemma c_str_no_NUL: "c_str mem = Inr s \<Longrightarrow> NUL \<notin> set s"
  by (auto simp: c_str_def split: if_splits dest: set_takeWhileD)

lemma c_str_split:
  assumes "c_str mem = Inr s"
  shows "\<exists>rest. mem = s @ NUL # rest"
proof -
  from assms have "NUL \<in> set mem" and s: "s = takeWhile (\<lambda>c. c \<noteq> NUL) mem"
    by (auto simp: c_str_def split: if_splits)
  then have "dropWhile (\<lambda>c. c \<noteq> NUL) mem \<noteq> []"
    by (auto simp: dropWhile_eq_Nil_conv)
  moreover from this have "hd (dropWhile (\<lambda>c. c \<noteq> NUL) mem) = NUL"
    using hd_dropWhile [of "\<lambda>c. c \<noteq> NUL" mem] by auto
  ultimately show ?thesis
    using takeWhile_dropWhile_id [of "\<lambda>c. c \<noteq> NUL" mem] s
    by (metis list.collapse)
qed

text \<open>\<open>memcpy\<close> into a block, at an offset.\<close>

definition write_at :: "'a list \<Rightarrow> nat \<Rightarrow> 'a list \<Rightarrow> 'a list res" where
  "write_at xs pos ys =
     (if pos + length ys \<le> length xs
      then Inr (take pos xs @ ys @ drop (pos + length ys) xs) else Inl OutOfBounds)"

lemma write_at_in [simp]:
  "pos + length ys \<le> length xs \<Longrightarrow>
     write_at xs pos ys = Inr (take pos xs @ ys @ drop (pos + length ys) xs)"
  by (simp add: write_at_def)

section \<open>The allocator\<close>

text \<open>
  Whether a request is granted is up to the allocator, and so are the bytes of memory it
  hands out without clearing them. Both are a parameter of every operation that allocates:
  \<open>grants n\<close> tells whether a request of \<open>n\<close> bytes succeeds, \<open>junk i\<close> is byte \<open>i\<close> of a
  block extended by \<open>realloc\<close>. No request beyond \<open>PTRDIFF_MAX\<close> succeeds. An operation with
  several allocation sites takes one such environment per site, so that each of its
  requests can succeed or fail on its own.
\<close>

record alloc_env =
  grants :: "nat \<Rightarrow> bool"
  junk :: "nat \<Rightarrow> char"

definition can_alloc :: "alloc_env \<Rightarrow> nat \<Rightarrow> bool" where
  "can_alloc env n \<longleftrightarrow> n < 2 ^ 63 \<and> grants env n"

definition realloc_bytes :: "alloc_env \<Rightarrow> char list \<Rightarrow> nat \<Rightarrow> char list" where
  "realloc_bytes env xs n = take n xs @ map (junk env) [length xs..<n]"

lemma length_realloc_bytes [simp]: "length (realloc_bytes env xs n) = n"
  by (simp add: realloc_bytes_def)

lemma take_realloc_bytes [simp]:
  "k \<le> length xs \<Longrightarrow> k \<le> n \<Longrightarrow> take k (realloc_bytes env xs n) = take k xs"
  by (simp add: realloc_bytes_def min_def)

text \<open>An allocator that grants everything below the limit, with cleared memory.\<close>

definition roomy :: alloc_env where
  "roomy = \<lparr>grants = (\<lambda>_. True), junk = (\<lambda>_. NUL)\<rparr>"

lemma roomy_simps [simp]: "grants roomy n" "junk roomy i = NUL"
  by (simp_all add: roomy_def)

lemma can_alloc_roomy [simp]: "can_alloc roomy n \<longleftrightarrow> n < 2 ^ 63"
  by (simp add: can_alloc_def)

section \<open>Numbers read from text\<close>

text \<open>
  \<open>atol\<close> and \<open>atoi\<close> as the C library has them: leading white space, an optional sign,
  then decimal digits; the value is clamped to a 64-bit \<open>long\<close>, and \<open>atoi\<close> converts it to
  a 32-bit \<open>int\<close>.
\<close>

definition is_space :: "char \<Rightarrow> bool" where
  "is_space c \<longleftrightarrow> c = CHR '' '' \<or> (9 \<le> (of_char c :: nat) \<and> (of_char c :: nat) \<le> 13)"

definition is_digit :: "char \<Rightarrow> bool" where
  "is_digit c \<longleftrightarrow> 48 \<le> (of_char c :: nat) \<and> (of_char c :: nat) \<le> 57"

fun digits_val :: "int \<Rightarrow> string \<Rightarrow> int" where
  "digits_val acc [] = acc"
| "digits_val acc (c # cs) =
     (if is_digit c then digits_val (10 * acc + (of_char c - 48)) cs else acc)"

definition strtol_val :: "string \<Rightarrow> int" where
  "strtol_val s =
     (case dropWhile is_space s of
        [] \<Rightarrow> 0
      | c # cs \<Rightarrow> (if c = CHR ''-'' then - digits_val 0 cs
                  else if c = CHR ''+'' then digits_val 0 cs
                  else digits_val 0 (c # cs)))"

definition atol :: "string \<Rightarrow> int" where
  "atol s = max (- (2 ^ 63)) (min (2 ^ 63 - 1) (strtol_val s))"

definition to_int32 :: "int \<Rightarrow> int" where
  "to_int32 x = (x + 2 ^ 31) mod 2 ^ 32 - 2 ^ 31"

definition atoi :: "string \<Rightarrow> int" where
  "atoi s = to_int32 (atol s)"

lemma atol_range: "- (2 ^ 63) \<le> atol s \<and> atol s < 2 ^ 63"
  by (auto simp: atol_def)

lemma atoi_range: "- (2 ^ 31) \<le> atoi s \<and> atoi s < 2 ^ 31"
  by (simp add: atoi_def to_int32_def)

lemma to_int32_id: "- (2 ^ 31) \<le> x \<Longrightarrow> x < 2 ^ 31 \<Longrightarrow> to_int32 x = x"
  by (simp add: to_int32_def)

section \<open>Pieces of text\<close>

text \<open>
  One call of \<open>strtok\<close> on the text it goes on with: the token, if there is one, and the text the
  next call goes on with.
\<close>

definition strtok_step :: "(char \<Rightarrow> bool) \<Rightarrow> string \<Rightarrow> string option \<times> string" where
  "strtok_step delim s =
     (case dropWhile delim s of [] \<Rightarrow> (None, [])
      | c # cs \<Rightarrow> (Some (takeWhile (\<lambda>c. \<not> delim c) (c # cs)),
                  drop 1 (dropWhile (\<lambda>c. \<not> delim c) (c # cs))))"

text \<open>
  The pieces that \<open>fgets\<close> with room for \<open>n\<close> characters and a terminator reads one after the
  other: lines with their line feed, cut where they are too long.
\<close>

fun fgets :: "nat \<Rightarrow> string \<Rightarrow> string" where
  "fgets 0 s = []"
| "fgets (Suc n) [] = []"
| "fgets (Suc n) (c # cs) = (if c = NL then [c] else c # fgets n cs)"

lemma fgets_progress: "0 < n \<Longrightarrow> s \<noteq> [] \<Longrightarrow> 0 < length (fgets n s)"
  by (cases n; cases s) auto

function fgets_all :: "nat \<Rightarrow> string \<Rightarrow> string list" where
  "fgets_all n s =
     (if s = [] \<or> n = 0 then [] else fgets n s # fgets_all n (drop (length (fgets n s)) s))"
  by pat_completeness auto
termination
  by (relation "measure (\<lambda>(n, s). length s)") (auto simp: fgets_progress [simplified])

declare fgets_all.simps [simp del]

lemma fgets_line: "NL \<notin> set l \<Longrightarrow> length l < n \<Longrightarrow> fgets n (l @ NL # s) = l @ [NL]"
proof (induction l arbitrary: n)
  case Nil
  then show ?case by (cases n) auto
next
  case (Cons c l)
  then show ?case by (cases n) auto
qed

lemma fgets_all_lines:
  assumes "\<forall>l \<in> set ls. NL \<notin> set l \<and> length l < n"
  shows "fgets_all n (concat (map (\<lambda>l. l @ [NL]) ls)) = map (\<lambda>l. l @ [NL]) ls"
  using assms
proof (induction ls)
  case Nil
  then show ?case by (simp add: fgets_all.simps)
next
  case (Cons l ls)
  let ?s = "concat (map (\<lambda>l. l @ [NL]) ls)"
  have "fgets n (l @ NL # ?s) = l @ [NL]"
    using Cons.prems by (intro fgets_line) auto
  moreover have "0 < n"
    using Cons.prems by auto
  ultimately show ?case
    using Cons by (simp add: fgets_all.simps [of n "l @ NL # ?s"])
qed

section \<open>Time stamps\<close>

record timeval =
  tv_sec :: int
  tv_usec :: int

definition timeval_zero :: timeval where
  "timeval_zero = \<lparr>tv_sec = 0, tv_usec = 0\<rparr>"

text \<open>Time stamps are ordered by seconds, then by microseconds.\<close>

instantiation timeval_ext :: (linorder) linorder
begin

definition less_eq_timeval_ext :: "'a timeval_ext \<Rightarrow> 'a timeval_ext \<Rightarrow> bool" where
  "a \<le> b \<longleftrightarrow> tv_sec a < tv_sec b \<or> tv_sec a = tv_sec b \<and>
     (tv_usec a < tv_usec b \<or> tv_usec a = tv_usec b \<and> timeval.more a \<le> timeval.more b)"

definition less_timeval_ext :: "'a timeval_ext \<Rightarrow> 'a timeval_ext \<Rightarrow> bool" where
  "a < b \<longleftrightarrow> a \<le> b \<and> \<not> b \<le> (a :: 'a timeval_ext)"

instance
proof
  fix a b c :: "'a timeval_ext"
  show "a < b \<longleftrightarrow> a \<le> b \<and> \<not> b \<le> a"
    by (rule less_timeval_ext_def)
  show "a \<le> a" "a \<le> b \<or> b \<le> a" "a \<le> b \<Longrightarrow> b \<le> c \<Longrightarrow> a \<le> c"
    by (auto simp: less_eq_timeval_ext_def)
  show "a \<le> b \<Longrightarrow> b \<le> a \<Longrightarrow> a = b"
    by (auto simp: less_eq_timeval_ext_def intro: timeval.equality)
qed

end

text \<open>The macro \<open>timercmp\<close> of \<open>sys/time.h\<close>, for the comparison \<open>cmp\<close>.\<close>

definition timercmp :: "timeval \<Rightarrow> timeval \<Rightarrow> (int \<Rightarrow> int \<Rightarrow> bool) \<Rightarrow> bool" where
  "timercmp a b cmp =
     (if tv_sec a = tv_sec b then cmp (tv_usec a) (tv_usec b) else cmp (tv_sec a) (tv_sec b))"

lemma timercmp_le_total: "timercmp a b (\<le>) \<or> timercmp b a (\<le>)"
  by (auto simp: timercmp_def)

lemma timercmp_le_trans: "timercmp a b (\<le>) \<Longrightarrow> timercmp b c (\<le>) \<Longrightarrow> timercmp a c (\<le>)"
  by (auto simp: timercmp_def split: if_splits)

lemma timercmp_le_antisym:
  "timercmp a b (\<le>) \<Longrightarrow> timercmp b a (\<le>) \<Longrightarrow> tv_sec a = tv_sec b \<and> tv_usec a = tv_usec b"
  by (auto simp: timercmp_def split: if_splits)

lemma timercmp_not_le: "\<not> timercmp a b (\<le>) \<longleftrightarrow> timercmp b a (<)"
  by (auto simp: timercmp_def)

text \<open>The comparison of the code is that order.\<close>

lemma timercmp_le_iff: "timercmp a b (\<le>) \<longleftrightarrow> a \<le> b"
  by (auto simp: timercmp_def less_eq_timeval_ext_def)

lemma timercmp_less_iff: "timercmp a b (<) \<longleftrightarrow> a < b"
  by (auto simp: timercmp_def less_timeval_ext_def less_eq_timeval_ext_def)

end
