(* ===== verification/StringBuf.thy ===== *)
theory StringBuf
  imports Prelude
begin

text \<open>
  The growable string buffer of \<open>src/src/watchdog/src/containers.c\<close> (lines 8-71).

  A \<open>stringBuffer\<close> holds its heap block byte for byte: \<open>sb_string\<close> is the block (no bytes
  for a null pointer), \<open>sb_size\<close> the field \<open>size\<close>, \<open>end_pos\<close> the field of that name, which
  is a 32-bit unsigned integer and is reduced modulo \<open>2 ^ 32\<close> as such. The sum
  \<open>end_pos + len\<close> is formed in \<open>size_t\<close>, modulo \<open>2 ^ 64\<close>. A request never exceeds
  \<open>PTRDIFF_MAX\<close>, so the doubled \<open>size\<close> does not wrap.

  The abstract value of a buffer is the text \<open>sb_text\<close>. The lemmas show that every operation
  keeps \<open>sb_wf\<close> and acts on the text as its name says; the last section states this as the
  locale \<open>text_sink\<close> and interprets it.
\<close>

section \<open>State and operations\<close>

record stringBuffer =
  sb_string :: "char list"
  sb_size :: nat
  end_pos :: nat

definition sb_null :: stringBuffer where
  "sb_null = \<lparr>sb_string = [], sb_size = 0, end_pos = 0\<rparr>"

definition sb_init :: "alloc_env \<Rightarrow> stringBuffer \<Rightarrow> nat \<Rightarrow> int \<times> stringBuffer" where
  "sb_init env this n =
     (if \<not> can_alloc env n \<or> n = 0 then (1, this\<lparr>sb_string := []\<rparr>)
      else (0, this\<lparr>sb_string := replicate n NUL, sb_size := n, end_pos := 0\<rparr>))"

text \<open>
  The loop both append functions open with. It ends when the text fits, or when \<open>realloc\<close>
  refuses; a buffer of size \<open>0\<close> is doubled to \<open>0\<close> for ever as long as \<open>realloc\<close> hands out
  blocks of \<open>0\<close> bytes.
\<close>

function sb_reserve :: "alloc_env \<Rightarrow> nat \<Rightarrow> stringBuffer \<Rightarrow> (int \<times> stringBuffer) res" where
  "sb_reserve env need this =
     (if need < sb_size this then Inr (0, this)
      else if \<not> can_alloc env (sb_size this * 2) then Inr (1, this)
      else if sb_size this = 0 then Inl Diverges
      else sb_reserve env need
             (this\<lparr>sb_string := realloc_bytes env (sb_string this) (sb_size this * 2),
                   sb_size := sb_size this * 2\<rparr>))"
  by pat_completeness auto
termination
  by (relation "measure (\<lambda>(env, need, this). Suc need - sb_size this)") auto

declare sb_reserve.simps [simp del]

definition need_size :: "stringBuffer \<Rightarrow> nat \<Rightarrow> nat" where
  "need_size this len = (end_pos this + len) mod 2 ^ 64"

definition sb_appendl ::
  "alloc_env \<Rightarrow> stringBuffer \<Rightarrow> char list \<Rightarrow> nat \<Rightarrow> (int \<times> stringBuffer) res" where
  "sb_appendl env this mem len =
     bind_r (sb_reserve env (need_size this len) this) (\<lambda>(ret, this).
       if ret \<noteq> 0 then Inr (1, this)
       else if length mem < len then Inl OutOfBounds
       else bind_r (write_at (sb_string this) (end_pos this) (take len mem)) (\<lambda>s.
         Inr (0, this\<lparr>sb_string := s, end_pos := (end_pos this + len) mod 2 ^ 32\<rparr>)))"

definition sb_append :: "alloc_env \<Rightarrow> stringBuffer \<Rightarrow> char list \<Rightarrow> (int \<times> stringBuffer) res" where
  "sb_append env this mem =
     bind_r (c_str mem) (\<lambda>str. let len = length str in
       bind_r (sb_reserve env (need_size this len) this) (\<lambda>(ret, this).
         if ret \<noteq> 0 then Inr (1, this)
         else bind_r (write_at (sb_string this) (end_pos this) (take (len + 1) mem)) (\<lambda>s.
           Inr (0, this\<lparr>sb_string := s, end_pos := (end_pos this + len) mod 2 ^ 32\<rparr>))))"

definition sb_deletehead :: "stringBuffer \<Rightarrow> nat \<Rightarrow> stringBuffer res" where
  "sb_deletehead this len =
     (let len = (if len > end_pos this then end_pos this else len);
          src = take (end_pos this + 1 - len) (drop len (sb_string this));
          e = end_pos this - len in
      if length (sb_string this) < end_pos this + 1 then Inl OutOfBounds
      else bind_r (write_at (sb_string this) 0 src) (\<lambda>s.
        bind_r (set_slot s (int e) NUL) (\<lambda>s.
          Inr (this\<lparr>sb_string := s, end_pos := e\<rparr>))))"

definition sb_flush :: "stringBuffer \<Rightarrow> stringBuffer res" where
  "sb_flush this =
     bind_r (write_at (sb_string this) 0 (replicate (sb_size this) NUL)) (\<lambda>s.
       Inr (this\<lparr>sb_string := s, end_pos := 0\<rparr>))"

definition sb_destroy :: "stringBuffer \<Rightarrow> stringBuffer" where
  "sb_destroy this = this\<lparr>sb_size := 0, end_pos := 0, sb_string := []\<rparr>"

text \<open>
  \<open>sb_stringCpy\<close> tests the pointer it was given, not the block it just requested, so a
  refused request is followed by a write through a null pointer. \<open>strcpy\<close> copies up to the
  first terminator of the source, into a block of \<open>end_pos + 1\<close> bytes.
\<close>

definition sb_stringCpy :: "alloc_env \<Rightarrow> stringBuffer \<Rightarrow> (int \<times> string) res" where
  "sb_stringCpy env this =
     bind_r (c_str (sb_string this)) (\<lambda>s.
       if \<not> can_alloc env (end_pos this + 1) then Inl NullDeref
       else if end_pos this + 1 < length s + 1 then Inl OutOfBounds
       else Inr (0, s))"

section \<open>Invariant and abstract value\<close>

definition sb_wf :: "stringBuffer \<Rightarrow> bool" where
  "sb_wf b \<longleftrightarrow> length (sb_string b) = sb_size b \<and> end_pos b < sb_size b \<and> end_pos b < 2 ^ 32"

definition sb_text :: "stringBuffer \<Rightarrow> string" where
  "sb_text b = take (end_pos b) (sb_string b)"

definition sb_terminated :: "stringBuffer \<Rightarrow> bool" where
  "sb_terminated b \<longleftrightarrow> sb_string b ! end_pos b = NUL"

lemma length_sb_text [simp]: "sb_wf b \<Longrightarrow> length (sb_text b) = end_pos b"
  by (simp add: sb_wf_def sb_text_def)

lemma sb_wfD:
  assumes "sb_wf b"
  shows "length (sb_string b) = sb_size b" "end_pos b < sb_size b" "end_pos b < 2 ^ 32"
    "0 < sb_size b"
  using assms by (auto simp: sb_wf_def)

lemma sb_string_split:
  assumes "sb_wf b" "sb_terminated b"
  shows "\<exists>rest. sb_string b = sb_text b @ NUL # rest"
  using assms unfolding sb_wf_def sb_terminated_def sb_text_def
  by (metis id_take_nth_drop)

lemma c_str_sb_string:
  assumes "sb_wf b" "sb_terminated b" "NUL \<notin> set (sb_text b)"
  shows "c_str (sb_string b) = Inr (sb_text b)"
  using sb_string_split [OF assms(1,2)] assms(3) by auto

section \<open>Reserving room\<close>

lemma sb_reserve_spec:
  assumes "length (sb_string b) = sb_size b" "0 < sb_size b"
  shows "\<exists>ret b'. sb_reserve env need b = Inr (ret, b') \<and> length (sb_string b') = sb_size b'
           \<and> sb_size b \<le> sb_size b' \<and> end_pos b' = end_pos b
           \<and> take (sb_size b) (sb_string b') = sb_string b
           \<and> (ret = 0 \<and> need < sb_size b' \<or>
              ret = 1 \<and> \<not> can_alloc env (sb_size b' * 2) \<and> sb_size b' \<le> need)"
  using assms
proof (induction env need b rule: sb_reserve.induct)
  case (1 env need this)
  consider "need < sb_size this" | "sb_size this \<le> need" "\<not> can_alloc env (sb_size this * 2)"
    | "sb_size this \<le> need" "can_alloc env (sb_size this * 2)" by linarith
  then show ?case
  proof cases
    case 1
    with "1.prems" show ?thesis by (simp add: sb_reserve.simps [of env need this])
  next
    case 2
    with "1.prems" show ?thesis by (simp add: sb_reserve.simps [of env need this])
  next
    case 3
    let ?next = "this\<lparr>sb_string := realloc_bytes env (sb_string this) (sb_size this * 2),
                   sb_size := sb_size this * 2\<rparr>"
    have eq: "sb_reserve env need this = sb_reserve env need ?next"
      using 3 "1.prems" by (simp add: sb_reserve.simps [of env need this])
    from "1.IH" 3 "1.prems" obtain ret b' where IH:
      "sb_reserve env need ?next = Inr (ret, b')" "length (sb_string b') = sb_size b'"
      "sb_size this * 2 \<le> sb_size b'" "end_pos b' = end_pos this"
      "take (sb_size this * 2) (sb_string b') = sb_string ?next"
      "ret = 0 \<and> need < sb_size b' \<or>
       ret = 1 \<and> \<not> can_alloc env (sb_size b' * 2) \<and> sb_size b' \<le> need"
      by fastforce
    have "take (sb_size this) (sb_string b')
        = take (sb_size this) (take (sb_size this * 2) (sb_string b'))"
      by (simp add: min_def)
    also have "\<dots> = sb_string this"
      using IH(5) "1.prems" by simp
    finally show ?thesis
      using IH eq by auto
  qed
qed

text \<open>The room taken is at most twice what was needed.\<close>

lemma sb_reserve_size:
  assumes "0 < sb_size b" "sb_reserve env need b = Inr (ret, b')"
  shows "sb_size b' \<le> max (sb_size b) (2 * need)"
  using assms
proof (induction env need b rule: sb_reserve.induct)
  case (1 env need this)
  show ?case
    using "1.prems" "1.IH"
    by (cases "need < sb_size this"; cases "can_alloc env (sb_size this * 2)")
       (auto simp: sb_reserve.simps [of env need this])
qed

lemma sb_reserve_roomy:
  assumes "0 < sb_size b" "sb_reserve env need b = Inr (ret, b')"
    "\<And>n. n \<le> max (2 * sb_size b) (4 * need) \<Longrightarrow> can_alloc env n"
    "length (sb_string b) = sb_size b"
  shows "ret = 0"
  using sb_reserve_spec [OF assms(4,1), of env need] sb_reserve_size [OF assms(1,2)] assms(2,3)
  by fastforce

text \<open>The bytes from the end of the text on, which only \<open>realloc\<close> brings in.\<close>

definition sb_tail :: "stringBuffer \<Rightarrow> char set" where
  "sb_tail b = set (drop (end_pos b) (sb_string b))"

lemma set_drop_realloc_bytes:
  assumes "length xs \<le> n"
  shows "set (drop k (realloc_bytes env xs n)) \<subseteq> set (drop k xs) \<union> range (junk env)"
proof -
  have "set (drop (k - length xs) (map (junk env) [length xs..<n])) \<subseteq> range (junk env)"
    using set_drop_subset [of "k - length xs" "map (junk env) [length xs..<n]"] by auto
  with assms show ?thesis
    by (auto simp: realloc_bytes_def)
qed

lemma sb_reserve_tail:
  assumes "length (sb_string b) = sb_size b" "sb_reserve env need b = Inr (ret, b')"
  shows "sb_tail b' \<subseteq> sb_tail b \<union> range (junk env)"
  using assms
proof (induction env need b rule: sb_reserve.induct)
  case (1 env need this)
  show ?case
  proof (cases "need < sb_size this \<or> \<not> can_alloc env (sb_size this * 2) \<or> sb_size this = 0")
    case True
    with "1.prems" show ?thesis
      by (auto simp: sb_reserve.simps [of env need this] split: if_splits)
  next
    case False
    let ?next = "this\<lparr>sb_string := realloc_bytes env (sb_string this) (sb_size this * 2),
                   sb_size := sb_size this * 2\<rparr>"
    have "sb_tail b' \<subseteq> sb_tail ?next \<union> range (junk env)"
      using False "1.prems" "1.IH" by (auto simp: sb_reserve.simps [of env need this])
    moreover have "sb_tail ?next \<subseteq> sb_tail this \<union> range (junk env)"
      using set_drop_realloc_bytes [of "sb_string this" "sb_size this * 2" "end_pos this" env]
        "1.prems"(1) by (simp add: sb_tail_def)
    ultimately show ?thesis by blast
  qed
qed

lemma sb_reserve_wf:
  assumes "sb_wf b"
  obtains ret b1 where "sb_reserve env need b = Inr (ret, b1)" "sb_wf b1"
    "sb_text b1 = sb_text b" "end_pos b1 = end_pos b" "sb_size b \<le> sb_size b1"
    "sb_terminated b \<Longrightarrow> sb_terminated b1" "sb_tail b1 \<subseteq> sb_tail b \<union> range (junk env)"
    "ret = 0 \<and> need < sb_size b1 \<or> ret = 1 \<and> (\<exists>n \<le> 2 * need. \<not> can_alloc env n)"
proof -
  note w = sb_wfD [OF assms]
  obtain ret b1 where r:
    "sb_reserve env need b = Inr (ret, b1)" "length (sb_string b1) = sb_size b1"
    "sb_size b \<le> sb_size b1" "end_pos b1 = end_pos b"
    "take (sb_size b) (sb_string b1) = sb_string b"
    "ret = 0 \<and> need < sb_size b1 \<or> ret = 1 \<and> \<not> can_alloc env (sb_size b1 * 2) \<and> sb_size b1 \<le> need"
    using sb_reserve_spec [OF w(1,4), of env need] by blast
  have "take (end_pos b) (sb_string b1) = take (end_pos b) (take (sb_size b) (sb_string b1))"
    using w(2) by (simp add: min_def)
  then have same: "sb_text b1 = sb_text b"
    using r(4,5) by (simp add: sb_text_def)
  have "sb_string b1 ! end_pos b = take (sb_size b) (sb_string b1) ! end_pos b"
    using w(2) by simp
  then have trm: "sb_terminated b1" if "sb_terminated b"
    using r(4,5) that by (simp add: sb_terminated_def)
  have wf: "sb_wf b1"
    using r w by (simp add: sb_wf_def)
  have fin: "ret = 0 \<and> need < sb_size b1 \<or> ret = 1 \<and> (\<exists>n \<le> 2 * need. \<not> can_alloc env n)"
    using r(6) by (auto intro!: exI [of _ "sb_size b1 * 2"])
  show ?thesis
    using that [OF r(1) wf same r(4,3) _ sb_reserve_tail [OF w(1) r(1)] fin] trm by blast
qed

section \<open>Appending\<close>

lemma need_size_small [simp]:
  "end_pos b + len < 2 ^ 32 \<Longrightarrow> need_size b len = end_pos b + len"
  by (simp add: need_size_def)

text \<open>The block after \<open>memcpy\<close> of \<open>s\<close> and at most one more byte to the end of the text.\<close>

definition sb_put :: "stringBuffer \<Rightarrow> char list \<Rightarrow> char list \<Rightarrow> stringBuffer" where
  "sb_put b s z = b\<lparr>sb_string := take (end_pos b) (sb_string b) @ (s @ z)
       @ drop (end_pos b + length (s @ z)) (sb_string b),
     end_pos := end_pos b + length s\<rparr>"

lemma sb_put_facts:
  assumes "sb_wf b" "end_pos b + length s < sb_size b" "end_pos b + length s < 2 ^ 32"
    "length z \<le> 1"
  shows "sb_wf (sb_put b s z)" "sb_text (sb_put b s z) = sb_text b @ s"
    "z = [NUL] \<Longrightarrow> sb_terminated (sb_put b s z)"
    "sb_tail (sb_put b s z) \<subseteq> set z \<union> sb_tail b"
proof -
  note w = sb_wfD [OF assms(1)]
  show "sb_wf (sb_put b s z)"
    using assms w by (simp add: sb_wf_def sb_put_def)
  have "end_pos b + length s - length (take (end_pos b) (sb_string b)) = length s"
    using w by simp
  then show "sb_text (sb_put b s z) = sb_text b @ s"
    using w by (simp add: sb_text_def sb_put_def)
  show "sb_terminated (sb_put b s z)" if "z = [NUL]"
    using w that by (simp add: sb_terminated_def sb_put_def nth_append)
  have "drop (end_pos b + length s) (take (end_pos b) (sb_string b)) = []"
    using w by simp
  moreover have "set (drop (end_pos b + length s + length z) (sb_string b))
      \<subseteq> set (drop (end_pos b) (sb_string b))"
    by (rule set_drop_subset_set_drop) simp
  ultimately show "sb_tail (sb_put b s z) \<subseteq> set z \<union> sb_tail b"
    using w by (auto simp: sb_tail_def sb_put_def add.assoc)
qed

lemma write_at_put:
  assumes "sb_wf b" "end_pos b + length s < sb_size b" "length z \<le> 1"
  shows "write_at (sb_string b) (end_pos b) (s @ z) = Inr (sb_string (sb_put b s z))"
  using assms by (simp add: sb_wf_def sb_put_def)

lemma sb_appendl_cases:
  assumes wf: "sb_wf b" and len: "len = length s" and fits: "end_pos b + len < 2 ^ 32"
  obtains ret b1 where "sb_wf b1" "sb_text b1 = sb_text b" "end_pos b1 = end_pos b"
    "sb_tail b1 \<subseteq> sb_tail b \<union> range (junk env)"
    "sb_terminated b \<Longrightarrow> sb_terminated b1"
    "ret = 0 \<and> end_pos b + len < sb_size b1
       \<and> sb_appendl env b (s @ mem) len = Inr (0, sb_put b1 s []) \<or>
     ret = 1 \<and> sb_appendl env b (s @ mem) len = Inr (1, b1) \<and> (\<exists>n. \<not> grants env n)"
proof -
  obtain ret b1 where r: "sb_reserve env (end_pos b + len) b = Inr (ret, b1)" "sb_wf b1"
    "sb_text b1 = sb_text b" "end_pos b1 = end_pos b" "sb_terminated b \<Longrightarrow> sb_terminated b1"
    "sb_tail b1 \<subseteq> sb_tail b \<union> range (junk env)"
    "ret = 0 \<and> end_pos b + len < sb_size b1
       \<or> ret = 1 \<and> (\<exists>n \<le> 2 * (end_pos b + len). \<not> can_alloc env n)"
    by (rule sb_reserve_wf [OF wf, of env "end_pos b + len"]) blast
  have refused: "\<exists>n. \<not> grants env n" if "\<exists>n \<le> 2 * (end_pos b + len). \<not> can_alloc env n"
    using that fits by (auto simp: can_alloc_def)
  have "sb_appendl env b (s @ mem) len = Inr (0, sb_put b1 s [])"
    if "ret = 0" "end_pos b + len < sb_size b1"
    using that r(1,4) fits len write_at_put [OF r(2), of s "[]"]
    by (simp add: sb_appendl_def sb_put_def)
  moreover have "sb_appendl env b (s @ mem) len = Inr (1, b1)" if "ret = 1"
    using that r(1,4) fits by (simp add: sb_appendl_def)
  ultimately show ?thesis
    using that [OF r(2,3,4,6,5)] r(7) refused by blast
qed

lemma sb_appendl_granted:
  assumes wf: "sb_wf b" and fits: "end_pos b + length s < 2 ^ 32" and mem: "\<forall>n. grants env n"
  shows "\<exists>b1. sb_wf b1 \<and> sb_text b1 = sb_text b \<and> end_pos b1 = end_pos b
     \<and> sb_tail b1 \<subseteq> sb_tail b \<union> range (junk env) \<and> end_pos b + length s < sb_size b1
     \<and> sb_appendl env b s (length s) = Inr (0, sb_put b1 s [])"
proof (rule sb_appendl_cases [OF wf refl fits, of env "[]"])
  fix ret b1
  assume "sb_wf b1" "sb_text b1 = sb_text b" "end_pos b1 = end_pos b"
    "sb_tail b1 \<subseteq> sb_tail b \<union> range (junk env)"
    "ret = 0 \<and> end_pos b + length s < sb_size b1
       \<and> sb_appendl env b (s @ []) (length s) = Inr (0, sb_put b1 s []) \<or>
     ret = (1::int) \<and> sb_appendl env b (s @ []) (length s) = Inr (1, b1) \<and> (\<exists>n. \<not> grants env n)"
  with mem show ?thesis by (intro exI [of _ b1]) auto
qed

lemma sb_append_cases:
  assumes wf: "sb_wf b" and str: "c_str mem = Inr s" and fits: "end_pos b + length s < 2 ^ 32"
  obtains ret b1 where "sb_wf b1" "sb_text b1 = sb_text b" "end_pos b1 = end_pos b"
    "sb_tail b1 \<subseteq> sb_tail b \<union> range (junk env)"
    "sb_terminated b \<Longrightarrow> sb_terminated b1"
    "ret = 0 \<and> end_pos b + length s < sb_size b1
       \<and> sb_append env b mem = Inr (0, sb_put b1 s [NUL]) \<or>
     ret = 1 \<and> sb_append env b mem = Inr (1, b1) \<and> (\<exists>n. \<not> grants env n)"
proof -
  obtain ret b1 where r: "sb_reserve env (end_pos b + length s) b = Inr (ret, b1)" "sb_wf b1"
    "sb_text b1 = sb_text b" "end_pos b1 = end_pos b" "sb_terminated b \<Longrightarrow> sb_terminated b1"
    "sb_tail b1 \<subseteq> sb_tail b \<union> range (junk env)"
    "ret = 0 \<and> end_pos b + length s < sb_size b1
       \<or> ret = 1 \<and> (\<exists>n \<le> 2 * (end_pos b + length s). \<not> can_alloc env n)"
    by (rule sb_reserve_wf [OF wf, of env "end_pos b + length s"]) blast
  have refused: "\<exists>n. \<not> grants env n" if "\<exists>n \<le> 2 * (end_pos b + length s). \<not> can_alloc env n"
    using that fits by (auto simp: can_alloc_def)
  have mem: "take (Suc (length s)) mem = s @ [NUL]"
    using c_str_split [OF str] by auto
  have "sb_append env b mem = Inr (0, sb_put b1 s [NUL])"
    if "ret = 0" "end_pos b + length s < sb_size b1"
    using that r(1,4) fits str mem write_at_put [OF r(2), of s "[NUL]"]
    by (simp add: sb_append_def sb_put_def Let_def)
  moreover have "sb_append env b mem = Inr (1, b1)" if "ret = 1"
    using that r(1,4) fits str by (simp add: sb_append_def Let_def)
  ultimately show ?thesis
    using that [OF r(2,3,4,6,5)] r(7) refused by blast
qed

lemma sb_append_total:
  assumes wf: "sb_wf b" and str: "c_str mem = Inr s" and fits: "end_pos b + length s < 2 ^ 32"
  shows "\<exists>ret b'. sb_append env b mem = Inr (ret, b') \<and> sb_wf b'
           \<and> (sb_terminated b \<longrightarrow> sb_terminated b')
           \<and> (ret = 0 \<and> sb_text b' = sb_text b @ s \<and> sb_terminated b' \<or>
              ret = 1 \<and> sb_text b' = sb_text b \<and> (\<exists>n. \<not> grants env n))"
proof (rule sb_append_cases [OF wf str fits, of env])
  fix ret b1
  assume *: "sb_wf b1" "sb_text b1 = sb_text b" "end_pos b1 = end_pos b"
    "sb_terminated b \<Longrightarrow> sb_terminated b1"
    "ret = 0 \<and> end_pos b + length s < sb_size b1
       \<and> sb_append env b mem = Inr (0, sb_put b1 s [NUL]) \<or>
     ret = (1::int) \<and> sb_append env b mem = Inr (1, b1) \<and> (\<exists>n. \<not> grants env n)"
  show ?thesis
  proof (cases "ret = 0")
    case True
    then show ?thesis
      using * fits sb_put_facts [of b1 s "[NUL]"] by simp
  qed (use * in auto)
qed

lemma sb_appendl_total:
  assumes wf: "sb_wf b" and len: "len = length s" and fits: "end_pos b + len < 2 ^ 32"
  shows "\<exists>ret b'. sb_appendl env b (s @ mem) len = Inr (ret, b') \<and> sb_wf b'
           \<and> sb_tail b' \<subseteq> sb_tail b \<union> range (junk env)
           \<and> (ret = 0 \<and> sb_text b' = sb_text b @ s \<or>
              ret = 1 \<and> sb_text b' = sb_text b \<and> (\<exists>n. \<not> grants env n))"
proof (rule sb_appendl_cases [OF wf len fits, of env mem])
  fix ret b1
  assume *: "sb_wf b1" "sb_text b1 = sb_text b" "end_pos b1 = end_pos b"
    "sb_tail b1 \<subseteq> sb_tail b \<union> range (junk env)"
    "ret = 0 \<and> end_pos b + len < sb_size b1
       \<and> sb_appendl env b (s @ mem) len = Inr (0, sb_put b1 s []) \<or>
     ret = (1::int) \<and> sb_appendl env b (s @ mem) len = Inr (1, b1) \<and> (\<exists>n. \<not> grants env n)"
  show ?thesis
  proof (cases "ret = 0")
    case True
    then show ?thesis
      using * fits len sb_put_facts [of b1 s "[]"] by auto
  qed (use * in auto)
qed

section \<open>Deleting, clearing, copying\<close>

lemma sb_deletehead_eq:
  assumes wf: "sb_wf b"
  obtains b' where "sb_deletehead b len = Inr b'" "sb_wf b'" "sb_terminated b'"
    "sb_text b' = drop len (sb_text b)" "end_pos b' = end_pos b - len" "sb_size b' = sb_size b"
    "sb_string b' = take (end_pos b - len) (drop len (sb_string b)) @ NUL
       # drop (Suc (end_pos b - len)) (sb_string b)"
proof -
  note w = sb_wfD [OF wf]
  define k where "k = min len (end_pos b)"
  have k: "(if end_pos b < len then end_pos b else len) = k" "k \<le> end_pos b"
    "end_pos b - k = end_pos b - len"
    by (auto simp: k_def)
  have take_k: "take (end_pos b - len) (drop k (sb_string b))
      = take (end_pos b - len) (drop len (sb_string b))"
    by (cases "len \<le> end_pos b") (auto simp: k_def min_def)
  let ?s = "take (end_pos b - len) (drop len (sb_string b)) @ NUL
       # drop (Suc (end_pos b - len)) (sb_string b)"
  have src: "take (end_pos b + 1 - k) (drop k (sb_string b))
      = take (end_pos b - len) (drop k (sb_string b)) @ [sb_string b ! end_pos b]"
    using w k(2) by (simp add: k(3) [symmetric] Suc_diff_le take_Suc_conv_app_nth)
  have len_k: "length (take (end_pos b - len) (drop k (sb_string b))) = end_pos b - len"
    using w k by simp
  have eq: "sb_deletehead b len = Inr (b\<lparr>sb_string := ?s, end_pos := end_pos b - len\<rparr>)"
    unfolding sb_deletehead_def Let_def k(1) src
    using w k len_k take_k by (simp add: list_update_append)
  let ?b = "b\<lparr>sb_string := ?s, end_pos := end_pos b - len\<rparr>"
  have "sb_wf ?b" "sb_terminated ?b"
    using w len_k take_k by (auto simp: sb_wf_def sb_terminated_def nth_append)
  moreover have "sb_text ?b = drop len (sb_text b)"
    using len_k take_k by (simp add: sb_text_def drop_take)
  ultimately show ?thesis
    using that [OF eq] by simp
qed

lemma sb_flush_eq:
  assumes "sb_wf b"
  shows "sb_flush b = Inr (b\<lparr>sb_string := replicate (sb_size b) NUL, end_pos := 0\<rparr>)"
  using assms by (simp add: sb_flush_def sb_wf_def)

lemma sb_flush_total:
  assumes "sb_wf b"
  shows "\<exists>b'. sb_flush b = Inr b' \<and> sb_wf b' \<and> sb_terminated b' \<and> sb_text b' = []"
  using sb_flush_eq [OF assms] sb_wfD [OF assms]
  by (auto simp: sb_wf_def sb_terminated_def sb_text_def)

lemma sb_init_total:
  assumes "can_alloc env n" "0 < n"
  shows "sb_init env b n = (0, b\<lparr>sb_string := replicate n NUL, sb_size := n, end_pos := 0\<rparr>)"
  using assms by (simp add: sb_init_def)

lemma sb_fresh:
  "0 < n \<Longrightarrow> sb_wf (b\<lparr>sb_string := replicate n NUL, sb_size := n, end_pos := 0\<rparr>)"
  "0 < n \<Longrightarrow> sb_terminated (b\<lparr>sb_string := replicate n NUL, sb_size := n, end_pos := 0\<rparr>)"
  "sb_text (b\<lparr>sb_string := replicate n NUL, sb_size := n, end_pos := 0\<rparr>) = []"
  by (simp_all add: sb_wf_def sb_terminated_def sb_text_def)

lemma sb_stringCpy_eq:
  assumes "sb_wf b" "sb_terminated b" "NUL \<notin> set (sb_text b)"
  shows "sb_stringCpy env b
     = (if can_alloc env (end_pos b + 1) then Inr (0, sb_text b) else Inl NullDeref)"
  using assms c_str_sb_string [OF assms] by (simp add: sb_stringCpy_def)

section \<open>The interface: a sink of text\<close>

text \<open>
  What the code that renders records relies on: an append either adds the whole string or,
  when the allocator refuses, leaves the text alone. The client is a sequence of appends
  whose return codes are overwritten one by one, as the functions of
  \<open>src/src/watchdog/src/database.c\<close> write them.
\<close>

fun put_all :: "(alloc_env \<Rightarrow> 'b \<Rightarrow> char list \<Rightarrow> (int \<times> 'b) res) \<Rightarrow> (nat \<Rightarrow> alloc_env)
    \<Rightarrow> 'b \<Rightarrow> string list \<Rightarrow> (int \<times> 'b) res" where
  "put_all put mem b [] = Inr (0, b)"
| "put_all put mem b [p] = put (mem 0) b (c_block p)"
| "put_all put mem b (p # q # ps) =
     bind_r (put (mem 0) b (c_block p)) (\<lambda>(_, b). put_all put (\<lambda>i. mem (Suc i)) b (q # ps))"

locale text_sink =
  fixes put :: "alloc_env \<Rightarrow> 'b \<Rightarrow> char list \<Rightarrow> (int \<times> 'b) res"
    and txt_of :: "'b \<Rightarrow> string"
    and ok :: "'b \<Rightarrow> bool"
    and cap :: nat
  assumes put_total: "ok b \<Longrightarrow> NUL \<notin> set s \<Longrightarrow> length (txt_of b) + length s < cap \<Longrightarrow>
     \<exists>ret b'. put env b (c_block s) = Inr (ret, b') \<and> ok b'
       \<and> (ret = 0 \<and> txt_of b' = txt_of b @ s \<or>
          ret = 1 \<and> txt_of b' = txt_of b \<and> (\<exists>n. \<not> grants env n))"
begin

lemma put_all_total:
  assumes "ok b" "\<forall>p \<in> set ps. NUL \<notin> set p" "length (txt_of b) + length (concat ps) < cap"
  shows "\<exists>ret b'. put_all put mem b ps = Inr (ret, b') \<and> ok b'
           \<and> length (txt_of b') \<le> length (txt_of b) + length (concat ps)
           \<and> ((\<forall>i n. grants (mem i) n) \<longrightarrow> ret = 0 \<and> txt_of b' = txt_of b @ concat ps)"
  using assms
proof (induction ps arbitrary: b mem)
  case Nil
  then show ?case by simp
next
  case (Cons p ps)
  obtain ret b1 where p: "put (mem 0) b (c_block p) = Inr (ret, b1)" "ok b1"
    "ret = 0 \<and> txt_of b1 = txt_of b @ p \<or>
     ret = 1 \<and> txt_of b1 = txt_of b \<and> (\<exists>n. \<not> grants (mem 0) n)"
    using put_total [of b p "mem 0"] Cons.prems by fastforce
  show ?case
  proof (cases ps)
    case Nil
    with p show ?thesis by auto
  next
    case (Cons q qs)
    let ?mem = "\<lambda>i. mem (Suc i)"
    have "length (txt_of b1) + length (concat ps) < cap" "\<forall>p \<in> set ps. NUL \<notin> set p"
      using p(3) Cons.prems by auto
    then obtain ret' b' where r: "put_all put ?mem b1 ps = Inr (ret', b')" "ok b'"
      "length (txt_of b') \<le> length (txt_of b1) + length (concat ps)"
      "(\<forall>i n. grants (?mem i) n) \<longrightarrow> ret' = 0 \<and> txt_of b' = txt_of b1 @ concat ps"
      using Cons.IH [OF p(2), of ?mem] by blast
    have "put_all put mem b (p # ps) = Inr (ret', b')"
      using p(1) r(1) Cons by simp
    with p(3) r show ?thesis by auto
  qed
qed

end

interpretation sb: text_sink sb_append sb_text "\<lambda>b. sb_wf b \<and> sb_terminated b" "2 ^ 32"
proof unfold_locales
  fix b s env
  assume "sb_wf b \<and> sb_terminated b" "NUL \<notin> set s" "length (sb_text b) + length s < 2 ^ 32"
  then show "\<exists>ret b'. sb_append env b (c_block s) = Inr (ret, b') \<and> (sb_wf b' \<and> sb_terminated b')
       \<and> (ret = 0 \<and> sb_text b' = sb_text b @ s \<or>
          ret = 1 \<and> sb_text b' = sb_text b \<and> (\<exists>n. \<not> grants env n))"
    using sb_append_total [of b "c_block s" s env] by fastforce
qed

section \<open>Properties\<close>

definition demo_buffer :: stringBuffer where
  "demo_buffer = \<lparr>sb_string = [CHR ''a'', NUL, NUL, NUL], sb_size = 4, end_pos = 1\<rparr>"

lemma demo_buffer_ok: "sb_wf demo_buffer" "sb_terminated demo_buffer" "sb_text demo_buffer = ''a''"
  by (simp_all add: demo_buffer_def sb_wf_def sb_terminated_def sb_text_def NUL_def)

theorem sb_appends_all:
  assumes "sb_wf b" "sb_terminated b" "\<forall>p \<in> set ps. NUL \<notin> set p"
    "length (sb_text b) + length (concat ps) < 2 ^ 32"
  shows "\<exists>ret b'. put_all sb_append mem b ps = Inr (ret, b') \<and> sb_wf b' \<and> sb_terminated b'
     \<and> ((\<forall>i n. grants (mem i) n) \<longrightarrow> ret = 0 \<and> c_str (sb_string b') = c_str (sb_text b @ concat ps @ [NUL]))"
proof -
  obtain ret b' where b': "put_all sb_append mem b ps = Inr (ret, b')" "sb_wf b'" "sb_terminated b'"
    "(\<forall>i n. grants (mem i) n) \<longrightarrow> ret = 0 \<and> sb_text b' = sb_text b @ concat ps"
    using sb.put_all_total [of b ps mem] assms by auto
  have "c_str (sb_string b') = c_str (sb_text b' @ [NUL])"
    using sb_string_split [OF b'(2,3)]
    by (auto simp: c_str_def takeWhile_append)
  with b' show ?thesis by auto
qed

theorem sb_appends_all_witness:
  "\<exists>ret b'. put_all sb_append (\<lambda>_. roomy) demo_buffer [''bcd'', ''efgh''] = Inr (ret, b')
     \<and> sb_wf b' \<and> sb_terminated b'
     \<and> ((\<forall>i n. grants ((\<lambda>_. roomy) (i :: nat)) n) \<longrightarrow>
         ret = 0 \<and> c_str (sb_string b') = c_str (sb_text demo_buffer @ concat [''bcd'', ''efgh''] @ [NUL]))"
  by (rule sb_appends_all) (simp_all add: demo_buffer_ok NUL_def)

theorem sb_append_delete:
  assumes "sb_wf b" "end_pos b + length s < 2 ^ 32" "\<forall>n. grants env n"
  shows "\<exists>b1 b2. sb_appendl env b s (length s) = Inr (0, b1) \<and> sb_deletehead b1 k = Inr b2
     \<and> sb_wf b2 \<and> sb_terminated b2 \<and> sb_text b2 = drop k (sb_text b @ s)"
proof -
  obtain b1 where b1: "sb_appendl env b s (length s) = Inr (0, b1)" "sb_wf b1" "sb_text b1 = sb_text b @ s"
    using sb_appendl_total [OF assms(1) refl assms(2), of env "[]"] assms(3) by auto
  with sb_deletehead_eq [OF b1(2), of k] show ?thesis by metis
qed

theorem sb_append_delete_witness:
  "\<exists>b1 b2. sb_appendl roomy demo_buffer ''bcd'' (length ''bcd'') = Inr (0, b1) \<and> sb_deletehead b1 2 = Inr b2
     \<and> sb_wf b2 \<and> sb_terminated b2 \<and> sb_text b2 = drop 2 (sb_text demo_buffer @ ''bcd'')"
  by (rule sb_append_delete) (simp_all add: demo_buffer_ok, simp add: demo_buffer_def)

theorem sb_reserve_bounds:
  assumes "sb_wf b"
  shows "\<exists>ret b'. sb_reserve env need b = Inr (ret, b') \<and> sb_wf b' \<and> sb_text b' = sb_text b
     \<and> sb_size b' \<le> max (sb_size b) (2 * need)
     \<and> (ret = 0 \<and> need < sb_size b' \<or> ret = 1 \<and> (\<exists>n \<le> 2 * need. \<not> can_alloc env n))"
proof (rule sb_reserve_wf [OF assms, of env need])
  fix ret b1
  assume *: "sb_reserve env need b = Inr (ret, b1)" "sb_wf b1" "sb_text b1 = sb_text b"
    "ret = 0 \<and> need < sb_size b1 \<or> ret = 1 \<and> (\<exists>n \<le> 2 * need. \<not> can_alloc env n)"
  with sb_reserve_size [OF sb_wfD(4) [OF assms] *(1)] show ?thesis by blast
qed

theorem sb_reserve_bounds_witness:
  "\<exists>ret b'. sb_reserve roomy 9 demo_buffer = Inr (ret, b') \<and> sb_wf b' \<and> sb_text b' = sb_text demo_buffer
     \<and> sb_size b' \<le> max (sb_size demo_buffer) (2 * 9)
     \<and> (ret = 0 \<and> 9 < sb_size b' \<or> ret = 1 \<and> (\<exists>n \<le> 2 * 9. \<not> can_alloc roomy n))"
  by (rule sb_reserve_bounds) (rule demo_buffer_ok)

end
