(* ===== verification/PtrVector.thy ===== *)
theory PtrVector
  imports Prelude
begin

text \<open>
  The vector of pointers of \<open>src/src/watchdog/src/containers.c\<close> (lines 75-119).

  \<open>elems\<close> is the block of pointer slots (\<open>None\<close> for a null pointer), \<open>capacity\<close>, \<open>vlength\<close>
  (field \<open>length\<close>) and \<open>size_elem\<close> are the fields of the C struct. A slot is 8 bytes wide.
  The capacity grows by half, rounded down, so a capacity of 0 or 1 never grows and the next
  append writes past the block; from 2 on the vector is a list that grows at its end.
\<close>

section \<open>State and operations\<close>

record 'a vector =
  elems :: "'a option list"
  size_elem :: nat
  capacity :: nat
  vlength :: nat

definition ptr_size :: nat where
  "ptr_size = 8"

definition vector_init :: "alloc_env \<Rightarrow> 'a vector \<Rightarrow> nat \<Rightarrow> nat \<Rightarrow> int \<times> 'a vector" where
  "vector_init env this len sz =
     (if \<not> can_alloc env (len * sz) then (1, this\<lparr>elems := []\<rparr>)
      else (0, this\<lparr>elems := replicate (len * sz div ptr_size) None,
                    capacity := len, vlength := 0, size_elem := sz\<rparr>))"

definition vector_destroy :: "'a vector \<Rightarrow> 'a vector" where
  "vector_destroy this = this\<lparr>elems := [], capacity := 0, vlength := 0, size_elem := 0\<rparr>"

text \<open>
  \<open>vector_destroyd\<close> returns, beside the vector, the pointers it handed to the destructor,
  in the order of the calls.
\<close>

fun destroy_elems :: "nat \<Rightarrow> nat \<Rightarrow> 'a option list \<Rightarrow> ('a option list \<times> 'a option list) res" where
  "destroy_elems i 0 es = Inr ([], es)"
| "destroy_elems i (Suc n) es =
     bind_r (slot es (int i)) (\<lambda>p.
       bind_r (set_slot es (int i) None) (\<lambda>es.
         bind_r (destroy_elems (Suc i) n es) (\<lambda>(ps, es). Inr (p # ps, es))))"

definition vector_destroyd :: "'a vector \<Rightarrow> ('a option list \<times> 'a vector) res" where
  "vector_destroyd this =
     bind_r (destroy_elems 0 (vlength this) (elems this)) (\<lambda>(ps, _).
       Inr (ps, this\<lparr>elems := []\<rparr>))"

definition vector_append :: "alloc_env \<Rightarrow> 'a vector \<Rightarrow> 'a option \<Rightarrow> (int \<times> 'a vector) res" where
  "vector_append env this elem =
     (let bytes = size_elem this * capacity this * 3 div 2;
          grow = (capacity this < vlength this + 1);
          grown = this\<lparr>elems := take (bytes div ptr_size)
                     (elems this @ replicate (bytes div ptr_size - length (elems this)) None),
                   capacity := capacity this * 3 div 2\<rparr>;
          this' = (if grow then grown else this) in
      if grow \<and> \<not> can_alloc env bytes then Inr (1, this)
      else bind_r (set_slot (elems this') (int (vlength this')) elem) (\<lambda>es.
        Inr (0, this'\<lparr>elems := es, vlength := vlength this' + 1\<rparr>)))"

definition vector_get :: "'a vector \<Rightarrow> 'a option \<Rightarrow> nat \<Rightarrow> (int \<times> 'a option) res" where
  "vector_get this ret_elem pos =
     (if vlength this \<le> pos then Inr (-1, ret_elem)
      else bind_r (slot (elems this) (int pos)) (\<lambda>p. Inr (0, p)))"

section \<open>Invariant and abstract value\<close>

definition vec_wf :: "'a vector \<Rightarrow> bool" where
  "vec_wf v \<longleftrightarrow> size_elem v = ptr_size \<and> length (elems v) = capacity v
     \<and> vlength v \<le> capacity v \<and> 2 \<le> capacity v"

definition vec_list :: "'a vector \<Rightarrow> 'a option list" where
  "vec_list v = take (vlength v) (elems v)"

lemma vector_init_total:
  assumes "can_alloc env (n * ptr_size)" "2 \<le> n"
  shows "\<exists>v'. vector_init env v n ptr_size = (0, v') \<and> vec_wf v' \<and> vec_list v' = []"
  using assms by (simp add: vector_init_def vec_wf_def vec_list_def ptr_size_def)

lemma half_more: "2 \<le> (c::nat) \<Longrightarrow> Suc c \<le> c * 3 div 2"
  by simp

lemma vector_append_total:
  assumes "vec_wf v"
  shows "\<exists>ret v'. vector_append env v x = Inr (ret, v') \<and> vec_wf v'
           \<and> (ret = 0 \<and> vec_list v' = vec_list v @ [x] \<or>
              ret = 1 \<and> v' = v \<and> (\<exists>n \<le> 12 * length (vec_list v). \<not> can_alloc env n))"
proof -
  have w: "size_elem v = 8" "length (elems v) = capacity v" "vlength v \<le> capacity v"
    "2 \<le> capacity v"
    using assms by (auto simp: vec_wf_def ptr_size_def)
  have slots: "8 * capacity v * 3 div 2 div 8 = capacity v * 3 div 2"
    by simp
  consider "vlength v < capacity v"
    | "vlength v = capacity v" "\<not> can_alloc env (8 * capacity v * 3 div 2)"
    | "vlength v = capacity v" "can_alloc env (8 * capacity v * 3 div 2)"
    using w by linarith
  then show ?thesis
  proof cases
    case 1
    then show ?thesis
      using w by (auto simp: vector_append_def vec_wf_def vec_list_def ptr_size_def
          take_Suc_conv_app_nth Let_def)
  next
    case 2
    then show ?thesis
      using w assms by (auto simp: vector_append_def vec_wf_def vec_list_def ptr_size_def Let_def)
  next
    case 3
    let ?es = "elems v @ replicate (capacity v * 3 div 2 - capacity v) None"
    have len: "length ?es = capacity v * 3 div 2" "capacity v < capacity v * 3 div 2"
      using w by simp_all
    have "vector_append env v x
        = Inr (0, v\<lparr>elems := ?es[capacity v := x], capacity := capacity v * 3 div 2,
                    vlength := capacity v + 1\<rparr>)"
      using 3 w len slots by (simp add: vector_append_def ptr_size_def Let_def)
    then show ?thesis
      using 3 w len by (auto simp: vec_wf_def vec_list_def ptr_size_def take_Suc_conv_app_nth
          nth_append)
  qed
qed

lemma vector_get_total:
  assumes "vec_wf v"
  shows "vector_get v r i = Inr (if i < length (vec_list v) then (0, vec_list v ! i) else (-1, r))"
  using assms by (auto simp: vector_get_def vec_wf_def vec_list_def)

lemma destroy_elems_total:
  assumes "i + n \<le> length es"
  shows "destroy_elems i n es
     = Inr (take n (drop i es), take i es @ replicate n None @ drop (i + n) es)"
  using assms
proof (induction n arbitrary: i es)
  case 0
  then show ?case by simp
next
  case (Suc n)
  have i: "i < length es"
    using Suc.prems by simp
  have "destroy_elems (Suc i) n (es[i := None])
      = Inr (take n (drop (Suc i) es),
             take (Suc i) (es[i := None]) @ replicate n None @ drop (Suc i + n) es)"
    using Suc.IH [of "Suc i" "es[i := None]"] Suc.prems by simp
  moreover have "take (Suc i) (es[i := None]) = take i es @ [None]"
    using i by (simp add: take_Suc_conv_app_nth)
  moreover have "take (Suc n) (drop i es) = es ! i # take n (drop (Suc i) es)"
    by (rule take_Suc_drop [OF i])
  ultimately show ?case
    using i by (simp add: set_slot_def slot_def replicate_append_same [symmetric])
qed

lemma vector_destroyd_total:
  assumes "vec_wf v"
  shows "vector_destroyd v = Inr (vec_list v, v\<lparr>elems := []\<rparr>)"
  using assms destroy_elems_total [of 0 "vlength v" "elems v"]
  by (simp add: vector_destroyd_def vec_wf_def vec_list_def)

section \<open>A whole list of appends\<close>

fun append_all :: "(nat \<Rightarrow> alloc_env) \<Rightarrow> 'a vector \<Rightarrow> 'a option list \<Rightarrow> 'a vector res" where
  "append_all mem v [] = Inr v"
| "append_all mem v (x # xs) =
     bind_r (vector_append (mem 0) v x) (\<lambda>(_, v). append_all (\<lambda>i. mem (Suc i)) v xs)"

lemma append_all_total:
  assumes "vec_wf v" "\<forall>i n. grants (mem i) n" "length (vec_list v) + length xs < 2 ^ 58"
  shows "\<exists>v'. append_all mem v xs = Inr v' \<and> vec_wf v' \<and> vec_list v' = vec_list v @ xs"
  using assms
proof (induction xs arbitrary: v mem)
  case Nil
  then show ?case by simp
next
  case (Cons x xs)
  have "can_alloc (mem 0) n" if "n \<le> 12 * length (vec_list v)" for n
    using that Cons.prems(2,3) by (simp add: can_alloc_def)
  then obtain v1 where "vector_append (mem 0) v x = Inr (0, v1)" "vec_wf v1"
    "vec_list v1 = vec_list v @ [x]"
    using vector_append_total [OF Cons.prems(1), of "mem 0" x] by fastforce
  with Cons.IH [of v1 "\<lambda>i. mem (Suc i)"] Cons.prems(2,3) show ?case by auto
qed

section \<open>Properties\<close>

theorem vector_append_get:
  assumes "vec_wf v" "\<forall>i n. grants (mem i) n" "length (vec_list v) + length xs < 2 ^ 58"
  shows "\<exists>v'. append_all mem v xs = Inr v' \<and> (\<forall>i r. vector_get v' r i
     = Inr (if i < length (vec_list v @ xs) then (0, (vec_list v @ xs) ! i) else (-1, r)))"
  using append_all_total [OF assms] vector_get_total by fastforce

definition demo_vector :: "nat vector" where
  "demo_vector = \<lparr>elems = [Some 1, None], size_elem = 8, capacity = 2, vlength = 1\<rparr>"

theorem vector_append_get_witness:
  "\<exists>v'. append_all (\<lambda>_. roomy) demo_vector [Some 2, Some 3, None] = Inr v' \<and> (\<forall>i r. vector_get v' r i
     = Inr (if i < length (vec_list demo_vector @ [Some 2, Some 3, None])
            then (0, (vec_list demo_vector @ [Some 2, Some 3, None]) ! i) else (-1, r)))"
  by (rule vector_append_get) (simp_all add: demo_vector_def vec_wf_def vec_list_def ptr_size_def)

theorem vector_capacity_one:
  assumes "capacity v = 1" "vlength v = 1" "size_elem v = 8" "length (elems v) = 1" "can_alloc env 12"
  shows "vector_append env v x = Inl OutOfBounds"
  using assms by (simp add: vector_append_def set_slot_def ptr_size_def Let_def)

theorem vector_capacity_one_witness:
  "vector_append roomy (\<lparr>elems = [Some 7], size_elem = 8, capacity = 1, vlength = 1\<rparr> :: nat vector) (Some 8)
     = Inl OutOfBounds"
  by (rule vector_capacity_one) simp_all

end
