(* ===== verification/RingBuffer.thy ===== *)
theory RingBuffer
  imports Prelude
begin

unbundle bit_operations_syntax

text \<open>
  The ring buffers of \<open>src/src/watchdog/src/containers.c\<close> (lines 123-222): \<open>g_ringBuffer\<close>
  holds pointers, \<open>char_ringBuffer\<close> characters. Both keep two 32-bit counters that only ever
  grow and wrap at \<open>2 ^ 32\<close>; a slot is the low ten bits of a counter, and the fill level is
  the difference of the counters as 32-bit numbers.

  The contract of a ring is the locale \<open>bounded_fifo\<close>: a queue of at most \<open>SIZE_RING\<close>
  elements, first in first out, that refuses an element when full. It is interpreted for
  both rings, at every position of the counters, the wrap-around of both included.
\<close>

section \<open>State and operations\<close>

definition SIZE_RING :: nat where
  "SIZE_RING = 1024"

record 'a g_ringBuffer =
  g_read :: "32 word"
  g_write :: "32 word"
  g_buffer :: "'a option list"

definition g_ringBuffer_mask :: "32 word \<Rightarrow> 32 word" where
  "g_ringBuffer_mask val = val AND (of_nat SIZE_RING - 1)"

definition g_ringBuffer_size :: "'a g_ringBuffer \<Rightarrow> 32 word" where
  "g_ringBuffer_size rb = g_write rb - g_read rb"

definition g_ringBuffer_empty :: "'a g_ringBuffer \<Rightarrow> bool" where
  "g_ringBuffer_empty rb \<longleftrightarrow> g_read rb = g_write rb"

definition g_ringBuffer_full :: "'a g_ringBuffer \<Rightarrow> bool" where
  "g_ringBuffer_full rb \<longleftrightarrow> g_ringBuffer_size rb = of_nat SIZE_RING"

definition g_ringBuffer_init :: "alloc_env \<Rightarrow> 'a g_ringBuffer \<Rightarrow> nat \<Rightarrow> int \<times> 'a g_ringBuffer" where
  "g_ringBuffer_init env rb esize =
     (if \<not> can_alloc env (esize * SIZE_RING) then (1, rb\<lparr>g_buffer := []\<rparr>)
      else (0, rb\<lparr>g_buffer := replicate (esize * SIZE_RING div 8) None,
                  g_read := 0, g_write := 0\<rparr>))"

definition g_ringBuffer_write ::
  "'a g_ringBuffer \<Rightarrow> 'a option \<Rightarrow> (int \<times> 'a g_ringBuffer) res" where
  "g_ringBuffer_write rb content =
     (if g_ringBuffer_full rb then Inr (1, rb)
      else bind_r (set_slot (g_buffer rb) (uint (g_ringBuffer_mask (g_write rb))) content) (\<lambda>b.
        Inr (0, rb\<lparr>g_buffer := b, g_write := g_write rb + 1\<rparr>)))"

text \<open>The third component is the variable that \<open>content\<close> points to, after the call.\<close>

definition g_ringBuffer_read ::
  "'a g_ringBuffer \<Rightarrow> 'a option \<Rightarrow> (int \<times> 'a g_ringBuffer \<times> 'a option) res" where
  "g_ringBuffer_read rb content =
     (if g_ringBuffer_empty rb then Inr (1, rb, content)
      else bind_r (slot (g_buffer rb) (uint (g_ringBuffer_mask (g_read rb)))) (\<lambda>value.
        Inr (0, rb\<lparr>g_read := g_read rb + 1\<rparr>, value)))"

text \<open>
  \<open>g_ringBuffer_destroy\<close> passes the null pointer \<open>value\<close> itself where the address of it is
  meant, so the first read of an element that is there is stored through a null pointer.
\<close>

fun g_destroy_loop :: "nat \<Rightarrow> 'a g_ringBuffer \<Rightarrow> 'a g_ringBuffer res" where
  "g_destroy_loop 0 rb = Inr rb"
| "g_destroy_loop (Suc n) rb = (if g_ringBuffer_empty rb then Inr rb else Inl NullDeref)"

definition g_ringBuffer_destroy :: "'a g_ringBuffer \<Rightarrow> 'a g_ringBuffer res" where
  "g_ringBuffer_destroy rb =
     (let startSize = sint (g_ringBuffer_size rb) in
      bind_r (g_destroy_loop (nat startSize) rb) (\<lambda>rb. Inr (rb\<lparr>g_buffer := []\<rparr>)))"

text \<open>
  The loop of \<open>g_ringBuffer_destroyd\<close>, for any queue: read up to \<open>n\<close> elements, stopping at an
  empty queue. The elements are returned in the order they are read, which is the order in
  which the code hands them on (here, to the destructor).
\<close>

fun fifo_drain :: "('q \<Rightarrow> 'a \<Rightarrow> (int \<times> 'q \<times> 'a) res) \<Rightarrow> 'a \<Rightarrow> nat \<Rightarrow> 'q \<Rightarrow> ('a list \<times> 'q) res" where
  "fifo_drain rd c 0 q = Inr ([], q)"
| "fifo_drain rd c (Suc n) q =
     bind_r (rd q c) (\<lambda>(ret, q, value).
       if ret \<noteq> 0 then Inr ([], q)
       else bind_r (fifo_drain rd c n q) (\<lambda>(vs, q). Inr (value # vs, q)))"

definition g_ringBuffer_destroyd :: "'a g_ringBuffer \<Rightarrow> ('a option list \<times> 'a g_ringBuffer) res" where
  "g_ringBuffer_destroyd rb =
     (let startSize = sint (g_ringBuffer_size rb) in
      bind_r (fifo_drain g_ringBuffer_read None (nat startSize) rb) (\<lambda>(vs, rb).
        Inr (vs, rb\<lparr>g_buffer := []\<rparr>)))"

record char_ringBuffer =
  c_read :: "32 word"
  c_write :: "32 word"
  c_buffer :: "char list"

definition char_ringBuffer_mask :: "32 word \<Rightarrow> 32 word" where
  "char_ringBuffer_mask val = val AND (of_nat SIZE_RING - 1)"

definition char_ringBuffer_size :: "char_ringBuffer \<Rightarrow> 32 word" where
  "char_ringBuffer_size rb = c_write rb - c_read rb"

definition char_ringBuffer_empty :: "char_ringBuffer \<Rightarrow> bool" where
  "char_ringBuffer_empty rb \<longleftrightarrow> c_read rb = c_write rb"

definition char_ringBuffer_full :: "char_ringBuffer \<Rightarrow> bool" where
  "char_ringBuffer_full rb \<longleftrightarrow> char_ringBuffer_size rb = of_nat SIZE_RING"

definition char_ringBuffer_init :: "char_ringBuffer \<Rightarrow> char_ringBuffer" where
  "char_ringBuffer_init rb = rb\<lparr>c_read := 0, c_write := 0, c_buffer := replicate SIZE_RING NUL\<rparr>"

definition char_ringBuffer_write :: "char_ringBuffer \<Rightarrow> char \<Rightarrow> int \<times> char_ringBuffer" where
  "char_ringBuffer_write rb cont =
     (if char_ringBuffer_full rb then (1, rb)
      else (0, rb\<lparr>c_buffer := (c_buffer rb)[unat (char_ringBuffer_mask (c_write rb)) := cont],
                  c_write := c_write rb + 1\<rparr>))"

definition char_ringBuffer_read :: "char_ringBuffer \<Rightarrow> char \<times> char_ringBuffer" where
  "char_ringBuffer_read rb =
     (if char_ringBuffer_empty rb then (NUL, rb)
      else (c_buffer rb ! unat (char_ringBuffer_mask (c_read rb)), rb\<lparr>c_read := c_read rb + 1\<rparr>))"

section \<open>Counters that wrap\<close>

lemma unat_mask_mod: "unat (w AND (of_nat SIZE_RING - 1) :: 32 word) = unat w mod SIZE_RING"
proof -
  have "(of_nat SIZE_RING - 1 :: 32 word) = mask 10"
    by (simp add: SIZE_RING_def mask_eq_exp_minus_1)
  then have "w AND (of_nat SIZE_RING - 1) = take_bit 10 w"
    by (simp only: take_bit_eq_mask)
  then have "unat (w AND (of_nat SIZE_RING - 1)) = take_bit 10 (unat w)"
    by (simp only: unsigned_take_bit_eq)
  then show ?thesis
    by (simp only: take_bit_eq_mod) (simp add: SIZE_RING_def)
qed

text \<open>
  The slots between two counters: \<open>ring_items n r xs\<close> are the \<open>n\<close> elements from counter \<open>r\<close>
  on. Since \<open>SIZE_RING\<close> divides \<open>2 ^ 32\<close>, a counter that wraps continues at the next slot.
\<close>

definition ring_items :: "nat \<Rightarrow> nat \<Rightarrow> 'a list \<Rightarrow> 'a list" where
  "ring_items n r xs = map (\<lambda>k. xs ! ((r + k) mod SIZE_RING)) [0..<n]"

lemma length_ring_items [simp]: "length (ring_items n r xs) = n"
  by (simp add: ring_items_def)

lemma SIZE_RING_pos [simp]: "0 < SIZE_RING"
  by (simp add: SIZE_RING_def)

lemma mod_SIZE_RING_wrap: "(k mod 2 ^ 32) mod SIZE_RING = k mod SIZE_RING"
  by (simp add: SIZE_RING_def mod_mod_cancel)

lemma unat_counter:
  fixes w r :: "32 word"
  shows "unat w = (unat r + unat (w - r)) mod 2 ^ 32"
  using unat_word_ariths(1) [of r "w - r"] by simp

lemma unat_Suc_size:
  fixes w r :: "32 word"
  assumes "unat (w - r) < SIZE_RING"
  shows "unat (w + 1 - r) = Suc (unat (w - r))"
proof -
  have e: "w + 1 - r = (w - r) + 1" by simp
  have "unat ((w - r) + 1) = (unat (w - r) + 1) mod 2 ^ 32"
    by (simp add: unat_word_ariths)
  then show ?thesis
    using assms unfolding e by (simp add: SIZE_RING_def)
qed

lemma unat_pred_size:
  fixes w r :: "32 word"
  assumes "w \<noteq> r"
  shows "unat (w - r) = Suc (unat (w - (r + 1)))"
proof -
  have e: "w - (r + 1) = (w - r) - 1" by simp
  have "unat ((w - r) - 1) = unat (w - r) - 1"
    using assms by (intro unat_minus_one) simp
  moreover have "0 < unat (w - r)"
    using assms by (simp add: unat_gt_0)
  ultimately show ?thesis unfolding e by simp
qed

lemma ring_slot_fresh:
  assumes "k < n" "n < SIZE_RING"
  shows "(r + k) mod SIZE_RING \<noteq> (r + n) mod SIZE_RING"
proof
  assume "(r + k) mod SIZE_RING = (r + n) mod SIZE_RING"
  then have "SIZE_RING dvd (r + n) - (r + k)"
    using assms by (metis mod_eq_dvd_iff_nat nat_add_left_cancel_le less_imp_le)
  with assms show False
    by (auto dest: dvd_imp_le)
qed

lemma ring_items_snoc:
  assumes "n < SIZE_RING" "length xs = SIZE_RING"
  shows "ring_items (Suc n) r (xs[(r + n) mod SIZE_RING := x]) = ring_items n r xs @ [x]"
proof -
  have "map (\<lambda>k. xs[(r + n) mod SIZE_RING := x] ! ((r + k) mod SIZE_RING)) [0..<n]
      = map (\<lambda>k. xs ! ((r + k) mod SIZE_RING)) [0..<n]"
    using ring_slot_fresh [OF _ assms(1), of _ r]
    by (intro map_cong refl nth_list_update_neq) (auto dest!: not_sym)
  then show ?thesis
    using assms(2) by (simp add: ring_items_def)
qed

lemma ring_items_Cons:
  "ring_items (Suc n) r xs = xs ! (r mod SIZE_RING) # ring_items n (Suc r) xs"
proof -
  have "[0..<Suc n] = 0 # map Suc [0..<n]"
    by (simp add: upt_conv_Cons map_Suc_upt)
  then show ?thesis
    by (simp add: ring_items_def comp_def)
qed

lemma ring_items_wrap: "ring_items n (r mod 2 ^ 32) xs = ring_items n r xs"
  unfolding ring_items_def
  by (rule map_cong [OF refl])
     (metis mod_SIZE_RING_wrap mod_add_left_eq)

section \<open>The interface: a bounded queue\<close>

text \<open>
  \<open>rd q c\<close> returns the return code, the queue, and the variable the element is read into,
  which keeps its value \<open>c\<close> when the queue is empty.
\<close>

locale bounded_fifo =
  fixes wr :: "'q \<Rightarrow> 'a \<Rightarrow> (int \<times> 'q) res"
    and rd :: "'q \<Rightarrow> 'a \<Rightarrow> (int \<times> 'q \<times> 'a) res"
    and count :: "'q \<Rightarrow> nat"
    and items :: "'q \<Rightarrow> 'a list"
    and inv :: "'q \<Rightarrow> bool"
    and cap :: nat
  assumes count: "inv q \<Longrightarrow> count q = length (items q)"
    and bounded: "inv q \<Longrightarrow> length (items q) \<le> cap"
    and wr_ok: "inv q \<Longrightarrow> length (items q) < cap \<Longrightarrow>
          \<exists>q'. wr q x = Inr (0, q') \<and> inv q' \<and> items q' = items q @ [x]"
    and wr_full: "inv q \<Longrightarrow> length (items q) = cap \<Longrightarrow> wr q x = Inr (1, q)"
    and rd_ok: "inv q \<Longrightarrow> items q = y # ys \<Longrightarrow>
          \<exists>q'. rd q c = Inr (0, q', y) \<and> inv q' \<and> items q' = ys"
    and rd_empty: "inv q \<Longrightarrow> items q = [] \<Longrightarrow> rd q c = Inr (1, q, c)"

text \<open>Two ways the code fills a queue: ignoring the return code, and retrying.\<close>

fun write_all :: "('q \<Rightarrow> 'a \<Rightarrow> (int \<times> 'q) res) \<Rightarrow> 'q \<Rightarrow> 'a list \<Rightarrow> 'q res" where
  "write_all wr q [] = Inr q"
| "write_all wr q (x # xs) = bind_r (wr q x) (\<lambda>(_, q). write_all wr q xs)"

text \<open>
  One write and up to \<open>n\<close> further attempts while it is refused. The other thread may have
  used the queue before each further attempt: \<open>pause i\<close> is what it did before attempt \<open>i\<close>.
\<close>

fun retry_write :: "('q \<Rightarrow> 'a \<Rightarrow> (int \<times> 'q) res) \<Rightarrow> (nat \<Rightarrow> 'q \<Rightarrow> 'q) \<Rightarrow> nat \<Rightarrow> 'q \<Rightarrow> 'a
    \<Rightarrow> (int \<times> 'q) res" where
  "retry_write wr pause 0 q x = wr q x"
| "retry_write wr pause (Suc n) q x =
     bind_r (wr q x) (\<lambda>(ret, q).
       if ret \<noteq> 0 then retry_write wr (\<lambda>i. pause (Suc i)) n (pause 0 q) x else Inr (ret, q))"

context bounded_fifo
begin

lemma wr_cases:
  assumes "inv q"
  shows "\<exists>ret q'. wr q x = Inr (ret, q') \<and> inv q'
           \<and> (if length (items q) < cap then ret = 0 \<and> items q' = items q @ [x]
              else ret = 1 \<and> q' = q)"
  using assms bounded [of q] wr_ok [of q x] wr_full [of q x]
  by (cases "length (items q) < cap") auto

lemma drain_items:
  assumes "inv q"
  shows "\<exists>q'. fifo_drain rd c n q = Inr (take n (items q), q') \<and> inv q'
           \<and> items q' = drop n (items q)"
  using assms
proof (induction n arbitrary: q)
  case 0
  then show ?case by simp
next
  case (Suc n)
  show ?case
  proof (cases "items q")
    case Nil
    then show ?thesis
      using rd_empty Suc.prems by simp
  next
    case (Cons y ys)
    then obtain q1 where "rd q c = Inr (0, q1, y)" "inv q1" "items q1 = ys"
      using rd_ok Suc.prems by blast
    with Suc.IH [of q1] Cons show ?thesis by auto
  qed
qed

lemma drain_all:
  assumes "inv q"
  shows "\<exists>q'. fifo_drain rd c (count q) q = Inr (items q, q') \<and> inv q' \<and> items q' = []"
  using drain_items [OF assms, of c "count q"] count [OF assms] by simp

lemma write_all_items:
  assumes "inv q"
  shows "\<exists>q'. write_all wr q xs = Inr q' \<and> inv q' \<and> items q' = take cap (items q @ xs)"
  using assms
proof (induction xs arbitrary: q)
  case Nil
  then show ?case
    using bounded by simp
next
  case (Cons x xs)
  obtain ret q1 where q1: "wr q x = Inr (ret, q1)" "inv q1"
    "if length (items q) < cap then ret = 0 \<and> items q1 = items q @ [x] else ret = 1 \<and> q1 = q"
    using wr_cases Cons.prems by blast
  have "take cap (items q1 @ xs) = take cap (items q @ x # xs)"
    using q1(3) bounded [OF Cons.prems] by (auto simp: take_Cons' split: if_splits)
  with Cons.IH [OF q1(2)] q1(1) show ?case by auto
qed

lemma retry_write_first:
  assumes "inv q" "length (items q) < cap"
  shows "\<exists>q'. retry_write wr pause n q x = Inr (0, q') \<and> inv q' \<and> items q' = items q @ [x]"
  using wr_ok [OF assms, of x] by (cases n) auto

lemma retry_write_cases:
  assumes "inv q" "\<And>i q. inv q \<Longrightarrow> inv (pause i q)"
  shows "\<exists>ret q'. retry_write wr pause n q x = Inr (ret, q') \<and> inv q'
           \<and> (ret = 0 \<and> (\<exists>ys. items q' = ys @ [x]) \<or> ret = 1 \<and> length (items q') = cap)"
  using assms
proof (induction n arbitrary: q pause)
  case 0
  then show ?case
    using wr_cases [of q x] bounded [of q] by (auto split: if_splits)
next
  case (Suc n)
  obtain ret q1 where q1: "wr q x = Inr (ret, q1)" "inv q1"
    "if length (items q) < cap then ret = 0 \<and> items q1 = items q @ [x] else ret = 1 \<and> q1 = q"
    using wr_cases Suc.prems(1) by blast
  show ?case
  proof (cases "length (items q) < cap")
    case True
    with q1 show ?thesis by auto
  next
    case False
    have "inv (pause 0 q)"
      using Suc.prems by simp
    from Suc.IH [OF this, of "\<lambda>i. pause (Suc i)"] Suc.prems(2) False q1 show ?thesis
      by simp
  qed
qed

end

definition ring_inv :: "'a g_ringBuffer \<Rightarrow> bool" where
  "ring_inv rb \<longleftrightarrow>
     length (g_buffer rb) = SIZE_RING \<and> unat (g_ringBuffer_size rb) \<le> SIZE_RING"

definition ring_list :: "'a g_ringBuffer \<Rightarrow> 'a option list" where
  "ring_list rb = ring_items (unat (g_ringBuffer_size rb)) (unat (g_read rb)) (g_buffer rb)"

lemma uint_mask_bounds:
  "uint (w AND (of_nat SIZE_RING - 1) :: 32 word) = int (unat w mod SIZE_RING)"
  using unat_mask_mod [of w] by (metis uint_nat)

lemma full_iff: "(n :: 32 word) = of_nat SIZE_RING \<longleftrightarrow> unat n = SIZE_RING"
  by (auto simp: SIZE_RING_def word_unat_eq_iff)

lemma g_write_spec:
  assumes "ring_inv rb" "length (ring_list rb) < SIZE_RING"
  shows "\<exists>rb'. g_ringBuffer_write rb x = Inr (0, rb') \<and> ring_inv rb'
           \<and> ring_list rb' = ring_list rb @ [x]"
proof -
  let ?n = "unat (g_ringBuffer_size rb)" and ?r = "unat (g_read rb)"
  have n: "?n < SIZE_RING" and len: "length (g_buffer rb) = SIZE_RING"
    using assms by (simp_all add: ring_list_def ring_inv_def)
  have w: "unat (g_write rb) mod SIZE_RING = (?r + ?n) mod SIZE_RING"
    using unat_counter [of "g_write rb" "g_read rb"] mod_SIZE_RING_wrap
    by (simp add: g_ringBuffer_size_def)
  let ?rb = "rb\<lparr>g_buffer := (g_buffer rb)[(?r + ?n) mod SIZE_RING := x],
                 g_write := g_write rb + 1\<rparr>"
  have "g_ringBuffer_write rb x = Inr (0, ?rb)"
    using n len w by (simp add: g_ringBuffer_write_def g_ringBuffer_full_def full_iff
        g_ringBuffer_mask_def uint_mask_bounds)
  moreover have size: "unat (g_ringBuffer_size ?rb) = Suc ?n"
    using unat_Suc_size [of "g_write rb" "g_read rb"] n by (simp add: g_ringBuffer_size_def)
  moreover have "ring_list ?rb = ring_list rb @ [x]"
    using ring_items_snoc [OF n len, of ?r x] by (simp add: ring_list_def size)
  ultimately show ?thesis
    using n len by (auto simp: ring_inv_def)
qed

lemma g_read_spec:
  assumes "ring_inv rb" "ring_list rb = y # ys"
  shows "\<exists>rb'. g_ringBuffer_read rb c = Inr (0, rb', y) \<and> ring_inv rb' \<and> ring_list rb' = ys"
proof -
  let ?r = "unat (g_read rb)" and ?rb = "rb\<lparr>g_read := g_read rb + 1\<rparr>"
  have len: "length (g_buffer rb) = SIZE_RING" "unat (g_ringBuffer_size rb) \<le> SIZE_RING"
    using assms(1) by (simp_all add: ring_inv_def)
  have ne: "g_write rb \<noteq> g_read rb"
    using assms(2) by (auto simp: ring_list_def g_ringBuffer_size_def ring_items_def)
  then have size: "unat (g_ringBuffer_size rb) = Suc (unat (g_ringBuffer_size ?rb))"
    using unat_pred_size [OF ne] by (simp add: g_ringBuffer_size_def)
  have "unat (g_read rb + 1) = Suc ?r mod 2 ^ 32"
    by (simp add: unat_word_ariths)
  then have items: "ring_list rb = g_buffer rb ! (?r mod SIZE_RING) # ring_list ?rb"
    by (simp add: ring_list_def size ring_items_Cons ring_items_wrap [of _ "Suc ?r", simplified])
  moreover have "g_ringBuffer_read rb c = Inr (0, ?rb, g_buffer rb ! (?r mod SIZE_RING))"
    using ne len by (simp add: g_ringBuffer_read_def g_ringBuffer_empty_def
        g_ringBuffer_mask_def uint_mask_bounds)
  ultimately show ?thesis
    using assms(2) len size by (auto simp: ring_inv_def)
qed

interpretation gq: bounded_fifo g_ringBuffer_write g_ringBuffer_read
  "\<lambda>rb. unat (g_ringBuffer_size rb)" ring_list ring_inv SIZE_RING
proof unfold_locales
  fix q :: "'a g_ringBuffer" and x y c ys
  assume inv: "ring_inv q"
  show "unat (g_ringBuffer_size q) = length (ring_list q)"
    by (simp add: ring_list_def)
  show "length (ring_list q) \<le> SIZE_RING"
    using inv by (simp add: ring_list_def ring_inv_def)
  show "\<exists>q'. g_ringBuffer_write q x = Inr (0, q') \<and> ring_inv q' \<and> ring_list q' = ring_list q @ [x]"
    if "length (ring_list q) < SIZE_RING"
    using g_write_spec [OF inv that] .
  show "g_ringBuffer_write q x = Inr (1, q)" if "length (ring_list q) = SIZE_RING"
    using that by (simp add: ring_list_def g_ringBuffer_write_def g_ringBuffer_full_def full_iff)
  show "\<exists>q'. g_ringBuffer_read q c = Inr (0, q', y) \<and> ring_inv q' \<and> ring_list q' = ys"
    if "ring_list q = y # ys"
    using g_read_spec [OF inv that] .
  show "g_ringBuffer_read q c = Inr (1, q, c)" if "ring_list q = []"
    using that by (auto simp: ring_list_def ring_items_def g_ringBuffer_read_def
        g_ringBuffer_empty_def g_ringBuffer_size_def unat_eq_0)
qed

lemma ring_list_empty_iff: "ring_list rb = [] \<longleftrightarrow> g_ringBuffer_empty rb"
  by (auto simp: ring_list_def ring_items_def g_ringBuffer_empty_def g_ringBuffer_size_def
      unat_eq_0)

section \<open>The ring of characters\<close>

definition char_inv :: "char_ringBuffer \<Rightarrow> bool" where
  "char_inv rb \<longleftrightarrow>
     length (c_buffer rb) = SIZE_RING \<and> unat (char_ringBuffer_size rb) \<le> SIZE_RING"

definition char_list :: "char_ringBuffer \<Rightarrow> char list" where
  "char_list rb = ring_items (unat (char_ringBuffer_size rb)) (unat (c_read rb)) (c_buffer rb)"

text \<open>
  The same operations as the ring of pointers on the slots \<open>Some c\<close>: the two halves of the
  file are one algorithm, and the facts of the one carry over to the other.
\<close>

definition as_pointers :: "char_ringBuffer \<Rightarrow> char g_ringBuffer" where
  "as_pointers rb =
     \<lparr>g_read = c_read rb, g_write = c_write rb, g_buffer = map Some (c_buffer rb)\<rparr>"

lemma as_pointers_inv: "ring_inv (as_pointers rb) \<longleftrightarrow> char_inv rb"
  by (simp add: ring_inv_def char_inv_def as_pointers_def g_ringBuffer_size_def
      char_ringBuffer_size_def)

lemma as_pointers_list:
  assumes "char_inv rb"
  shows "ring_list (as_pointers rb) = map Some (char_list rb)"
  using assms by (simp add: ring_list_def char_list_def ring_items_def as_pointers_def
      g_ringBuffer_size_def char_ringBuffer_size_def char_inv_def comp_def)

lemma as_pointers_inj: "as_pointers rb = as_pointers rb' \<Longrightarrow> rb = rb'"
  by (cases rb; cases rb') (auto simp: as_pointers_def inj_map_eq_map)

lemma as_pointers_write:
  assumes "char_inv rb" "char_ringBuffer_write rb x = (ret, rb')"
  shows "g_ringBuffer_write (as_pointers rb) (Some x) = Inr (ret, as_pointers rb')"
  using assms
  by (auto simp: char_ringBuffer_write_def char_ringBuffer_full_def char_ringBuffer_size_def
      char_ringBuffer_mask_def char_inv_def as_pointers_def g_ringBuffer_write_def
      g_ringBuffer_full_def g_ringBuffer_size_def g_ringBuffer_mask_def uint_mask_bounds
      unat_mask_mod map_update split: if_splits)

lemma as_pointers_read:
  assumes "char_inv rb" "char_ringBuffer_read rb = (x, rb')" "\<not> char_ringBuffer_empty rb"
  shows "g_ringBuffer_read (as_pointers rb) c = Inr (0, as_pointers rb', Some x)"
  using assms
  by (auto simp: char_ringBuffer_read_def char_ringBuffer_empty_def char_ringBuffer_mask_def
      char_inv_def as_pointers_def g_ringBuffer_read_def g_ringBuffer_empty_def
      g_ringBuffer_mask_def uint_mask_bounds unat_mask_mod split: if_splits)

text \<open>
  The interface wants a return code from a read; \<open>char_ringBuffer_read\<close> has none, and its
  callers test \<open>char_ringBuffer_empty\<close> first.
\<close>

definition char_wr :: "char_ringBuffer \<Rightarrow> char \<Rightarrow> (int \<times> char_ringBuffer) res" where
  "char_wr rb c = Inr (char_ringBuffer_write rb c)"

definition char_rd :: "char_ringBuffer \<Rightarrow> char \<Rightarrow> (int \<times> char_ringBuffer \<times> char) res" where
  "char_rd rb c =
     (if char_ringBuffer_empty rb then Inr (1, rb, c)
      else case char_ringBuffer_read rb of (x, rb') \<Rightarrow> Inr (0, rb', x))"

lemma char_list_empty_iff: "char_list rb = [] \<longleftrightarrow> char_ringBuffer_empty rb"
  by (auto simp: char_list_def ring_items_def char_ringBuffer_empty_def
      char_ringBuffer_size_def unat_eq_0)

lemma char_write_spec:
  assumes "char_inv rb" "length (char_list rb) < SIZE_RING"
  shows "\<exists>rb'. char_ringBuffer_write rb x = (0, rb') \<and> char_inv rb'
           \<and> char_list rb' = char_list rb @ [x]"
proof -
  obtain ret rb' where w: "char_ringBuffer_write rb x = (ret, rb')"
    by (cases "char_ringBuffer_write rb x")
  have "length (ring_list (as_pointers rb)) < SIZE_RING"
    using assms by (simp add: as_pointers_list)
  then have "ret = 0" "ring_inv (as_pointers rb')"
    "ring_list (as_pointers rb') = map Some (char_list rb) @ [Some x]"
    using gq.wr_ok [of "as_pointers rb" "Some x"] as_pointers_write [OF assms(1) w] assms(1)
    by (auto simp: as_pointers_inv as_pointers_list)
  then show ?thesis
    using w as_pointers_list [of rb'] by (auto simp: as_pointers_inv inj_map_eq_map
        map_eq_append_conv)
qed

lemma char_read_spec:
  assumes "char_inv rb" "char_list rb = y # ys"
  shows "\<exists>rb'. char_ringBuffer_read rb = (y, rb') \<and> char_inv rb' \<and> char_list rb' = ys"
proof -
  obtain x rb' where r: "char_ringBuffer_read rb = (x, rb')"
    by (cases "char_ringBuffer_read rb")
  have ne: "\<not> char_ringBuffer_empty rb"
    using assms(2) char_list_empty_iff [of rb] by auto
  have "x = y" "ring_inv (as_pointers rb')" "ring_list (as_pointers rb') = map Some ys"
    using gq.rd_ok [of "as_pointers rb" "Some y" "map Some ys" None]
      as_pointers_read [OF assms(1) r ne] assms
    by (auto simp: as_pointers_inv as_pointers_list)
  then show ?thesis
    using r as_pointers_list [of rb'] by (auto simp: as_pointers_inv inj_map_eq_map)
qed

interpretation cq: bounded_fifo char_wr char_rd
  "\<lambda>rb. unat (char_ringBuffer_size rb)" char_list char_inv SIZE_RING
proof unfold_locales
  fix q :: char_ringBuffer and x y c ys
  assume inv: "char_inv q"
  show "unat (char_ringBuffer_size q) = length (char_list q)"
    by (simp add: char_list_def)
  show "length (char_list q) \<le> SIZE_RING"
    using inv by (simp add: char_list_def char_inv_def)
  show "\<exists>q'. char_wr q x = Inr (0, q') \<and> char_inv q' \<and> char_list q' = char_list q @ [x]"
    if "length (char_list q) < SIZE_RING"
    using char_write_spec [OF inv that, of x] by (auto simp: char_wr_def)
  show "char_wr q x = Inr (1, q)" if "length (char_list q) = SIZE_RING"
    using that by (simp add: char_list_def char_wr_def char_ringBuffer_write_def
        char_ringBuffer_full_def full_iff)
  show "\<exists>q'. char_rd q c = Inr (0, q', y) \<and> char_inv q' \<and> char_list q' = ys"
    if "char_list q = y # ys"
    using char_read_spec [OF inv that] that char_list_empty_iff [of q] by (auto simp: char_rd_def)
  show "char_rd q c = Inr (1, q, c)" if "char_list q = []"
    using that char_list_empty_iff [of q] by (simp add: char_rd_def)
qed

section \<open>Creation and destruction\<close>

lemma g_init_spec:
  assumes "can_alloc env (8 * SIZE_RING)"
  shows "\<exists>rb'. g_ringBuffer_init env rb 8 = (0, rb') \<and> ring_inv rb' \<and> ring_list rb' = []"
  using assms by (simp add: g_ringBuffer_init_def ring_inv_def ring_list_def ring_items_def
      g_ringBuffer_size_def)

lemma char_init_spec:
  "char_inv (char_ringBuffer_init rb) \<and> char_list (char_ringBuffer_init rb) = []"
  by (simp add: char_ringBuffer_init_def char_inv_def char_list_def char_ringBuffer_size_def
      ring_items_def)

lemma sint_small:
  assumes "unat (w :: 32 word) \<le> SIZE_RING"
  shows "sint w = int (unat w)"
proof -
  have "int (unat w) \<le> 1024"
    using assms unfolding SIZE_RING_def by linarith
  then have "uint w < 2 ^ 31"
    by simp
  moreover have "- (2 ^ 31) \<le> uint w"
    by (rule order_trans [of _ 0]) simp_all
  ultimately have "sint w = uint w"
    by (simp add: sint_uint signed_take_bit_int_eq_self_iff)
  then show ?thesis by simp
qed

lemma sint_small_size: "unat (w :: 32 word) \<le> SIZE_RING \<Longrightarrow> nat (sint w) = unat w"
  by (simp add: sint_small)

lemma g_destroyd_spec:
  assumes "ring_inv rb"
  shows "\<exists>rb'. g_ringBuffer_destroyd rb = Inr (ring_list rb, rb') \<and> g_buffer rb' = []"
  using gq.drain_all [OF assms, of None] sint_small_size [of "g_ringBuffer_size rb"] assms
  by (auto simp: g_ringBuffer_destroyd_def ring_inv_def Let_def)

lemma g_destroy_spec:
  assumes "ring_inv rb"
  shows "g_ringBuffer_destroy rb
     = (if g_ringBuffer_empty rb then Inr (rb\<lparr>g_buffer := []\<rparr>) else Inl NullDeref)"
proof (cases "g_ringBuffer_empty rb")
  case True
  then have "g_ringBuffer_size rb = 0"
    by (simp add: g_ringBuffer_empty_def g_ringBuffer_size_def)
  with True show ?thesis
    by (simp add: g_ringBuffer_destroy_def)
next
  case False
  then have "0 < unat (g_ringBuffer_size rb)"
    by (simp add: g_ringBuffer_empty_def g_ringBuffer_size_def unat_gt_0)
  moreover have "nat (sint (g_ringBuffer_size rb)) = unat (g_ringBuffer_size rb)"
    using assms by (simp add: sint_small_size ring_inv_def)
  ultimately show ?thesis
    using False by (cases "unat (g_ringBuffer_size rb)") (simp_all add: g_ringBuffer_destroy_def)
qed

section \<open>Properties\<close>

definition ring_at :: "32 word \<Rightarrow> 'a g_ringBuffer" where
  "ring_at r = \<lparr>g_read = r, g_write = r, g_buffer = replicate SIZE_RING None\<rparr>"

lemma ring_at_ok: "ring_inv (ring_at r)" "ring_list (ring_at r) = []"
  by (simp_all add: ring_at_def ring_inv_def ring_list_def ring_items_def g_ringBuffer_size_def)

text \<open>
  C27: The queue of pointers is first in, first out, with at most 1024 elements, also when its
  32-bit counters wrap around: what is written is handed to the destructor in order, and what
  exceeds the room is dropped.
\<close>

theorem g_ring_fifo:
  assumes "ring_inv rb"
  shows "\<exists>rb' rb''. write_all g_ringBuffer_write rb xs = Inr rb'
     \<and> g_ringBuffer_destroyd rb' = Inr (take SIZE_RING (ring_list rb @ xs), rb'')"
  using gq.write_all_items [OF assms, of xs] g_destroyd_spec by metis

theorem g_ring_fifo_witness:
  "\<exists>rb' rb''. write_all g_ringBuffer_write (ring_at (-1)) [Some CHR ''x'', None, Some CHR ''y''] = Inr rb'
     \<and> g_ringBuffer_destroyd rb'
        = Inr (take SIZE_RING (ring_list (ring_at (-1)) @ [Some CHR ''x'', None, Some CHR ''y'']), rb'')"
  by (rule g_ring_fifo) (rule ring_at_ok)

theorem char_ring_fifo:
  assumes "char_inv rb" "length (char_list rb) < SIZE_RING"
  shows "fst (char_ringBuffer_write rb x) = 0
     \<and> (\<exists>rb'. fifo_drain char_rd NUL (SIZE_RING) (snd (char_ringBuffer_write rb x))
          = Inr (char_list rb @ [x], rb') \<and> char_ringBuffer_empty rb')"
proof -
  obtain rb1 where w: "char_ringBuffer_write rb x = (0, rb1)" "char_inv rb1"
    "char_list rb1 = char_list rb @ [x]"
    using char_write_spec [OF assms] by blast
  then have "length (char_list rb1) \<le> SIZE_RING"
    using cq.bounded by blast
  with cq.drain_items [OF w(2), of NUL SIZE_RING] w char_list_empty_iff show ?thesis
    by fastforce
qed

definition char_ring_at :: "32 word \<Rightarrow> char_ringBuffer" where
  "char_ring_at r = \<lparr>c_read = r, c_write = r, c_buffer = replicate SIZE_RING NUL\<rparr>"

theorem char_ring_fifo_witness:
  "fst (char_ringBuffer_write (char_ring_at (-1)) CHR ''a'') = 0
     \<and> (\<exists>rb'. fifo_drain char_rd NUL SIZE_RING (snd (char_ringBuffer_write (char_ring_at (-1)) CHR ''a''))
          = Inr (char_list (char_ring_at (-1)) @ [CHR ''a''], rb') \<and> char_ringBuffer_empty rb')"
  by (rule char_ring_fifo)
     (simp_all add: char_ring_at_def char_inv_def char_list_def char_ringBuffer_size_def)

theorem g_ring_destroy_faults:
  assumes "ring_inv rb" "ring_list rb \<noteq> []"
  shows "g_ringBuffer_destroy rb = Inl NullDeref"
  using g_destroy_spec [OF assms(1)] assms(2) ring_list_empty_iff by metis

theorem g_ring_destroy_faults_witness:
  "\<exists>rb. ring_list rb = [Some (7 :: nat)] \<and> g_ringBuffer_destroy rb = Inl NullDeref"
proof -
  obtain rb where "ring_inv rb" "ring_list rb = [Some (7 :: nat)]"
    using g_write_spec [of "ring_at 0" "Some (7 :: nat)"] by (auto simp: ring_at_ok SIZE_RING_def)
  with g_ring_destroy_faults [of rb] show ?thesis by auto
qed

end
