(* ===== verification/RingSteps.thy ===== *)
theory RingSteps
  imports RingBuffer
begin

text \<open>
  \<open>g_ringBuffer_write\<close> and \<open>g_ringBuffer_read\<close> of \<open>src/src/watchdog/src/containers.c\<close>, lines
  170-182, as two threads execute them on one queue without a lock, which is how the parser threads
  and the main loop use \<open>execQueue\<close> and \<open>openQueue\<close>.

  Each function is cut into its accesses to the shared queue. In
  \<open>rb->buffer[g_ringBuffer_mask(rb->write++)] = content\<close> the counter is an argument of a call, so
  it is increased before the slot is written, and likewise before the slot is read. Other threads can
  see the queue between the two. The threads of one queue are one writer and one reader; the
  history of what was written and read is kept beside the queue.
\<close>

section \<open>Threads\<close>

text \<open>
  A thread is outside the function; has found that there is room, or an element; or has increased the
  counter, whose old value selects the slot, and has still to access the slot.
\<close>

datatype 'a writer = Outside | HasRoom "'a option" | Claimed "32 word" "'a option"

datatype reader = Away | HasElem | Taken "32 word"

record 'a ring_run =
  rr_ring :: "'a g_ringBuffer"
  rr_writer :: "'a writer"
  rr_reader :: reader
  rr_sent :: "'a option list"
  rr_got :: "'a option list"

definition ring_index :: "32 word \<Rightarrow> nat" where
  "ring_index k = unat (g_ringBuffer_mask k)"

inductive ring_step :: "'a ring_run \<Rightarrow> 'a ring_run \<Rightarrow> bool" where
  check_full: "rr_writer s = Outside \<Longrightarrow> \<not> g_ringBuffer_full (rr_ring s)
     \<Longrightarrow> ring_step s (s\<lparr>rr_writer := HasRoom c\<rparr>)"
| claim: "rr_writer s = HasRoom c \<Longrightarrow> k = g_write (rr_ring s)
     \<Longrightarrow> ring_step s (s\<lparr>rr_writer := Claimed k c, rr_ring := (rr_ring s)\<lparr>g_write := k + 1\<rparr>\<rparr>)"
| store: "rr_writer s = Claimed k c \<Longrightarrow> ring_step s (s\<lparr>rr_writer := Outside,
     rr_ring := (rr_ring s)\<lparr>g_buffer := (g_buffer (rr_ring s))[ring_index k := c]\<rparr>,
     rr_sent := rr_sent s @ [c]\<rparr>)"
| check_empty: "rr_reader s = Away \<Longrightarrow> \<not> g_ringBuffer_empty (rr_ring s)
     \<Longrightarrow> ring_step s (s\<lparr>rr_reader := HasElem\<rparr>)"
| take_elem: "rr_reader s = HasElem \<Longrightarrow> k = g_read (rr_ring s)
     \<Longrightarrow> ring_step s (s\<lparr>rr_reader := Taken k, rr_ring := (rr_ring s)\<lparr>g_read := k + 1\<rparr>\<rparr>)"
| load: "rr_reader s = Taken k \<Longrightarrow> ring_step s (s\<lparr>rr_reader := Away,
     rr_got := rr_got s @ [g_buffer (rr_ring s) ! ring_index k]\<rparr>)"

text \<open>Both threads are between counter and slot, at the same slot.\<close>

definition overlap :: "'a ring_run \<Rightarrow> bool" where
  "overlap s \<longleftrightarrow> (case rr_writer s of
       Claimed k c \<Rightarrow> (case rr_reader s of Taken j \<Rightarrow> ring_index k = ring_index j | _ \<Rightarrow> False)
     | _ \<Rightarrow> False)"

definition ring_start :: "'a ring_run" where
  "ring_start = \<lparr>rr_ring = \<lparr>g_read = 0, g_write = 0, g_buffer = replicate SIZE_RING None\<rparr>,
     rr_writer = Outside, rr_reader = Away, rr_sent = [], rr_got = []\<rparr>"

text \<open>The states of all runs, and of those that avoid overlaps.\<close>

inductive ring_reach :: "'a ring_run \<Rightarrow> bool" where
  start: "ring_reach ring_start"
| step: "ring_reach s \<Longrightarrow> ring_step s t \<Longrightarrow> ring_reach t"

inductive ring_calm :: "'a ring_run \<Rightarrow> bool" where
  start: "ring_calm ring_start"
| step: "ring_calm s \<Longrightarrow> \<not> overlap s \<Longrightarrow> ring_step s t \<Longrightarrow> ring_calm t"

section \<open>Counting\<close>

definition written :: "'a ring_run \<Rightarrow> nat" where
  "written s = length (rr_sent s) + (case rr_writer s of Claimed _ _ \<Rightarrow> 1 | _ \<Rightarrow> 0)"

definition taken :: "'a ring_run \<Rightarrow> nat" where
  "taken s = length (rr_got s) + (case rr_reader s of Taken _ \<Rightarrow> 1 | _ \<Rightarrow> 0)"

definition count_inv :: "'a ring_run \<Rightarrow> bool" where
  "count_inv s \<longleftrightarrow> g_write (rr_ring s) = of_nat (written s) \<and> g_read (rr_ring s) = of_nat (taken s)
     \<and> taken s \<le> written s \<and> written s \<le> taken s + SIZE_RING
     \<and> length (g_buffer (rr_ring s)) = SIZE_RING
     \<and> (case rr_writer s of HasRoom c \<Rightarrow> written s < taken s + SIZE_RING
          | Claimed k c \<Rightarrow> k = of_nat (length (rr_sent s)) | _ \<Rightarrow> True)
     \<and> (case rr_reader s of HasElem \<Rightarrow> taken s < written s
          | Taken k \<Rightarrow> k = of_nat (length (rr_got s)) | _ \<Rightarrow> True)"

lemma ring_index_of_nat [simp]: "ring_index (of_nat n) = n mod SIZE_RING"
  using mod_SIZE_RING_wrap [of n]
  by (simp add: ring_index_def g_ringBuffer_mask_def unat_mask_mod unat_of_nat)

lemma of_nat_diff_small:
  assumes "m \<le> n" "n \<le> m + SIZE_RING"
  shows "unat (of_nat n - of_nat m :: 32 word) = n - m"
proof -
  have "(of_nat n - of_nat m :: 32 word) = of_nat (n - m)"
    using assms(1) by (simp add: of_nat_diff)
  moreover have "n - m < 2 ^ 32"
    using assms by (simp add: SIZE_RING_def)
  ultimately show ?thesis
    by (simp add: unat_of_nat)
qed

lemma full_count:
  assumes "count_inv s"
  shows "g_ringBuffer_full (rr_ring s) \<longleftrightarrow> written s = taken s + SIZE_RING"
proof -
  have d: "unat (g_write (rr_ring s) - g_read (rr_ring s)) = written s - taken s"
    using assms of_nat_diff_small [of "taken s" "written s"] by (simp add: count_inv_def)
  have "g_ringBuffer_full (rr_ring s) \<longleftrightarrow> unat (g_write (rr_ring s) - g_read (rr_ring s)) = SIZE_RING"
    by (simp add: g_ringBuffer_full_def g_ringBuffer_size_def word_unat_eq_iff SIZE_RING_def)
  with d assms show ?thesis
    by (auto simp: count_inv_def)
qed

lemma empty_count:
  assumes "count_inv s"
  shows "g_ringBuffer_empty (rr_ring s) \<longleftrightarrow> written s = taken s"
proof -
  have "unat (g_write (rr_ring s) - g_read (rr_ring s)) = written s - taken s"
    using assms of_nat_diff_small [of "taken s" "written s"] by (simp add: count_inv_def)
  moreover have "g_ringBuffer_empty (rr_ring s) \<longleftrightarrow> unat (g_write (rr_ring s) - g_read (rr_ring s)) = 0"
    by (auto simp: g_ringBuffer_empty_def unat_eq_0)
  ultimately show ?thesis
    using assms by (auto simp: count_inv_def)
qed

lemma count_inv_start: "count_inv ring_start"
  by (simp add: count_inv_def ring_start_def written_def taken_def)

lemma count_inv_step: "ring_step s t \<Longrightarrow> count_inv s \<Longrightarrow> count_inv t"
proof (induction rule: ring_step.induct)
  case (check_full s c)
  with full_count [OF check_full.prems] show ?case
    by (auto simp: count_inv_def written_def taken_def split: reader.splits)
next
  case (check_empty s)
  with empty_count [OF check_empty.prems] show ?case
    by (auto simp: count_inv_def written_def taken_def split: writer.splits)
qed (auto simp: count_inv_def written_def taken_def split: writer.splits reader.splits)

lemma reach_count: "ring_reach s \<Longrightarrow> count_inv s"
  by (induction rule: ring_reach.induct) (auto intro: count_inv_start count_inv_step)

section \<open>Without overlaps\<close>

text \<open>What was written and not yet read is in its slots, and what was read is what was written.\<close>

definition fifo_inv :: "'a ring_run \<Rightarrow> bool" where
  "fifo_inv s \<longleftrightarrow> (\<exists>rest. rr_sent s = rr_got s @ rest)
     \<and> (\<forall>i. length (rr_got s) \<le> i \<and> i < length (rr_sent s)
          \<longrightarrow> g_buffer (rr_ring s) ! (i mod SIZE_RING) = rr_sent s ! i)"

lemma near_same_slot:
  assumes "i < n" "n mod SIZE_RING = i mod SIZE_RING"
  shows "i + SIZE_RING \<le> n"
proof -
  have "SIZE_RING dvd n - i"
    using assms by (metis mod_eq_dvd_iff_nat less_imp_le)
  then have "SIZE_RING \<le> n - i"
    using assms(1) by (auto dest: dvd_imp_le)
  then show ?thesis using assms(1) by linarith
qed

lemma fifo_inv_step: "ring_step s t \<Longrightarrow> count_inv s \<Longrightarrow> \<not> overlap s \<Longrightarrow> fifo_inv s \<Longrightarrow> fifo_inv t"
proof (induction rule: ring_step.induct)
  case (store s k c)
  let ?n = "length (rr_sent s)" and ?m = "length (rr_got s)"
  have k: "k = of_nat ?n" "length (g_buffer (rr_ring s)) = SIZE_RING" "?n + 1 \<le> taken s + SIZE_RING"
    using store.prems(1) store.hyps by (simp_all add: count_inv_def written_def)
  have other: "?n mod SIZE_RING \<noteq> i mod SIZE_RING" if "?m \<le> i" "i < ?n" for i
  proof
    assume e: "?n mod SIZE_RING = i mod SIZE_RING"
    then have i: "i < taken s"
      using near_same_slot [OF that(2)] k(3) by linarith
    with that(1) have t: "rr_reader s = Taken (of_nat ?m)" "i = ?m"
      using store.prems(1) by (auto simp: taken_def count_inv_def split: reader.splits)
    then have "overlap s"
      using store.hyps e k(1) by (simp add: overlap_def)
    with store.prems(2) show False by blast
  qed
  show ?case
    using store.prems(3) k(1,2) other
    by (auto simp: fifo_inv_def nth_append less_Suc_eq nth_list_update)
next
  case (load s k)
  let ?n = "length (rr_sent s)" and ?m = "length (rr_got s)"
  have k: "k = of_nat ?m" "?m + 1 \<le> written s"
    using load.prems(1) load.hyps by (auto simp: count_inv_def taken_def)
  have "?m < ?n"
  proof (rule ccontr)
    assume "\<not> ?m < ?n"
    then obtain c where "rr_writer s = Claimed (of_nat ?n) c" "?m = ?n"
      using k(2) load.prems(1) by (auto simp: written_def count_inv_def split: writer.splits)
    then have "overlap s"
      using load.hyps k(1) by (simp add: overlap_def)
    with load.prems(2) show False by blast
  qed
  then obtain x rest where "rr_sent s = rr_got s @ x # rest"
    using load.prems(3) by (auto simp: fifo_inv_def) (metis list.exhaust append_Nil2 less_irrefl)
  with load.prems(3) k(1) show ?case
    by (auto simp: fifo_inv_def)
qed (auto simp: fifo_inv_def)

lemma calm_reach: "ring_calm s \<Longrightarrow> ring_reach s"
  by (induction rule: ring_calm.induct) (auto intro: ring_reach.intros)

lemma calm_fifo: "ring_calm s \<Longrightarrow> fifo_inv s"
proof (induction rule: ring_calm.induct)
  case start
  show ?case by (simp add: fifo_inv_def ring_start_def)
next
  case (step s t)
  then show ?case
    using fifo_inv_step reach_count calm_reach by blast
qed

section \<open>Properties\<close>

text \<open>
  C26: The queue between two threads, one access to memory at a time: as long as writer and
  reader are never both between counter and slot of the same slot, what was read is, in order,
  the first part of what was written, at any point of any interleaving.
\<close>

theorem calm_ring_is_fifo:
  assumes "ring_calm s"
  shows "\<exists>rest. rr_sent s = rr_got s @ rest"
  using calm_fifo [OF assms] by (simp add: fifo_inv_def)

text \<open>One element is written, and read afterwards; each step is one of a thread.\<close>

definition demo_calm :: "nat ring_run" where
  "demo_calm = ring_start\<lparr>rr_ring := \<lparr>g_read = 1, g_write = 1,
     g_buffer = (replicate SIZE_RING None)[0 := Some 5]\<rparr>, rr_sent := [Some 5], rr_got := [Some 5]\<rparr>"

lemma ring_index_0 [simp]: "ring_index 0 = 0"
  using ring_index_of_nat [of 0] by simp

lemma demo_calm_reached: "ring_calm demo_calm"
proof -
  have "ring_calm (ring_start\<lparr>rr_writer := HasRoom (Some 5)\<rparr> :: nat ring_run)"
    by (rule ring_calm.step [OF ring_calm.start _ ring_step.check_full])
       (simp_all add: overlap_def ring_start_def g_ringBuffer_full_def g_ringBuffer_size_def SIZE_RING_def)
  from ring_calm.step [OF this _ ring_step.claim [OF _ refl]]
  have "ring_calm (ring_start\<lparr>rr_writer := Claimed 0 (Some 5),
      rr_ring := (rr_ring ring_start)\<lparr>g_write := 1\<rparr>\<rparr> :: nat ring_run)"
    by (simp add: overlap_def ring_start_def)
  from ring_calm.step [OF this _ ring_step.store]
  have "ring_calm (ring_start\<lparr>rr_ring := (rr_ring ring_start)\<lparr>g_write := 1,
      g_buffer := (replicate SIZE_RING None)[0 := Some 5]\<rparr>, rr_sent := [Some 5]\<rparr> :: nat ring_run)"
    by (simp add: overlap_def ring_start_def)
  from ring_calm.step [OF this _ ring_step.check_empty]
  have "ring_calm (ring_start\<lparr>rr_reader := HasElem, rr_ring := (rr_ring ring_start)\<lparr>g_write := 1,
      g_buffer := (replicate SIZE_RING None)[0 := Some 5]\<rparr>, rr_sent := [Some 5]\<rparr> :: nat ring_run)"
    by (simp add: overlap_def ring_start_def g_ringBuffer_empty_def)
  from ring_calm.step [OF this _ ring_step.take_elem [OF _ refl]]
  have "ring_calm (ring_start\<lparr>rr_reader := Taken 0, rr_ring := (rr_ring ring_start)\<lparr>g_write := 1, g_read := 1,
      g_buffer := (replicate SIZE_RING None)[0 := Some 5]\<rparr>, rr_sent := [Some 5]\<rparr> :: nat ring_run)"
    by (simp add: overlap_def ring_start_def)
  from ring_calm.step [OF this _ ring_step.load]
  show ?thesis
    by (simp add: overlap_def ring_start_def demo_calm_def SIZE_RING_def)
qed

theorem calm_ring_is_fifo_witness:
  "\<exists>rest. rr_sent demo_calm = rr_got demo_calm @ rest"
  by (rule calm_ring_is_fifo [OF demo_calm_reached])

theorem ring_counts_bounded:
  assumes "ring_reach s"
  shows "length (rr_got s) \<le> length (rr_sent s) + 1
     \<and> length (rr_sent s) \<le> length (rr_got s) + SIZE_RING + 1
     \<and> unat (g_ringBuffer_size (rr_ring s)) \<le> SIZE_RING
     \<and> length (g_buffer (rr_ring s)) = SIZE_RING"
  using reach_count [OF assms] of_nat_diff_small [of "taken s" "written s"]
  by (auto simp: count_inv_def written_def taken_def g_ringBuffer_size_def split: writer.splits reader.splits)

theorem ring_counts_bounded_witness:
  "length (rr_got demo_calm) \<le> length (rr_sent demo_calm) + 1
     \<and> length (rr_sent demo_calm) \<le> length (rr_got demo_calm) + SIZE_RING + 1
     \<and> unat (g_ringBuffer_size (rr_ring demo_calm)) \<le> SIZE_RING
     \<and> length (g_buffer (rr_ring demo_calm)) = SIZE_RING"
  by (rule ring_counts_bounded [OF calm_reach [OF demo_calm_reached]])

text \<open>
  C34: Writer and reader can be at the same slot only if the queue is empty or full of elements
  that are already written: in between the two counters keep them apart.
\<close>

theorem overlap_only_at_ends:
  assumes "ring_reach s" "overlap s"
  shows "length (rr_sent s) = length (rr_got s) \<or> length (rr_sent s) = length (rr_got s) + SIZE_RING"
proof -
  let ?n = "length (rr_sent s)" and ?m = "length (rr_got s)"
  have e: "?n mod SIZE_RING = ?m mod SIZE_RING" and "?m \<le> ?n" "?n \<le> ?m + SIZE_RING"
    using reach_count [OF assms(1)] assms(2)
    by (auto simp: overlap_def count_inv_def written_def taken_def split: writer.splits reader.splits)
  then show ?thesis
    using near_same_slot [OF _ e] by (cases "?m < ?n") auto
qed

definition demo_overlap :: "nat ring_run" where
  "demo_overlap = ring_start\<lparr>rr_writer := Claimed 0 (Some 5), rr_reader := Taken 0,
     rr_ring := (rr_ring ring_start)\<lparr>g_write := 1, g_read := 1\<rparr>\<rparr>"

lemma overlap_reached: "ring_reach (ring_start\<lparr>rr_writer := Claimed 0 (Some x), rr_reader := Taken 0,
     rr_ring := (rr_ring ring_start)\<lparr>g_write := 1, g_read := 1\<rparr>\<rparr>)"
proof -
  have "ring_reach (ring_start\<lparr>rr_writer := HasRoom (Some x)\<rparr>)"
    by (rule ring_reach.step [OF ring_reach.start ring_step.check_full])
       (simp_all add: ring_start_def g_ringBuffer_full_def g_ringBuffer_size_def SIZE_RING_def)
  from ring_reach.step [OF this ring_step.claim [OF _ refl]]
  have "ring_reach (ring_start\<lparr>rr_writer := Claimed 0 (Some x),
      rr_ring := (rr_ring ring_start)\<lparr>g_write := 1\<rparr>\<rparr>)"
    by (simp add: ring_start_def)
  from ring_reach.step [OF this ring_step.check_empty]
  have "ring_reach (ring_start\<lparr>rr_writer := Claimed 0 (Some x), rr_reader := HasElem,
      rr_ring := (rr_ring ring_start)\<lparr>g_write := 1\<rparr>\<rparr>)"
    by (simp add: ring_start_def g_ringBuffer_empty_def)
  from ring_reach.step [OF this ring_step.take_elem [OF _ refl]]
  show ?thesis
    by (simp add: ring_start_def)
qed

theorem overlap_only_at_ends_witness:
  "overlap demo_overlap \<and> (length (rr_sent demo_overlap) = length (rr_got demo_overlap)
     \<or> length (rr_sent demo_overlap) = length (rr_got demo_overlap) + SIZE_RING)"
proof -
  have "overlap demo_overlap"
    by (simp add: overlap_def demo_overlap_def)
  moreover have "ring_reach demo_overlap"
    unfolding demo_overlap_def by (rule overlap_reached)
  ultimately show ?thesis
    using overlap_only_at_ends by blast
qed

text \<open>
  C35: The counter is increased before the slot is written, so the reader can take an element
  that is not there yet: a run in which it reads a null pointer before anything was written.
\<close>

theorem ring_race_reads_null:
  "\<exists>s :: 'a ring_run. ring_reach s \<and> rr_sent s = [] \<and> rr_got s = [None]
     \<and> rr_writer s = Claimed 0 (Some x)"
proof -
  from ring_reach.step [OF overlap_reached ring_step.load]
  have "ring_reach (ring_start\<lparr>rr_writer := Claimed 0 (Some x), rr_got := [None],
      rr_ring := (rr_ring ring_start)\<lparr>g_write := 1, g_read := 1\<rparr>\<rparr> :: 'a ring_run)"
    by (simp add: ring_start_def SIZE_RING_def)
  then show ?thesis
    by (intro exI [of _ "ring_start\<lparr>rr_writer := Claimed 0 (Some x), rr_got := [None],
      rr_ring := (rr_ring ring_start)\<lparr>g_write := 1, g_read := 1\<rparr>\<rparr>"]) (simp add: ring_start_def)
qed

theorem ring_steps_alone:
  assumes "count_inv s" "rr_writer s = Outside" "rr_reader s = Away"
  shows "(case g_ringBuffer_write (rr_ring s) c of
       Inr (ret, rb) \<Rightarrow> if ret = 0 then (ring_step ^^ 3) s (s\<lparr>rr_ring := rb, rr_sent := rr_sent s @ [c]\<rparr>)
                        else rb = rr_ring s \<and> g_ringBuffer_full (rr_ring s)
     | Inl _ \<Rightarrow> False)
   \<and> (case g_ringBuffer_read (rr_ring s) c of
       Inr (ret, rb, x) \<Rightarrow> if ret = 0 then (ring_step ^^ 3) s (s\<lparr>rr_ring := rb, rr_got := rr_got s @ [x]\<rparr>)
                           else rb = rr_ring s \<and> x = c \<and> g_ringBuffer_empty (rr_ring s)
     | Inl _ \<Rightarrow> False)"
proof -
  let ?r = "rr_ring s"
  from assms(2,3) obtain i j b sent got where
    s: "s = \<lparr>rr_ring = \<lparr>g_read = i, g_write = j, g_buffer = b\<rparr>, rr_writer = Outside, rr_reader = Away,
      rr_sent = sent, rr_got = got\<rparr>"
    by (cases s; cases "rr_ring s") simp
  have len: "length (g_buffer ?r) = SIZE_RING"
    using assms(1) by (simp add: count_inv_def)
  have idx: "uint (g_ringBuffer_mask k) = int (ring_index k)" "ring_index k < SIZE_RING" for k
  proof -
    show "uint (g_ringBuffer_mask k) = int (ring_index k)"
      unfolding ring_index_def by (rule uint_nat)
    show "ring_index k < SIZE_RING"
      by (simp add: ring_index_def g_ringBuffer_mask_def unat_mask_mod)
  qed
  have w: "(ring_step ^^ 3) s (s\<lparr>rr_ring := ?r\<lparr>g_buffer := (g_buffer ?r)[ring_index (g_write ?r) := c],
      g_write := g_write ?r + 1\<rparr>, rr_sent := rr_sent s @ [c]\<rparr>)" if "\<not> g_ringBuffer_full ?r"
  proof -
    have "ring_step s (s\<lparr>rr_writer := HasRoom c\<rparr>)"
      using assms(2) that by (rule ring_step.check_full)
    moreover have "ring_step (s\<lparr>rr_writer := HasRoom c\<rparr>)
        (s\<lparr>rr_writer := Claimed (g_write ?r) c, rr_ring := ?r\<lparr>g_write := g_write ?r + 1\<rparr>\<rparr>)"
      using ring_step.claim [of "s\<lparr>rr_writer := HasRoom c\<rparr>" c] by simp
    moreover have "ring_step (s\<lparr>rr_writer := Claimed (g_write ?r) c, rr_ring := ?r\<lparr>g_write := g_write ?r + 1\<rparr>\<rparr>)
        (s\<lparr>rr_ring := ?r\<lparr>g_buffer := (g_buffer ?r)[ring_index (g_write ?r) := c],
             g_write := g_write ?r + 1\<rparr>, rr_sent := rr_sent s @ [c]\<rparr>)"
      using ring_step.store [of "s\<lparr>rr_writer := Claimed (g_write ?r) c,
          rr_ring := ?r\<lparr>g_write := g_write ?r + 1\<rparr>\<rparr>"] by (simp add: s)
    ultimately show ?thesis
      by (auto simp: numeral_3_eq_3)
  qed
  have r: "(ring_step ^^ 3) s (s\<lparr>rr_ring := ?r\<lparr>g_read := g_read ?r + 1\<rparr>,
      rr_got := rr_got s @ [g_buffer ?r ! ring_index (g_read ?r)]\<rparr>)" if "\<not> g_ringBuffer_empty ?r"
  proof -
    have "ring_step s (s\<lparr>rr_reader := HasElem\<rparr>)"
      using assms(3) that by (rule ring_step.check_empty)
    moreover have "ring_step (s\<lparr>rr_reader := HasElem\<rparr>)
        (s\<lparr>rr_reader := Taken (g_read ?r), rr_ring := ?r\<lparr>g_read := g_read ?r + 1\<rparr>\<rparr>)"
      using ring_step.take_elem [of "s\<lparr>rr_reader := HasElem\<rparr>"] by simp
    moreover have "ring_step (s\<lparr>rr_reader := Taken (g_read ?r), rr_ring := ?r\<lparr>g_read := g_read ?r + 1\<rparr>\<rparr>)
        (s\<lparr>rr_ring := ?r\<lparr>g_read := g_read ?r + 1\<rparr>,
             rr_got := rr_got s @ [g_buffer ?r ! ring_index (g_read ?r)]\<rparr>)"
      using ring_step.load [of "s\<lparr>rr_reader := Taken (g_read ?r),
          rr_ring := ?r\<lparr>g_read := g_read ?r + 1\<rparr>\<rparr>"] by (simp add: s)
    ultimately show ?thesis
      by (auto simp: numeral_3_eq_3)
  qed
  show ?thesis
    using w r len idx by (auto simp: g_ringBuffer_write_def g_ringBuffer_read_def)
qed

theorem ring_steps_alone_witness:
  "(ring_step ^^ 3) (ring_start :: nat ring_run) (ring_start\<lparr>rr_ring := \<lparr>g_read = 0, g_write = 1,
      g_buffer = (replicate SIZE_RING None)[0 := Some 7]\<rparr>, rr_sent := [Some 7]\<rparr>)"
proof -
  have "g_ringBuffer_write (rr_ring ring_start) (Some (7::nat)) = Inr (0, \<lparr>g_read = 0, g_write = 1,
      g_buffer = (replicate SIZE_RING None)[0 := Some 7]\<rparr>)"
    by (simp add: ring_start_def g_ringBuffer_write_def g_ringBuffer_full_def g_ringBuffer_size_def
        g_ringBuffer_mask_def set_slot_def) (simp add: SIZE_RING_def)
  with ring_steps_alone [OF count_inv_start, of "Some (7::nat)"] show ?thesis
    by (simp add: ring_start_def)
qed

end
