(* ===== verification/Calls.thy ===== *)
theory Calls
  imports StringBuf
begin

text \<open>
  The two records the daemon collects, \<open>openCall\<close> and \<open>execCall\<close>
  (\<open>src/src/watchdog/include/watchdog.h\<close> and \<open>src/src/watchdog/src/watchdog.c\<close>, lines
  78-227): how they are built from the five text fields of a line, and how they are freed.

  A \<open>char*\<close> field is \<open>None\<close> for a null pointer and \<open>Some s\<close> for the C string \<open>s\<close> it owns. An
  \<open>execCall\<close> owns the slots of \<open>callBuff\<close>. The code's two kinds of text conversion are
  \<open>atol\<close> and \<open>atoi\<close> of the prelude; \<open>stat\<close> is a parameter that gives the inode of a path.
\<close>

section \<open>State\<close>

record openCall =
  oc_pid :: int
  oc_flag :: int
  oc_cmdName :: "string option"
  oc_filepath :: "string option"
  oc_inode :: nat
  oc_time_stamp :: timeval

record execCall =
  ec_pid :: int
  ec_ppid :: int
  ec_deadness :: int
  ec_tracked :: int
  ec_call_num :: int
  ec_cmdName :: "string option"
  ec_args :: "string option"
  ec_callBuff_size :: nat
  ec_callBuff :: "openCall option list"
  ec_time_stamp :: timeval
  ec_ptime_stamp :: timeval

definition openCall_zero :: openCall where
  "openCall_zero = \<lparr>oc_pid = 0, oc_flag = 0, oc_cmdName = None, oc_filepath = None,
     oc_inode = 0, oc_time_stamp = timeval_zero\<rparr>"

definition execCall_zero :: execCall where
  "execCall_zero = \<lparr>ec_pid = 0, ec_ppid = 0, ec_deadness = 0, ec_tracked = 0, ec_call_num = 0,
     ec_cmdName = None, ec_args = None, ec_callBuff_size = 0, ec_callBuff = [],
     ec_time_stamp = timeval_zero, ec_ptime_stamp = timeval_zero\<rparr>"

definition NOMINAL :: int where
  "NOMINAL = 0"

definition MEMORY_ALLOCATION_ERROR :: int where
  "MEMORY_ALLOCATION_ERROR = 1"

definition ALREADY_EXISTS_IN_CONTAINER :: int where
  "ALREADY_EXISTS_IN_CONTAINER = 2"

lemma return_codes [simp]:
  "NOMINAL = 0" "MEMORY_ALLOCATION_ERROR = 1" "ALREADY_EXISTS_IN_CONTAINER = 2"
  by (simp_all add: NOMINAL_def MEMORY_ALLOCATION_ERROR_def ALREADY_EXISTS_IN_CONTAINER_def)

section \<open>Building a record from its fields\<close>

text \<open>The loop over \<open>timedot\<close>: the first dot among \<open>n\<close> bytes from \<open>i\<close> on, or their end.\<close>

fun find_dot :: "char list \<Rightarrow> nat \<Rightarrow> nat \<Rightarrow> nat res" where
  "find_dot s i 0 = Inr i"
| "find_dot s i (Suc n) =
     bind_r (slot s (int i)) (\<lambda>c. if c = CHR ''.'' then Inr i else find_dot s (Suc i) n)"

text \<open>
  The time stamp \<open>sec.usec\<close>: the dot is overwritten with a terminator in the field buffer
  itself, and both halves are converted. \<open>None\<close> when there is no dot.
\<close>

definition split_stamp :: "stringBuffer \<Rightarrow> (timeval option \<times> stringBuffer) res" where
  "split_stamp ts =
     bind_r (find_dot (sb_string ts) 0 (end_pos ts)) (\<lambda>timedot.
       if timedot = end_pos ts then Inr (None, ts)
       else bind_r (set_slot (sb_string ts) (int timedot) NUL) (\<lambda>s.
         bind_r (c_str s) (\<lambda>sec.
           bind_r (c_str (drop (timedot + 1) s)) (\<lambda>usec.
             Inr (Some \<lparr>tv_sec = atol sec, tv_usec = atol usec\<rparr>, ts\<lparr>sb_string := s\<rparr>)))))"

text \<open>
  Allocation sites of \<open>openCall_init\<close>: 0 the copy of the command name, 1 the copy of the
  path. The last component of the result is the time stamp buffer, which the code changes.
\<close>

definition openCall_init ::
  "(nat \<Rightarrow> alloc_env) \<Rightarrow> (string \<Rightarrow> nat option) \<Rightarrow> openCall \<Rightarrow> stringBuffer \<Rightarrow> stringBuffer
   \<Rightarrow> stringBuffer \<Rightarrow> stringBuffer \<Rightarrow> stringBuffer \<Rightarrow> (int \<times> openCall \<times> stringBuffer) res" where
  "openCall_init mem stat this openTimeStamp cmdName pid returnVal path =
     (let this = this\<lparr>oc_inode := 0\<rparr> in
      bind_r (split_stamp openTimeStamp) (\<lambda>(stamp, openTimeStamp).
        case stamp of None \<Rightarrow> Inr (2, this, openTimeStamp)
        | Some tv \<Rightarrow>
          let this = this\<lparr>oc_time_stamp := tv\<rparr> in
          bind_r (sb_stringCpy (mem 0) cmdName) (\<lambda>(ret, name).
            if ret \<noteq> 0 then Inr (ret, this, openTimeStamp)
            else let this = this\<lparr>oc_cmdName := Some name\<rparr> in
          bind_r (sb_stringCpy (mem 1) path) (\<lambda>(ret, file).
            if ret \<noteq> 0 then Inr (ret, this\<lparr>oc_cmdName := None\<rparr>, openTimeStamp)
            else let this = this\<lparr>oc_filepath := Some file\<rparr> in
          bind_r (c_str (sb_string returnVal)) (\<lambda>rv.
          bind_r (c_str (sb_string pid)) (\<lambda>p.
          bind_r (c_str (sb_string path)) (\<lambda>file_name.
            let this = this\<lparr>oc_flag := atoi rv, oc_pid := atoi p\<rparr> in
            case stat file_name of
              None \<Rightarrow> Inr (-1, this, openTimeStamp)
            | Some ino \<Rightarrow> Inr (0, this\<lparr>oc_inode := ino\<rparr>, openTimeStamp))))))))"

text \<open>
  Allocation sites of \<open>execCall_init\<close>: 0 the command name, 1 the arguments, 2 the buffer of
  open calls. The fields the code does not assign keep what the memory held.
\<close>

definition execCall_init ::
  "(nat \<Rightarrow> alloc_env) \<Rightarrow> execCall \<Rightarrow> stringBuffer \<Rightarrow> stringBuffer \<Rightarrow> stringBuffer
   \<Rightarrow> stringBuffer \<Rightarrow> stringBuffer \<Rightarrow> (int \<times> execCall \<times> stringBuffer) res" where
  "execCall_init mem this execTimeStamp cmdName pid ppid args =
     (let this = this\<lparr>ec_tracked := 0, ec_deadness := 0, ec_ptime_stamp := timeval_zero\<rparr> in
      bind_r (split_stamp execTimeStamp) (\<lambda>(stamp, execTimeStamp).
        case stamp of None \<Rightarrow> Inr (2, this, execTimeStamp)
        | Some tv \<Rightarrow>
          let this = this\<lparr>ec_time_stamp := tv\<rparr> in
          bind_r (sb_stringCpy (mem 0) cmdName) (\<lambda>(ret, name).
            if ret \<noteq> 0 then Inr (ret, this, execTimeStamp)
            else let this = this\<lparr>ec_cmdName := Some name\<rparr> in
          bind_r (sb_stringCpy (mem 1) args) (\<lambda>(ret, arg).
            if ret \<noteq> 0 then Inr (ret, this\<lparr>ec_cmdName := None\<rparr>, execTimeStamp)
            else let this = this\<lparr>ec_args := Some arg\<rparr> in
          bind_r (c_str (sb_string ppid)) (\<lambda>pp.
          bind_r (c_str (sb_string pid)) (\<lambda>p.
            let this = this\<lparr>ec_ppid := atoi pp, ec_pid := atoi p\<rparr> in
            if \<not> can_alloc (mem 2) 64
            then Inr (MEMORY_ALLOCATION_ERROR,
                      this\<lparr>ec_callBuff := [], ec_args := None, ec_cmdName := None\<rparr>,
                      execTimeStamp)
            else Inr (0, this\<lparr>ec_callBuff := replicate 8 None, ec_tracked := 0,
                              ec_call_num := 0, ec_callBuff_size := 8\<rparr>, execTimeStamp)))))))"

section \<open>Freeing a record\<close>

definition openCall_destroy :: "openCall \<Rightarrow> openCall" where
  "openCall_destroy this = this\<lparr>oc_filepath := None, oc_cmdName := None\<rparr>"

text \<open>The loop of \<open>execCall_destroy\<close>, with the open calls it destroys, in order.\<close>

fun destroy_calls :: "nat \<Rightarrow> nat \<Rightarrow> openCall option list \<Rightarrow> (openCall list \<times> openCall option list) res"
  where
  "destroy_calls i 0 buf = Inr ([], buf)"
| "destroy_calls i (Suc n) buf =
     bind_r (slot buf (int i)) (\<lambda>p.
       bind_r (deref p) (\<lambda>oc.
         bind_r (set_slot buf (int i) None) (\<lambda>buf.
           bind_r (destroy_calls (Suc i) n buf) (\<lambda>(ocs, buf). Inr (oc # ocs, buf)))))"

definition execCall_destroy :: "execCall \<Rightarrow> (openCall list \<times> execCall) res" where
  "execCall_destroy this =
     bind_r (destroy_calls 0 (nat (ec_call_num this)) (ec_callBuff this)) (\<lambda>(ocs, _).
       Inr (ocs, this\<lparr>ec_args := None, ec_cmdName := None, ec_callBuff := []\<rparr>))"

section \<open>What the constructors build\<close>

text \<open>A field buffer that holds the text \<open>s\<close>, as the parser leaves it.\<close>

definition holds :: "stringBuffer \<Rightarrow> string \<Rightarrow> bool" where
  "holds b s \<longleftrightarrow> sb_wf b \<and> sb_terminated b \<and> sb_text b = s \<and> NUL \<notin> set s"

lemma holds_c_str: "holds b s \<Longrightarrow> c_str (sb_string b) = Inr s"
  by (auto simp: holds_def c_str_sb_string)

lemma holds_end_pos: "holds b s \<Longrightarrow> end_pos b = length s"
  by (auto simp: holds_def)

lemma holds_string: "holds b s \<Longrightarrow> \<exists>rest. sb_string b = s @ NUL # rest"
  using sb_string_split by (auto simp: holds_def)

lemma holds_stringCpy:
  assumes "holds b s"
  shows "sb_stringCpy env b
     = (if can_alloc env (length s + 1) then Inr (0, s) else Inl NullDeref)"
  using assms sb_stringCpy_eq [of b env] holds_end_pos [OF assms] by (simp add: holds_def)

lemma find_dot_no_dot:
  assumes "CHR ''.'' \<notin> set (take n (drop i s))" "i + n \<le> length s"
  shows "find_dot s i n = Inr (i + n)"
  using assms
proof (induction n arbitrary: i)
  case 0
  then show ?case by simp
next
  case (Suc n)
  have i: "i < length s" using Suc.prems(2) by simp
  then have "take (Suc n) (drop i s) = s ! i # take n (drop (Suc i) s)"
    by (metis Cons_nth_drop_Suc take_Suc_Cons)
  with Suc i show ?case by auto
qed

lemma find_dot_at:
  assumes "s = pre @ a @ CHR ''.'' # rest" "CHR ''.'' \<notin> set a" "length a < n"
  shows "find_dot s (length pre) n = Inr (length pre + length a)"
  using assms
proof (induction a arbitrary: pre n)
  case Nil
  then show ?case by (cases n) (auto simp: nth_append)
next
  case (Cons c a)
  then obtain m where n: "n = Suc m" by (cases n) auto
  have "find_dot s (length (pre @ [c])) m = Inr (length (pre @ [c]) + length a)"
    by (rule Cons.IH) (use Cons.prems n in auto)
  with Cons.prems n show ?case by (auto simp: nth_append)
qed

lemma split_stamp_dot:
  assumes "holds ts (a @ CHR ''.'' # b)" "CHR ''.'' \<notin> set a"
  shows "\<exists>ts'. split_stamp ts = Inr (Some \<lparr>tv_sec = atol a, tv_usec = atol b\<rparr>, ts')
           \<and> sb_wf ts' \<and> sb_size ts' = sb_size ts"
proof -
  obtain rest where s: "sb_string ts = a @ CHR ''.'' # b @ NUL # rest"
    using holds_string [OF assms(1)] by auto
  have e: "end_pos ts = length a + Suc (length b)"
    using holds_end_pos [OF assms(1)] by simp
  have "find_dot (sb_string ts) 0 (end_pos ts) = Inr (length a)"
    using find_dot_at [of "sb_string ts" "[]" a "b @ NUL # rest" "end_pos ts"] s e assms(2)
    by simp
  moreover have "set_slot (sb_string ts) (int (length a)) NUL = Inr (a @ NUL # b @ NUL # rest)"
    by (simp add: s)
  moreover have "NUL \<notin> set a" "NUL \<notin> set b"
    using assms(1) by (auto simp: holds_def)
  ultimately show ?thesis
    using assms(1) e by (auto simp: split_stamp_def s holds_def sb_wf_def)
qed

lemma split_stamp_no_dot:
  assumes "holds ts s" "CHR ''.'' \<notin> set s"
  shows "split_stamp ts = Inr (None, ts)"
proof -
  obtain rest where s: "sb_string ts = s @ NUL # rest"
    using holds_string [OF assms(1)] by auto
  have "find_dot (sb_string ts) 0 (end_pos ts) = Inr (end_pos ts)"
    using find_dot_no_dot [of "end_pos ts" 0 "sb_string ts"] s holds_end_pos [OF assms(1)]
      assms(2) by simp
  then show ?thesis
    by (simp add: split_stamp_def)
qed

lemma openCall_init_spec:
  assumes "holds ts (a @ CHR ''.'' # b)" "CHR ''.'' \<notin> set a"
    and "holds cmd c" "holds pid p" "holds rv r" "holds path f"
    and "can_alloc (mem 0) (length c + 1)" "can_alloc (mem 1) (length f + 1)"
  shows "\<exists>ts'. openCall_init mem stat this ts cmd pid rv path
      = Inr (case stat f of None \<Rightarrow> -1 | Some _ \<Rightarrow> 0,
             this\<lparr>oc_pid := atoi p, oc_flag := atoi r, oc_cmdName := Some c,
                  oc_filepath := Some f,
                  oc_inode := (case stat f of None \<Rightarrow> 0 | Some ino \<Rightarrow> ino),
                  oc_time_stamp := \<lparr>tv_sec = atol a, tv_usec = atol b\<rparr>\<rparr>, ts')
      \<and> sb_wf ts' \<and> sb_size ts' = sb_size ts"
  using split_stamp_dot [OF assms(1,2)] assms(7,8)
    holds_stringCpy [OF assms(3)] holds_stringCpy [OF assms(6)]
    holds_c_str [OF assms(4)] holds_c_str [OF assms(5)] holds_c_str [OF assms(6)]
  by (auto simp: openCall_init_def split: option.splits)

lemma execCall_init_spec:
  assumes "holds ts (a @ CHR ''.'' # b)" "CHR ''.'' \<notin> set a"
    and "holds cmd c" "holds pid p" "holds ppid q" "holds args g"
    and "can_alloc (mem 0) (length c + 1)" "can_alloc (mem 1) (length g + 1)"
  shows "\<exists>ts'. execCall_init mem this ts cmd pid ppid args
      = Inr (if can_alloc (mem 2) 64
             then (0, \<lparr>ec_pid = atoi p, ec_ppid = atoi q, ec_deadness = 0, ec_tracked = 0,
                   ec_call_num = 0, ec_cmdName = Some c, ec_args = Some g,
                   ec_callBuff_size = 8, ec_callBuff = replicate 8 None,
                   ec_time_stamp = \<lparr>tv_sec = atol a, tv_usec = atol b\<rparr>,
                   ec_ptime_stamp = timeval_zero\<rparr>, ts')
             else (1, this\<lparr>ec_pid := atoi p, ec_ppid := atoi q, ec_deadness := 0,
                   ec_tracked := 0, ec_cmdName := None, ec_args := None, ec_callBuff := [],
                   ec_time_stamp := \<lparr>tv_sec = atol a, tv_usec = atol b\<rparr>,
                   ec_ptime_stamp := timeval_zero\<rparr>, ts'))
      \<and> sb_wf ts' \<and> sb_size ts' = sb_size ts"
  using split_stamp_dot [OF assms(1,2)] assms(7,8)
    holds_stringCpy [OF assms(3)] holds_stringCpy [OF assms(6)]
    holds_c_str [OF assms(4)] holds_c_str [OF assms(5)]
  by (cases this) (auto simp: execCall_init_def)

lemma init_misaligned:
  assumes "holds ts s" "CHR ''.'' \<notin> set s"
  shows "openCall_init mem stat oc ts cmd pid rv path = Inr (2, oc\<lparr>oc_inode := 0\<rparr>, ts)"
    and "execCall_init mem ec ts cmd pid ppid args
       = Inr (2, ec\<lparr>ec_tracked := 0, ec_deadness := 0, ec_ptime_stamp := timeval_zero\<rparr>, ts)"
  using split_stamp_no_dot [OF assms] by (simp_all add: openCall_init_def execCall_init_def)

section \<open>The buffer of open calls\<close>

text \<open>
  The slots in use hold open calls, and at least two slots are free: the code doubles the
  buffer when exactly two are left, before it takes the next one.
\<close>

definition calls_wf :: "execCall \<Rightarrow> bool" where
  "calls_wf e \<longleftrightarrow> 0 \<le> ec_call_num e \<and> length (ec_callBuff e) = ec_callBuff_size e
     \<and> nat (ec_call_num e) + 2 \<le> ec_callBuff_size e
     \<and> (\<forall>i < nat (ec_call_num e). ec_callBuff e ! i \<noteq> None)"

definition calls_of :: "execCall \<Rightarrow> openCall list" where
  "calls_of e = map the (take (nat (ec_call_num e)) (ec_callBuff e))"

lemma destroy_calls_total:
  assumes "i + n \<le> length buf" "\<forall>k. i \<le> k \<and> k < i + n \<longrightarrow> buf ! k \<noteq> None"
  shows "\<exists>buf'. destroy_calls i n buf = Inr (map the (take n (drop i buf)), buf')"
  using assms
proof (induction n arbitrary: i buf)
  case 0
  then show ?case by simp
next
  case (Suc n)
  have i: "i < length buf" using Suc.prems(1) by simp
  obtain oc where oc: "buf ! i = Some oc"
    using Suc.prems(2) by fastforce
  obtain buf' where "destroy_calls (Suc i) n (buf[i := None])
      = Inr (map the (take n (drop (Suc i) buf)), buf')"
    using Suc.IH [of "Suc i" "buf[i := None]"] Suc.prems by auto
  moreover have "take (Suc n) (drop i buf) = buf ! i # take n (drop (Suc i) buf)"
    by (rule take_Suc_drop [OF i])
  ultimately show ?case
    using i oc by simp
qed

lemma execCall_destroy_total:
  assumes "calls_wf e"
  shows "execCall_destroy e
     = Inr (calls_of e, e\<lparr>ec_args := None, ec_cmdName := None, ec_callBuff := []\<rparr>)"
  using assms destroy_calls_total [of 0 "nat (ec_call_num e)" "ec_callBuff e"]
  by (auto simp: execCall_destroy_def calls_wf_def calls_of_def)

section \<open>Properties\<close>

definition text_buffer :: "string \<Rightarrow> stringBuffer" where
  "text_buffer s = \<lparr>sb_string = s @ [NUL], sb_size = length s + 1, end_pos = length s\<rparr>"

lemma text_buffer_holds: "NUL \<notin> set s \<Longrightarrow> length s < 2 ^ 32 \<Longrightarrow> holds (text_buffer s) s"
  by (simp add: text_buffer_def holds_def sb_wf_def sb_terminated_def sb_text_def)

theorem openCall_init_fields:
  assumes "holds ts (a @ CHR ''.'' # b)" "CHR ''.'' \<notin> set a"
    and "holds cmd c" "holds pid p" "holds rv r" "holds path f"
    and "can_alloc (mem 0) (length c + 1)" "can_alloc (mem 1) (length f + 1)"
  shows "\<exists>ts'. openCall_init mem stat this ts cmd pid rv path
      = Inr (case stat f of None \<Rightarrow> -1 | Some _ \<Rightarrow> 0,
             this\<lparr>oc_pid := atoi p, oc_flag := atoi r, oc_cmdName := Some c,
                  oc_filepath := Some f,
                  oc_inode := (case stat f of None \<Rightarrow> 0 | Some ino \<Rightarrow> ino),
                  oc_time_stamp := \<lparr>tv_sec = atol a, tv_usec = atol b\<rparr>\<rparr>, ts')"
  using openCall_init_spec [OF assms] by blast

theorem openCall_init_fields_witness:
  "\<exists>ts'. openCall_init (\<lambda>_. roomy) (\<lambda>_. Some 42) openCall_zero (text_buffer (''12'' @ CHR ''.'' # ''034''))
      (text_buffer ''vi'') (text_buffer ''77'') (text_buffer ''3'') (text_buffer ''/tmp/a'')
     = Inr (case Some (42 :: nat) of None \<Rightarrow> -1 | Some _ \<Rightarrow> 0,
         openCall_zero\<lparr>oc_pid := atoi ''77'', oc_flag := atoi ''3'', oc_cmdName := Some ''vi'',
           oc_filepath := Some ''/tmp/a'', oc_inode := (case Some 42 of None \<Rightarrow> 0 | Some ino \<Rightarrow> ino),
           oc_time_stamp := \<lparr>tv_sec = atol ''12'', tv_usec = atol ''034''\<rparr>\<rparr>, ts')"
  by (rule openCall_init_fields) (simp_all add: text_buffer_holds NUL_def)

theorem execCall_init_fields:
  assumes "holds ts (a @ CHR ''.'' # b)" "CHR ''.'' \<notin> set a"
    and "holds cmd c" "holds pid p" "holds ppid q" "holds args g"
    and "can_alloc (mem 0) (length c + 1)" "can_alloc (mem 1) (length g + 1)" "can_alloc (mem 2) 64"
  shows "\<exists>e ts'. execCall_init mem this ts cmd pid ppid args = Inr (0, e, ts')
     \<and> ec_pid e = atoi p \<and> ec_ppid e = atoi q \<and> ec_cmdName e = Some c \<and> ec_args e = Some g
     \<and> ec_time_stamp e = \<lparr>tv_sec = atol a, tv_usec = atol b\<rparr> \<and> ec_tracked e = 0
     \<and> ec_deadness e = 0 \<and> calls_wf e \<and> calls_of e = []
     \<and> execCall_destroy e = Inr ([], e\<lparr>ec_args := None, ec_cmdName := None, ec_callBuff := []\<rparr>)"
proof -
  let ?e = "\<lparr>ec_pid = atoi p, ec_ppid = atoi q, ec_deadness = 0, ec_tracked = 0,
                   ec_call_num = 0, ec_cmdName = Some c, ec_args = Some g,
                   ec_callBuff_size = 8, ec_callBuff = replicate 8 None,
                   ec_time_stamp = \<lparr>tv_sec = atol a, tv_usec = atol b\<rparr>,
                   ec_ptime_stamp = timeval_zero\<rparr>"
  obtain ts' where "execCall_init mem this ts cmd pid ppid args = Inr (0, ?e, ts')"
    using execCall_init_spec [OF assms(1-8), of this] assms(9) by auto
  moreover have "calls_wf ?e" "calls_of ?e = []"
    by (simp_all add: calls_wf_def calls_of_def)
  ultimately show ?thesis
    using execCall_destroy_total [of ?e] by (intro exI [of _ ?e] exI [of _ ts']) simp
qed

theorem execCall_init_fields_witness:
  "\<exists>e ts'. execCall_init (\<lambda>_. roomy) execCall_zero (text_buffer (''12'' @ CHR ''.'' # ''034''))
      (text_buffer ''vi'') (text_buffer ''77'') (text_buffer ''1'') (text_buffer ''vi a'') = Inr (0, e, ts')
     \<and> ec_pid e = atoi ''77'' \<and> ec_ppid e = atoi ''1'' \<and> ec_cmdName e = Some ''vi''
     \<and> ec_args e = Some ''vi a'' \<and> ec_time_stamp e = \<lparr>tv_sec = atol ''12'', tv_usec = atol ''034''\<rparr>
     \<and> ec_tracked e = 0 \<and> ec_deadness e = 0 \<and> calls_wf e \<and> calls_of e = []
     \<and> execCall_destroy e = Inr ([], e\<lparr>ec_args := None, ec_cmdName := None, ec_callBuff := []\<rparr>)"
  by (rule execCall_init_fields) (simp_all add: text_buffer_holds NUL_def)

end
