(* ===== verification/ProcIndex.thy ===== *)
theory ProcIndex
  imports Calls
begin

text \<open>
  The process index of \<open>src/src/watchdog/src/watchdog.c\<close> (lines 263-430): a table of
  \<open>execCall\<close> records by process id, where process \<open>pid\<close> lives in slot \<open>pid + 1\<close>.

  \<open>procs\<close> is the heap block of slots, \<open>psize\<close> the field \<open>size\<close>, \<open>maxPid\<close> the field of that
  name. The code grows the table until \<open>size >= pid + 1\<close> and then uses slot \<open>pid + 1\<close>, so a
  process id just below a size is outside the block: the access is a fault of the model.
  \<open>pid_t\<close> is an \<open>int\<close> here; \<open>index_sums_fit\<close> shows that the sums and products the code forms
  stay in 32 bits.
\<close>

section \<open>State and operations\<close>

record procindex =
  procs :: "execCall option list"
  psize :: int
  maxPid :: int

text \<open>
  The largest process id, from the first line of a file of the \<open>proc\<close> file system: \<open>None\<close>
  when it cannot be opened, \<open>Some None\<close> when no line can be read.
\<close>

definition get_max_PID :: "string option option \<Rightarrow> int" where
  "get_max_PID pid_maxf =
     (case pid_maxf of None \<Rightarrow> -1
      | Some line \<Rightarrow> (case line of None \<Rightarrow> -1 | Some l \<Rightarrow> atoi l))"

definition procindex_init ::
  "alloc_env \<Rightarrow> string option option \<Rightarrow> procindex \<Rightarrow> int \<Rightarrow> int \<times> procindex" where
  "procindex_init env pid_maxf this guide_pid =
     (let this = this\<lparr>maxPid := get_max_PID pid_maxf\<rparr> in
      if maxPid this = -1 then (-1, this)
      else let size = (if guide_pid < 1 then maxPid this + 1
                       else if (guide_pid + 1) * 2 < maxPid this then (guide_pid + 1) * 2
                       else maxPid this + 1) in
      if size < 0 \<or> \<not> can_alloc env (nat size * 8)
      then (-1, this\<lparr>procs := [], psize := 0\<rparr>)
      else (NOMINAL, this\<lparr>procs := replicate (nat size) None, psize := size\<rparr>))"

text \<open>
  \<open>procindex_destroy\<close> frees the records of all slots; the records it destroys are returned.
\<close>

fun destroy_procs :: "nat \<Rightarrow> nat \<Rightarrow> execCall option list \<Rightarrow> (execCall list \<times> execCall option list) res"
  where
  "destroy_procs i 0 ps = Inr ([], ps)"
| "destroy_procs i (Suc n) ps =
     bind_r (slot ps (int i)) (\<lambda>p.
       case p of None \<Rightarrow> destroy_procs (Suc i) n ps
       | Some e \<Rightarrow>
         bind_r (execCall_destroy e) (\<lambda>_.
           bind_r (set_slot ps (int i) None) (\<lambda>ps.
             bind_r (destroy_procs (Suc i) n ps) (\<lambda>(es, ps). Inr (e # es, ps)))))"

definition procindex_destroy :: "procindex \<Rightarrow> (execCall list \<times> procindex) res" where
  "procindex_destroy this =
     bind_r (destroy_procs 0 (nat (psize this)) (procs this)) (\<lambda>(es, _).
       Inr (es, this\<lparr>procs := []\<rparr>))"

text \<open>
  The growth loop of \<open>procindex_add\<close>. It assigns \<open>size\<close> before it knows whether \<open>realloc\<close>
  succeeds. If an earlier failure left \<open>size\<close> larger than the block, the slots in between
  would never be written; the model stops there. A size of 0 stays 0 for ever.
\<close>

definition next_size :: "procindex \<Rightarrow> int" where
  "next_size this = (if psize this * 2 \<le> maxPid this + 1 then psize this * 2 else maxPid this + 1)"

function procindex_grow :: "alloc_env \<Rightarrow> int \<Rightarrow> procindex \<Rightarrow> (int \<times> procindex) res" where
  "procindex_grow env pid this =
     (if \<not> psize this < pid + 1 then Inr (NOMINAL, this)
      else let size = next_size this in
      if size < 0 \<or> \<not> can_alloc env (nat size * 8)
      then Inr (MEMORY_ALLOCATION_ERROR, this\<lparr>psize := size\<rparr>)
      else if int (length (procs this)) \<noteq> psize this then Inl OutOfBounds
      else if size \<le> psize this then Inl Diverges
      else procindex_grow env pid
             (this\<lparr>psize := size, procs := procs this @ replicate (nat (size - psize this)) None\<rparr>))"
  by pat_completeness auto
termination
  by (relation "measure (\<lambda>(env, pid, this). nat (pid + 1 - psize this))") auto

declare procindex_grow.simps [simp del]

text \<open>
  The result holds the return code, the index, and the call handed in, whose parent the
  function resets or whose parent time stamp it fills in.
\<close>

definition procindex_add ::
  "alloc_env \<Rightarrow> procindex \<Rightarrow> execCall \<Rightarrow> (int \<times> procindex \<times> execCall) res" where
  "procindex_add env this call =
     (let pid = ec_pid call; ppid = ec_ppid call in
      if pid < 0 \<or> maxPid this < pid then Inr (-1, this, call)
      else bind_r (procindex_grow env pid this) (\<lambda>(ret, this).
        if ret \<noteq> 0 then Inr (ret, this, call)
        else bind_r (slot (procs this) (pid + 1)) (\<lambda>old.
          if old \<noteq> None then Inr (ALREADY_EXISTS_IN_CONTAINER, this, call)
          else bind_r (if psize this < ppid + 1 then Inr None else slot (procs this) (ppid + 1))
            (\<lambda>parent.
              bind_r (if parent = None then Inr (call\<lparr>ec_ppid := 0\<rparr>)
                      else bind_r (slot (procs this) (pid + 1)) (\<lambda>p.
                             bind_r (deref p) (\<lambda>e.
                               Inr (call\<lparr>ec_ptime_stamp := ec_time_stamp e\<rparr>))))
                (\<lambda>call.
                  bind_r (set_slot (procs this) (pid + 1) (Some call)) (\<lambda>ps.
                    Inr (NOMINAL, this\<lparr>procs := ps\<rparr>, call)))))))"

function procindex_trackparents :: "procindex \<Rightarrow> int \<Rightarrow> procindex res" where
  "procindex_trackparents this child =
     bind_r (slot (procs this) (child + 1)) (\<lambda>c.
       bind_r (deref c) (\<lambda>c.
         let parentID = ec_ppid c in
         bind_r (slot (procs this) (parentID + 1)) (\<lambda>parentProc.
           case parentProc of None \<Rightarrow> Inr this
           | Some p \<Rightarrow>
             if parentID \<noteq> 0 \<and> ec_tracked p = 0
             then procindex_trackparents
                    (this\<lparr>procs := (procs this)[nat (parentID + 1) := Some (p\<lparr>ec_tracked := 1\<rparr>)]\<rparr>)
                    parentID
             else Inr this)))"
  by pat_completeness auto

definition untracked :: "execCall option \<Rightarrow> bool" where
  "untracked s \<longleftrightarrow> (case s of None \<Rightarrow> False | Some e \<Rightarrow> ec_tracked e = 0)"

lemma filter_update_less:
  assumes "i < length xs" "P (xs ! i)" "\<not> P y"
  shows "length (filter P (xs[i := y])) < length (filter P xs)"
  using assms
proof (induction xs arbitrary: i)
  case Nil
  then show ?case by simp
next
  case (Cons x xs)
  then show ?case by (cases i) auto
qed

termination procindex_trackparents
proof (relation "measure (\<lambda>(this, child). length (filter untracked (procs this)))", goal_cases)
  case 1
  show ?case by simp
next
  case (2 this child c e pid slot p)
  then have "procs this ! nat (pid + 1) = Some p" "0 \<le> pid + 1"
    "pid + 1 < int (length (procs this))" "ec_tracked p = 0"
    by (auto simp: slot_Inr_iff)
  then show ?case
    using filter_update_less [of "nat (pid + 1)" "procs this" untracked
        "Some (p\<lparr>ec_tracked := 1\<rparr>)"] by (simp add: untracked_def)
qed

declare procindex_trackparents.simps [simp del]

text \<open>
  \<open>procindex_opencall_add\<close> has a growth loop of its own, which keeps \<open>size\<close> in step with the
  block. Its allocation sites are, in order: 0 the table, 1 the buffer of open calls, 2 the
  placeholder process, 3 its arguments, 4 its name, 5 its buffer, 6 the table again (in
  \<open>procindex_add\<close>). The placeholder is written before its pointer is tested. The second
  component of the grown buffer, which the code leaves uninitialised, is never read before
  it is written.
\<close>

function opencall_grow :: "alloc_env \<Rightarrow> int \<Rightarrow> procindex \<Rightarrow> (int \<times> procindex) res" where
  "opencall_grow env pid this =
     (if \<not> psize this < pid + 1 then Inr (NOMINAL, this)
      else let newSize = next_size this in
      if newSize < 0 \<or> \<not> can_alloc env (nat newSize * 8)
      then Inr (MEMORY_ALLOCATION_ERROR, this)
      else if int (length (procs this)) \<noteq> psize this then Inl OutOfBounds
      else if newSize \<le> psize this then Inl Diverges
      else opencall_grow env pid
             (this\<lparr>psize := newSize,
                   procs := procs this @ replicate (nat (newSize - psize this)) None\<rparr>))"
  by pat_completeness auto
termination
  by (relation "measure (\<lambda>(env, pid, this). nat (pid + 1 - psize this))") auto

declare opencall_grow.simps [simp del]

definition sizeof_execCall :: nat where
  "sizeof_execCall = 88"

definition placeholder :: "openCall \<Rightarrow> string \<Rightarrow> execCall" where
  "placeholder ocall name = execCall_zero\<lparr>ec_ppid := 0, ec_args := Some ''unknown'',
     ec_tracked := 0, ec_pid := oc_pid ocall, ec_cmdName := Some name,
     ec_callBuff := replicate 8 None, ec_callBuff_size := 8, ec_call_num := 0\<rparr>"

text \<open>
  The process the call belongs to, with room in its buffer: found and grown, or a placeholder
  that is added to the index.
\<close>

definition opencall_target ::
  "(nat \<Rightarrow> alloc_env) \<Rightarrow> procindex \<Rightarrow> openCall \<Rightarrow> (int \<times> procindex) res" where
  "opencall_target mem this ocall =
     (let pid = oc_pid ocall in
      bind_r (if psize this < pid + 1 then Inr None else slot (procs this) (pid + 1)) (\<lambda>target.
        case target of
          Some e \<Rightarrow>
            (if ec_call_num e + 2 = int (ec_callBuff_size e) then
               (if \<not> can_alloc (mem 1) (ec_callBuff_size e * 2 * 8)
                then Inr (MEMORY_ALLOCATION_ERROR, this)
                else bind_r (set_slot (procs this) (pid + 1)
                       (Some (e\<lparr>ec_callBuff := ec_callBuff e @ replicate (ec_callBuff_size e) None,
                                ec_callBuff_size := ec_callBuff_size e * 2\<rparr>)))
                       (\<lambda>ps. Inr (NOMINAL, this\<lparr>procs := ps\<rparr>)))
             else Inr (NOMINAL, this))
        | None \<Rightarrow>
            if \<not> can_alloc (mem 2) sizeof_execCall then Inl NullDeref
            else if \<not> can_alloc (mem 3) 8 then Inr (MEMORY_ALLOCATION_ERROR, this)
            else bind_r (deref (oc_cmdName ocall)) (\<lambda>name.
              if \<not> can_alloc (mem 4) (length name + 1) then Inr (MEMORY_ALLOCATION_ERROR, this)
              else if \<not> can_alloc (mem 5) 64 then Inr (MEMORY_ALLOCATION_ERROR, this)
              else bind_r (procindex_add (mem 6) this (placeholder ocall name)) (\<lambda>(_, this, _).
                Inr (NOMINAL, this)))))"

definition procindex_opencall_add ::
  "(nat \<Rightarrow> alloc_env) \<Rightarrow> procindex \<Rightarrow> openCall \<Rightarrow> (int \<times> procindex) res" where
  "procindex_opencall_add mem this ocall =
     (let pid = oc_pid ocall in
      if pid < 0 \<or> maxPid this < pid then Inr (-1, this)
      else bind_r (opencall_grow (mem 0) pid this) (\<lambda>(ret, this).
        if ret \<noteq> 0 then Inr (ret, this)
        else bind_r (opencall_target mem this ocall) (\<lambda>(ret, this).
          if ret \<noteq> 0 then Inr (ret, this)
          else bind_r (slot (procs this) (pid + 1)) (\<lambda>target.
            bind_r (deref target) (\<lambda>e.
              bind_r (set_slot (ec_callBuff e) (ec_call_num e) (Some ocall)) (\<lambda>buf.
                let e' = e\<lparr>ec_callBuff := buf, ec_call_num := ec_call_num e + 1\<rparr>;
                    fresh = (ec_tracked e' = 0);
                    e'' = (if fresh then e'\<lparr>ec_tracked := 1\<rparr> else e') in
                bind_r (set_slot (procs this) (pid + 1) (Some e'')) (\<lambda>ps.
                  let this = this\<lparr>procs := ps\<rparr> in
                  if fresh then bind_r (procindex_trackparents this (ec_pid e'')) (\<lambda>this.
                                  Inr (NOMINAL, this))
                  else Inr (NOMINAL, this))))))))"

definition procindex_retrieve :: "procindex \<Rightarrow> int \<Rightarrow> (execCall option \<times> procindex) res" where
  "procindex_retrieve this target_pid =
     (if \<not> psize this \<ge> target_pid + 1 then Inr (None, this)
      else bind_r (slot (procs this) (target_pid + 1)) (\<lambda>p.
        case p of None \<Rightarrow> Inr (None, this)
        | Some e \<Rightarrow> bind_r (set_slot (procs this) (target_pid + 1) None) (\<lambda>ps.
            Inr (Some e, this\<lparr>procs := ps\<rparr>))))"

section \<open>Invariant and lookup\<close>

text \<open>
  Slot \<open>pid + 1\<close> holds the record of process \<open>pid\<close>; the buffers of open calls are sound; and
  no record names a parent, which is what the code leaves of \<open>ppid\<close>.
\<close>

definition entry_wf :: "nat \<Rightarrow> execCall \<Rightarrow> bool" where
  "entry_wf i e \<longleftrightarrow> 0 \<le> ec_pid e \<and> int i = ec_pid e + 1 \<and> calls_wf e \<and> ec_ppid e = 0"

definition pi_wf :: "procindex \<Rightarrow> bool" where
  "pi_wf this \<longleftrightarrow> psize this = int (length (procs this)) \<and> 1 \<le> psize this
     \<and> psize this \<le> maxPid this + 1
     \<and> (\<forall>i < length (procs this). \<forall>e. procs this ! i = Some e \<longrightarrow> entry_wf i e)"

definition pi_lookup :: "procindex \<Rightarrow> int \<Rightarrow> execCall option" where
  "pi_lookup this pid =
     (if 0 \<le> pid \<and> pid + 1 < psize this then procs this ! nat (pid + 1) else None)"

text \<open>Process \<open>pid\<close> has a slot inside the block.\<close>

definition has_slot :: "procindex \<Rightarrow> int \<Rightarrow> bool" where
  "has_slot this pid \<longleftrightarrow> 0 \<le> pid \<and> pid + 1 < psize this"

lemma pi_wfD:
  assumes "pi_wf this"
  shows "psize this = int (length (procs this))" "1 \<le> psize this"
    "psize this \<le> maxPid this + 1"
    "\<And>i e. i < length (procs this) \<Longrightarrow> procs this ! i = Some e \<Longrightarrow> entry_wf i e"
  using assms by (auto simp: pi_wf_def)

lemma slot0_empty:
  assumes "pi_wf this"
  shows "procs this ! 0 = None"
proof (rule ccontr)
  assume "procs this ! 0 \<noteq> None"
  then obtain e where "procs this ! 0 = Some e" by auto
  moreover have "0 < length (procs this)"
    using pi_wfD(1,2) [OF assms] by linarith
  ultimately have "entry_wf 0 e"
    by (intro pi_wfD(4) [OF assms])
  then show False
    by (auto simp: entry_wf_def)
qed

lemma pi_slot:
  "pi_wf this \<Longrightarrow> has_slot this pid \<Longrightarrow> slot (procs this) (pid + 1) = Inr (pi_lookup this pid)"
  by (simp add: pi_wf_def has_slot_def pi_lookup_def)

lemma pi_lookup_wf:
  assumes "pi_wf this" "pi_lookup this pid = Some e"
  shows "ec_pid e = pid" "calls_wf e" "ec_ppid e = 0" "has_slot this pid"
proof -
  from assms(2) have p: "has_slot this pid" "procs this ! nat (pid + 1) = Some e"
    by (auto simp: pi_lookup_def has_slot_def split: if_splits)
  then have "entry_wf (nat (pid + 1)) e"
    using assms(1) by (intro pi_wfD(4)) (auto simp: has_slot_def pi_wf_def)
  then show "ec_pid e = pid" "calls_wf e" "ec_ppid e = 0"
    using p by (auto simp: entry_wf_def has_slot_def)
  show "has_slot this pid" by (fact p)
qed

definition pi_set :: "procindex \<Rightarrow> int \<Rightarrow> execCall option \<Rightarrow> procindex" where
  "pi_set this pid p = this\<lparr>procs := (procs this)[nat (pid + 1) := p]\<rparr>"

lemma pi_set_slot:
  "pi_wf this \<Longrightarrow> has_slot this pid \<Longrightarrow>
     set_slot (procs this) (pid + 1) p = Inr (procs (pi_set this pid p))"
  by (simp add: pi_wf_def has_slot_def pi_set_def)

lemma pi_set_fields [simp]:
  "psize (pi_set this pid p) = psize this" "maxPid (pi_set this pid p) = maxPid this"
  "has_slot (pi_set this pid p) q = has_slot this q"
  by (simp_all add: pi_set_def has_slot_def)

lemma pi_lookup_set:
  assumes "pi_wf this" "has_slot this pid"
  shows "pi_lookup (pi_set this pid p) q = (if q = pid then p else pi_lookup this q)"
  using assms by (auto simp: pi_lookup_def pi_set_def pi_wf_def has_slot_def)

lemma pi_wf_set [wf_intros]:
  assumes "pi_wf this" "has_slot this pid"
    "\<And>e. p = Some e \<Longrightarrow> ec_pid e = pid \<and> calls_wf e \<and> ec_ppid e = 0"
  shows "pi_wf (pi_set this pid p)"
  using assms by (auto simp: pi_wf_def pi_set_def has_slot_def entry_wf_def nth_list_update
      split: if_splits)

lemma pi_eqI:
  assumes "pi_wf this" "has_slot this pid"
  shows "this\<lparr>procs := procs (pi_set this pid p)\<rparr> = pi_set this pid p"
  by (simp add: pi_set_def)

section \<open>Growing\<close>

lemma next_size_bounds:
  assumes "pi_wf this" "psize this < pid + 1" "pid \<le> maxPid this"
  shows "psize this < next_size this" "next_size this \<le> maxPid this + 1"
  using assms by (auto simp: next_size_def pi_wf_def)

lemma pi_wf_extend:
  assumes "pi_wf this" "psize this \<le> n" "n \<le> maxPid this + 1"
  shows "pi_wf (this\<lparr>psize := n, procs := procs this @ replicate (nat (n - psize this)) None\<rparr>)"
proof -
  let ?ps = "procs this @ replicate (nat (n - psize this)) None"
  have "entry_wf i e" if "i < length ?ps" "?ps ! i = Some e" for i e
    using that pi_wfD(4) [OF assms(1), of i e]
    by (cases "i < length (procs this)") (auto simp: nth_append)
  then show ?thesis
    using assms by (auto simp: pi_wf_def)
qed

lemma pi_lookup_extend:
  assumes "pi_wf this" "psize this \<le> n"
  shows "pi_lookup (this\<lparr>psize := n, procs := procs this @ replicate (nat (n - psize this)) None\<rparr>) q
     = pi_lookup this q"
  using assms by (auto simp: pi_lookup_def pi_wf_def nth_append)

lemma opencall_grow_spec:
  assumes "pi_wf this" "0 \<le> pid" "pid \<le> maxPid this"
  shows "\<exists>ret this'. opencall_grow env pid this = Inr (ret, this') \<and> pi_wf this'
           \<and> maxPid this' = maxPid this \<and> psize this \<le> psize this'
           \<and> pi_lookup this' = pi_lookup this
           \<and> (ret = 0 \<and> pid + 1 \<le> psize this' \<or>
              ret = 1 \<and> psize this' < pid + 1
                \<and> \<not> can_alloc env (nat (next_size this') * 8))"
  using assms
proof (induction env pid this rule: opencall_grow.induct)
  case (1 env pid this)
  consider "pid + 1 \<le> psize this"
    | "psize this < pid + 1" "\<not> can_alloc env (nat (next_size this) * 8)"
    | "psize this < pid + 1" "can_alloc env (nat (next_size this) * 8)" by linarith
  then show ?case
  proof cases
    case 1
    with "1.prems" show ?thesis by (auto simp: opencall_grow.simps [of env pid this])
  next
    case 2
    with "1.prems" show ?thesis by (auto simp: opencall_grow.simps [of env pid this])
  next
    case 3
    let ?n = "next_size this"
    let ?next = "this\<lparr>psize := ?n, procs := procs this @ replicate (nat (?n - psize this)) None\<rparr>"
    have n: "psize this < ?n" "?n \<le> maxPid this + 1" "\<not> ?n < 0"
      using next_size_bounds [OF "1.prems"(1) 3(1) "1.prems"(3)] pi_wfD(2) [OF "1.prems"(1)]
      by auto
    have wf: "pi_wf ?next"
      using n by (intro pi_wf_extend "1.prems") auto
    have len: "int (length (procs this)) = psize this"
      using "1.prems"(1) by (simp add: pi_wf_def)
    have step: "opencall_grow env pid this = opencall_grow env pid ?next"
      using 3 n len by (simp add: opencall_grow.simps [of env pid this] Let_def)
    have look: "pi_lookup ?next = pi_lookup this"
      using n by (intro ext pi_lookup_extend "1.prems") auto
    have "\<exists>ret this'. opencall_grow env pid ?next = Inr (ret, this') \<and> pi_wf this'
           \<and> maxPid this' = maxPid ?next \<and> psize ?next \<le> psize this'
           \<and> pi_lookup this' = pi_lookup ?next
           \<and> (ret = 0 \<and> pid + 1 \<le> psize this' \<or>
              ret = 1 \<and> psize this' < pid + 1
                \<and> \<not> can_alloc env (nat (next_size this') * 8))"
      using 3 n len wf "1.prems"(2,3) by (intro "1.IH") auto
    then show ?thesis
      using n unfolding step look by fastforce
  qed
qed

text \<open>
  The loop of \<open>procindex_add\<close> does the same when every request is granted; when one is
  refused it leaves a \<open>size\<close> that the block does not have.
\<close>

lemma procindex_grow_eq:
  assumes "opencall_grow env pid this = Inr (ret, this')"
  shows "procindex_grow env pid this
     = Inr (ret, if ret = 0 then this' else this'\<lparr>psize := next_size this'\<rparr>)"
  using assms
proof (induction env pid this rule: opencall_grow.induct)
  case (1 env pid this)
  show ?case
    using "1.prems" "1.IH"
    by (auto simp: opencall_grow.simps [of env pid this] procindex_grow.simps [of env pid this]
        Let_def split: if_splits)
qed

lemma grow_no_need:
  "pid + 1 \<le> psize this \<Longrightarrow> opencall_grow env pid this = Inr (0, this)"
  "pid + 1 \<le> psize this \<Longrightarrow> procindex_grow env pid this = Inr (0, this)"
  by (simp_all add: opencall_grow.simps [of env pid this] procindex_grow.simps [of env pid this])

section \<open>Adding a process\<close>

text \<open>
  Every outcome of \<open>procindex_add\<close> once the table has been grown to \<open>this1\<close>: a process id
  just below the new size is outside the block; a process that is present is reported; a
  parent id just below the size or below -1 is outside the block; a parent that is present is
  looked up in the slot of the new process, which is empty; and only without a parent is the
  call stored, with its parent reset.
\<close>

definition stored :: "execCall \<Rightarrow> execCall" where
  "stored call = call\<lparr>ec_ppid := 0\<rparr>"

lemma procindex_add_cases:
  assumes wf: "pi_wf this" and pid: "0 \<le> ec_pid call" "ec_pid call \<le> maxPid this"
    and grow: "opencall_grow env (ec_pid call) this = Inr (0, this1)"
  shows "procindex_add env this call =
     (if psize this1 = ec_pid call + 1 then Inl OutOfBounds
      else if pi_lookup this1 (ec_pid call) \<noteq> None
      then Inr (ALREADY_EXISTS_IN_CONTAINER, this1, call)
      else if ec_ppid call < -1 \<or> ec_ppid call + 1 = psize this1 then Inl OutOfBounds
      else if pi_lookup this1 (ec_ppid call) \<noteq> None then Inl NullDeref
      else Inr (0, pi_set this1 (ec_pid call) (Some (stored call)), stored call))"
proof -
  have t: "pi_wf this1" "ec_pid call + 1 \<le> psize this1" "maxPid this1 = maxPid this"
    using opencall_grow_spec [OF wf pid, of env] grow by auto
  note len = pi_wfD(1) [OF t(1)]
  have grow': "procindex_grow env (ec_pid call) this = Inr (0, this1)"
    using procindex_grow_eq [OF grow] by simp
  show ?thesis
  proof (cases "psize this1 = ec_pid call + 1")
    case True
    then show ?thesis
      using grow' pid len by (simp add: procindex_add_def Let_def slot_def)
  next
    case False
    then have s: "has_slot this1 (ec_pid call)"
      using t pid by (simp add: has_slot_def)
    note empty0 = slot0_empty [OF t(1)]
    have parent: "(if psize this1 < ec_ppid call + 1 then Inr None
         else slot (procs this1) (ec_ppid call + 1))
       = (if ec_ppid call < -1 \<or> ec_ppid call + 1 = psize this1 then Inl OutOfBounds
          else Inr (pi_lookup this1 (ec_ppid call)))"
    proof (cases "ec_ppid call = -1")
      case True
      then show ?thesis
        using len empty0 pi_wfD(2) [OF t(1)] by (simp add: slot_def pi_lookup_def)
    next
      case False
      then show ?thesis
        using len by (auto simp: slot_def pi_lookup_def)
    qed
    show ?thesis
      using False s t pid grow' parent pi_slot [OF t(1) s] pi_set_slot [OF t(1) s]
      by (auto simp: procindex_add_def Let_def stored_def pi_set_def)
  qed
qed

lemma procindex_add_refused:
  assumes "ec_pid call < 0 \<or> maxPid this < ec_pid call"
  shows "procindex_add env this call = Inr (-1, this, call)"
  using assms by (simp add: procindex_add_def Let_def)

lemma procindex_add_stores:
  assumes wf: "pi_wf this" and slot: "has_slot this (ec_pid call)"
    and fresh: "pi_lookup this (ec_pid call) = None"
    and orphan: "-1 \<le> ec_ppid call" "ec_ppid call + 1 \<noteq> psize this"
      "pi_lookup this (ec_ppid call) = None"
  shows "procindex_add env this call
     = Inr (0, pi_set this (ec_pid call) (Some (stored call)), stored call)"
proof -
  have "0 \<le> ec_pid call" "ec_pid call \<le> maxPid this" "ec_pid call + 1 \<le> psize this"
    using wf slot by (auto simp: has_slot_def pi_wf_def)
  then show ?thesis
    using procindex_add_cases [OF wf _ _ grow_no_need(1)] fresh orphan slot
    by (simp add: has_slot_def)
qed

lemma stored_wf: "calls_wf call \<Longrightarrow> calls_wf (stored call) \<and> ec_ppid (stored call) = 0
    \<and> ec_pid (stored call) = ec_pid call"
  by (simp add: stored_def calls_wf_def)

text \<open>Whatever \<open>procindex_add\<close> returns, the index it returns is sound, unless memory ran out.\<close>

lemma procindex_add_wf:
  assumes wf: "pi_wf this" and call: "calls_wf call"
    and ret: "procindex_add env this call = Inr (ret, this', call')" and ok: "ret \<noteq> 1"
  shows "pi_wf this' \<and> maxPid this' = maxPid this \<and> psize this \<le> psize this'"
proof (cases "ec_pid call < 0 \<or> maxPid this < ec_pid call")
  case True
  with ret wf show ?thesis by (simp add: procindex_add_refused)
next
  case False
  then have pid: "0 \<le> ec_pid call" "ec_pid call \<le> maxPid this" by auto
  obtain r this1 where g: "opencall_grow env (ec_pid call) this = Inr (r, this1)"
    "pi_wf this1" "maxPid this1 = maxPid this" "psize this \<le> psize this1" "r = 0 \<or> r = 1"
    "r = 0 \<longrightarrow> ec_pid call + 1 \<le> psize this1"
    using opencall_grow_spec [OF wf pid, of env] by fastforce
  have "r = 0"
  proof (rule ccontr)
    assume "r \<noteq> 0"
    with g(1,5) procindex_grow_eq [OF g(1)] pid ret ok show False
      by (auto simp: procindex_add_def Let_def)
  qed
  note * = procindex_add_cases [OF wf pid g(1) [unfolded \<open>r = 0\<close>]]
  show ?thesis
  proof (cases "psize this1 = ec_pid call + 1")
    case True
    with * ret show ?thesis by simp
  next
    case False
    then have "has_slot this1 (ec_pid call)"
      using g(6) pid \<open>r = 0\<close> by (simp add: has_slot_def)
    then have "pi_wf (pi_set this1 (ec_pid call) (Some (stored call)))"
      using stored_wf [OF call] by (intro pi_wf_set g(2)) auto
    with * ret g show ?thesis by (auto split: if_splits)
  qed
qed

section \<open>Retrieving a process\<close>

lemma procindex_retrieve_spec:
  assumes "pi_wf this" "has_slot this pid"
  shows "procindex_retrieve this pid = Inr (pi_lookup this pid, pi_set this pid None)"
proof -
  have "this = pi_set this pid None" if "pi_lookup this pid = None"
    using that assms(2) by (simp add: pi_set_def pi_lookup_def has_slot_def)
      (metis list_update_id procindex.surjective procindex.update_convs(1))
  then show ?thesis
    using assms pi_slot [OF assms] pi_set_slot [OF assms, of None]
    by (auto simp: procindex_retrieve_def has_slot_def pi_set_def split: option.splits)
qed

lemma procindex_retrieve_past_end:
  "psize this < pid + 1 \<Longrightarrow> procindex_retrieve this pid = Inr (None, this)"
  by (simp add: procindex_retrieve_def)

section \<open>Tracking parents\<close>

text \<open>
  The loop over the ancestors in general: it only ever sets the flag, and it leaves a set of
  tracked processes that is closed under parents, as long as the process it starts from is
  the only one whose parent may be untracked.
\<close>

definition parent_tracked :: "execCall option list \<Rightarrow> execCall \<Rightarrow> bool" where
  "parent_tracked ps e \<longleftrightarrow>
     (ec_ppid e = 0 \<or> (case ps ! nat (ec_ppid e + 1) of None \<Rightarrow> True
                      | Some p \<Rightarrow> ec_tracked p \<noteq> 0))"

definition links_wf :: "execCall option list \<Rightarrow> bool" where
  "links_wf ps \<longleftrightarrow> (\<forall>i < length ps. \<forall>e. ps ! i = Some e \<longrightarrow>
     0 \<le> ec_ppid e \<and> ec_ppid e + 1 < int (length ps))"

definition tracked_closed :: "execCall option list \<Rightarrow> nat set \<Rightarrow> bool" where
  "tracked_closed ps X \<longleftrightarrow> (\<forall>i < length ps. \<forall>e. ps ! i = Some e \<longrightarrow> ec_tracked e \<noteq> 0 \<longrightarrow>
     i \<notin> X \<longrightarrow> parent_tracked ps e)"

lemma parent_tracked_mono:
  assumes "parent_tracked ps e" "ps ! k = Some p"
  shows "parent_tracked (ps[k := Some (p\<lparr>ec_tracked := 1\<rparr>)]) e"
proof (cases "nat (ec_ppid e + 1) = k \<and> k < length ps")
  case True
  then show ?thesis by (auto simp: parent_tracked_def)
next
  case False
  then have "ps[k := Some (p\<lparr>ec_tracked := 1\<rparr>)] ! nat (ec_ppid e + 1) = ps ! nat (ec_ppid e + 1)"
    by (metis list_update_beyond not_le nth_list_update_neq)
  with assms(1) show ?thesis by (simp add: parent_tracked_def)
qed

lemma links_wf_update:
  "links_wf ps \<Longrightarrow> k < length ps \<Longrightarrow> ps ! k = Some p \<Longrightarrow>
     links_wf (ps[k := Some (p\<lparr>ec_tracked := 1\<rparr>)])"
  by (auto simp: links_wf_def nth_list_update split: if_splits)

lemma tracked_closed_step:
  assumes "tracked_closed ps {c}" "ps ! k = Some p" "ps ! c = Some e" "k < length ps"
    "nat (ec_ppid e + 1) = k" "k \<noteq> c \<or> ec_tracked e \<noteq> 0"
  shows "tracked_closed (ps[k := Some (p\<lparr>ec_tracked := 1\<rparr>)]) {k}"
  unfolding tracked_closed_def
proof (intro allI impI)
  fix i d
  assume i: "i < length (ps[k := Some (p\<lparr>ec_tracked := 1\<rparr>)])"
    and d: "ps[k := Some (p\<lparr>ec_tracked := 1\<rparr>)] ! i = Some d" "ec_tracked d \<noteq> 0" "i \<notin> {k}"
  then have di: "ps ! i = Some d" by simp
  show "parent_tracked (ps[k := Some (p\<lparr>ec_tracked := 1\<rparr>)]) d"
  proof (cases "i = c")
    case True
    with di assms(3) have "d = e" by simp
    then show ?thesis
      using assms(4,5) by (auto simp: parent_tracked_def)
  next
    case False
    with assms(1) i di d(2) have "parent_tracked ps d"
      by (auto simp: tracked_closed_def)
    then show ?thesis
      using assms(2) by (rule parent_tracked_mono)
  qed
qed

text \<open>How one index relates to another in which more processes are tracked.\<close>

definition flagged :: "execCall option \<Rightarrow> execCall option" where
  "flagged = map_option (\<lambda>p. p\<lparr>ec_tracked := 1\<rparr>)"

definition more_tracked :: "execCall option list \<Rightarrow> execCall option list \<Rightarrow> bool" where
  "more_tracked ps qs \<longleftrightarrow> length qs = length ps
     \<and> (\<forall>i < length ps. qs ! i = ps ! i \<or> qs ! i = flagged (ps ! i))"

lemma more_tracked_refl: "more_tracked ps ps"
  by (simp add: more_tracked_def)

lemma flagged_idem [simp]: "flagged (flagged p) = flagged p"
  by (cases p) (simp_all add: flagged_def)

lemma more_tracked_trans: "more_tracked ps qs \<Longrightarrow> more_tracked qs rs \<Longrightarrow> more_tracked ps rs"
  unfolding more_tracked_def by (metis flagged_idem)

lemma more_tracked_update:
  assumes "ps ! k = Some p"
  shows "more_tracked ps (ps[k := Some (p\<lparr>ec_tracked := 1\<rparr>)])"
proof -
  have "ps[k := flagged (ps ! k)] ! i = ps ! i \<or> ps[k := flagged (ps ! k)] ! i = flagged (ps ! i)"
    if "i < length ps" for i
    using that by (cases "i = k") simp_all
  then show ?thesis
    using assms by (simp add: more_tracked_def flagged_def)
qed


text \<open>In an index that \<open>procindex_add\<close> filled, there is no parent to visit.\<close>

lemma trackparents_orphan:
  assumes "pi_wf this" "pi_lookup this pid = Some e"
  shows "procindex_trackparents this pid = Inr this"
proof -
  note e = pi_lookup_wf [OF assms]
  have "slot (procs this) (pid + 1) = Inr (Some e)"
    using pi_slot [OF assms(1) e(4)] assms(2) by simp
  moreover have "slot (procs this) (ec_ppid e + 1) = Inr (pi_lookup this 0)"
    using pi_slot [OF assms(1), of 0] e(3,4) by (simp add: has_slot_def)
  ultimately show ?thesis
    using e(3) by (auto simp: procindex_trackparents.simps [of this pid] split: option.splits)
qed

section \<open>Adding an open call\<close>

text \<open>What a call does to the record of its process.\<close>

definition attach :: "execCall \<Rightarrow> openCall \<Rightarrow> execCall" where
  "attach e ocall = e\<lparr>ec_callBuff := (ec_callBuff e)[nat (ec_call_num e) := Some ocall],
     ec_call_num := ec_call_num e + 1,
     ec_tracked := (if ec_tracked e = 0 then 1 else ec_tracked e)\<rparr>"

text \<open>Room for one more call, and two free slots after it.\<close>

definition has_room :: "execCall \<Rightarrow> bool" where
  "has_room e \<longleftrightarrow> calls_wf e \<and> nat (ec_call_num e) + 3 \<le> ec_callBuff_size e"

definition calls_opt :: "execCall option \<Rightarrow> openCall list" where
  "calls_opt p = (case p of None \<Rightarrow> [] | Some e \<Rightarrow> calls_of e)"

lemma attach_facts:
  assumes "has_room e"
  shows "calls_wf (attach e oc)" "calls_of (attach e oc) = calls_of e @ [oc]"
    "ec_tracked (attach e oc) \<noteq> 0" "ec_pid (attach e oc) = ec_pid e"
    "ec_ppid (attach e oc) = ec_ppid e"
proof -
  have num: "nat (ec_call_num e) < length (ec_callBuff e)" "0 \<le> ec_call_num e"
    "nat (ec_call_num e + 1) = Suc (nat (ec_call_num e))"
    using assms by (auto simp: has_room_def calls_wf_def)
  show "calls_wf (attach e oc)"
    using assms num by (auto simp: has_room_def calls_wf_def attach_def nth_list_update less_Suc_eq)
  show "calls_of (attach e oc) = calls_of e @ [oc]"
    using num by (simp add: calls_of_def attach_def take_Suc_conv_app_nth)
qed (simp_all add: attach_def)

lemma grown_buffer:
  assumes "calls_wf e" "ec_call_num e + 2 = int (ec_callBuff_size e)"
  defines "e' \<equiv> e\<lparr>ec_callBuff := ec_callBuff e @ replicate (ec_callBuff_size e) None,
                 ec_callBuff_size := ec_callBuff_size e * 2\<rparr>"
  shows "has_room e'" "calls_of e' = calls_of e" "ec_pid e' = ec_pid e" "ec_ppid e' = ec_ppid e"
    "ec_tracked e' = ec_tracked e"
  using assms by (auto simp: has_room_def calls_wf_def calls_of_def nth_append)

lemma roomy_buffer:
  assumes "calls_wf e" "ec_call_num e + 2 \<noteq> int (ec_callBuff_size e)"
  shows "has_room e"
  using assms by (auto simp: has_room_def calls_wf_def)

lemma placeholder_facts:
  "has_room (placeholder oc name)" "calls_of (placeholder oc name) = []"
  "ec_pid (placeholder oc name) = oc_pid oc" "ec_ppid (placeholder oc name) = 0"
  "stored (placeholder oc name) = placeholder oc name"
  by (simp_all add: placeholder_def has_room_def calls_wf_def calls_of_def stored_def
      execCall_zero_def)

lemma opencall_target_spec:
  assumes wf: "pi_wf this" and slot: "has_slot this (oc_pid oc)"
    and name: "oc_cmdName oc = Some name" and no0: "pi_lookup this 0 = None"
    and mem2: "can_alloc (mem 2) sizeof_execCall"
  shows "\<exists>ret e. opencall_target mem this oc
            = Inr (ret, if ret = 0 then pi_set this (oc_pid oc) (Some e) else this)
          \<and> (ret = 0 \<and> has_room e \<and> ec_pid e = oc_pid oc \<and> ec_ppid e = 0
               \<and> calls_of e = calls_opt (pi_lookup this (oc_pid oc)) \<or>
             ret = 1 \<and> (\<exists>i n. \<not> can_alloc (mem i) n))"
proof (cases "pi_lookup this (oc_pid oc)")
  case None
  let ?p = "placeholder oc name"
  have "2 \<le> psize this"
    using slot by (simp add: has_slot_def)
  then have "procindex_add (mem 6) this ?p = Inr (0, pi_set this (oc_pid oc) (Some ?p), ?p)"
    using procindex_add_stores [OF wf, of ?p "mem 6"] slot None no0
    by (simp add: placeholder_facts)
  then show ?thesis
    using None name mem2 slot pi_slot [OF wf slot] placeholder_facts [of oc name]
    by (auto simp: opencall_target_def has_slot_def calls_opt_def Let_def)
next
  case (Some e)
  note e = pi_lookup_wf [OF wf Some]
  have same: "this = pi_set this (oc_pid oc) (Some e)"
    using Some slot by (simp add: pi_set_def pi_lookup_def has_slot_def)
      (metis list_update_id procindex.surjective procindex.update_convs(1))
  show ?thesis
  proof (cases "ec_call_num e + 2 = int (ec_callBuff_size e)")
    case True
    let ?e = "e\<lparr>ec_callBuff := ec_callBuff e @ replicate (ec_callBuff_size e) None,
                 ec_callBuff_size := ec_callBuff_size e * 2\<rparr>"
    note g = grown_buffer [OF e(2) True]
    show ?thesis
    proof (cases "can_alloc (mem 1) (ec_callBuff_size e * 2 * 8)")
      case True
      have "opencall_target mem this oc = Inr (0, pi_set this (oc_pid oc) (Some ?e))"
        using Some slot pi_slot [OF wf slot] pi_set_slot [OF wf slot, of "Some ?e"] True
          \<open>ec_call_num e + 2 = int (ec_callBuff_size e)\<close>
        by (simp add: opencall_target_def has_slot_def Let_def pi_set_def)
      then show ?thesis
        using g e Some by (intro exI [of _ 0] exI [of _ ?e]) (simp add: calls_opt_def)
    next
      case False
      then have "opencall_target mem this oc = Inr (1, this)"
        using Some slot pi_slot [OF wf slot] \<open>ec_call_num e + 2 = int (ec_callBuff_size e)\<close>
        by (simp add: opencall_target_def has_slot_def Let_def)
      with False show ?thesis by auto
    qed
  next
    case False
    then have "opencall_target mem this oc = Inr (0, this)"
      using Some slot pi_slot [OF wf slot]
      by (simp add: opencall_target_def has_slot_def Let_def)
    then show ?thesis
      using same roomy_buffer [OF e(2) False] e Some
      by (intro exI [of _ 0] exI [of _ e]) (simp add: calls_opt_def)
  qed
qed

text \<open>From the record that the call belongs to, to the end of the operation.\<close>

lemma opencall_add_runs:
  assumes wf: "pi_wf this" and slot: "has_slot this (oc_pid oc)" and max: "maxPid this0 = maxPid this"
    and grow: "opencall_grow (mem 0) (oc_pid oc) this0 = Inr (0, this)"
    and t: "opencall_target mem this oc = Inr (0, pi_set this (oc_pid oc) (Some e))"
    and e: "has_room e" "ec_pid e = oc_pid oc" "ec_ppid e = 0"
  shows "procindex_opencall_add mem this0 oc = Inr (0, pi_set this (oc_pid oc) (Some (attach e oc)))"
    "pi_wf (pi_set this (oc_pid oc) (Some (attach e oc)))"
proof -
  let ?pid = "oc_pid oc" and ?e = "attach e oc"
  let ?t1 = "pi_set this ?pid (Some e)" and ?t2 = "pi_set this ?pid (Some ?e)"
  have pid: "\<not> (?pid < 0 \<or> maxPid this0 < ?pid)"
    using wf slot max by (auto simp: pi_wf_def has_slot_def)
  note a = attach_facts [OF e(1), of oc]
  have wf1: "pi_wf ?t1" and wf2: "pi_wf ?t2"
    using e a by (auto intro!: pi_wf_set wf slot simp: has_room_def)
  show "pi_wf ?t2" by (rule wf2)
  have buf: "set_slot (ec_callBuff e) (ec_call_num e) (Some oc) = Inr (ec_callBuff ?e)"
    using e(1) by (auto simp: has_room_def calls_wf_def attach_def set_slot_def)
  have rec: "(let e' = e\<lparr>ec_callBuff := ec_callBuff ?e, ec_call_num := ec_call_num e + 1\<rparr>
              in if ec_tracked e' = 0 then e'\<lparr>ec_tracked := 1\<rparr> else e') = ?e"
    by (simp add: attach_def)
  have store: "set_slot (procs ?t1) (?pid + 1) (Some ?e) = Inr (procs ?t2)"
    using pi_set_slot [OF wf1, of ?pid "Some ?e"] slot by (simp add: pi_set_def has_slot_def)
  have same: "pi_set this ?pid (Some e)\<lparr>procs := procs ?t2\<rparr> = ?t2"
    by (simp add: pi_set_def)
  have up: "procindex_trackparents ?t2 (ec_pid ?e) = Inr ?t2"
    using trackparents_orphan [OF wf2, of ?pid ?e] pi_lookup_set [OF wf slot] a(4) e(2) by simp
  show "procindex_opencall_add mem this0 oc = Inr (0, ?t2)"
    using pid grow t pi_slot [OF wf1, of ?pid] slot buf rec store up a(4) pi_lookup_set [OF wf slot]
    by (simp add: procindex_opencall_add_def Let_def same)
qed

lemma opencall_add_outcome:
  assumes wf: "pi_wf this" and slot: "has_slot this (oc_pid oc)"
    and name: "oc_cmdName oc = Some name" and no0: "pi_lookup this 0 = None"
    and mem2: "can_alloc (mem 2) sizeof_execCall"
  shows "\<exists>ret this'. procindex_opencall_add mem this oc = Inr (ret, this') \<and> pi_wf this'
           \<and> psize this' = psize this \<and> maxPid this' = maxPid this
           \<and> (ret = 0 \<and> (\<exists>e. pi_lookup this' = (pi_lookup this)(oc_pid oc := Some e)
                 \<and> ec_tracked e \<noteq> 0
                 \<and> calls_of e = calls_opt (pi_lookup this (oc_pid oc)) @ [oc]) \<or>
              ret = 1 \<and> this' = this \<and> (\<exists>i n. \<not> can_alloc (mem i) n))"
proof -
  let ?pid = "oc_pid oc"
  have pid: "\<not> (?pid < 0 \<or> maxPid this < ?pid)" "?pid + 1 \<le> psize this"
    using wf slot by (auto simp: pi_wf_def has_slot_def)
  obtain ret e where t: "opencall_target mem this oc
       = Inr (ret, if ret = 0 then pi_set this ?pid (Some e) else this)"
    "ret = 0 \<and> has_room e \<and> ec_pid e = ?pid \<and> ec_ppid e = 0
               \<and> calls_of e = calls_opt (pi_lookup this ?pid) \<or>
     ret = 1 \<and> (\<exists>i n. \<not> can_alloc (mem i) n)"
    using opencall_target_spec [where mem = mem, OF wf slot name no0 mem2] by blast
  show ?thesis
  proof (cases "ret = 0")
    case False
    with t pid wf grow_no_need(1) [OF pid(2)] show ?thesis
      by (simp add: procindex_opencall_add_def Let_def)
  next
    case True
    let ?t2 = "pi_set this ?pid (Some (attach e oc))"
    have e: "has_room e" "ec_pid e = ?pid" "ec_ppid e = 0"
      "calls_of e = calls_opt (pi_lookup this ?pid)"
      using t(2) True by auto
    note a = attach_facts [OF e(1), of oc]
    have "opencall_target mem this oc = Inr (0, pi_set this ?pid (Some e))"
      using t(1) True by simp
    note run = opencall_add_runs [OF wf slot refl grow_no_need(1) [OF pid(2)] this e(1-3)]
    have "pi_lookup ?t2 = (pi_lookup this)(?pid := Some (attach e oc))"
      using pi_lookup_set [OF wf slot] by auto
    with run a e(4) show ?thesis by auto
  qed
qed


section \<open>Bounds, creation, destruction\<close>

text \<open>
  With a largest process id below \<open>2 ^ 30 - 1\<close> (Linux allows at most \<open>2 ^ 22\<close>), every sum and
  product the index forms from a process id or a size fits an \<open>int\<close>.
\<close>

lemma index_sums_fit:
  assumes "pi_wf this" "maxPid this < 2 ^ 30 - 1" "0 \<le> pid" "pid \<le> maxPid this"
  shows "psize this * 2 < 2 ^ 31" "next_size this < 2 ^ 31" "pid + 1 < 2 ^ 31"
    "maxPid this + 1 < 2 ^ 31"
  using assms by (auto simp: pi_wf_def next_size_def)

lemma procindex_init_spec:
  assumes max: "0 \<le> get_max_PID f" and grant: "\<forall>n. grants env n"
    and fits: "get_max_PID f < 2 ^ 31"
  shows "\<exists>this'. procindex_init env f this guide = (0, this') \<and> pi_wf this'
           \<and> maxPid this' = get_max_PID f \<and> pi_lookup this' = (\<lambda>_. None)
           \<and> (guide < 1 \<longrightarrow> psize this' = get_max_PID f + 1)"
proof -
  let ?m = "get_max_PID f"
  define n where
    "n = (if guide < 1 then ?m + 1 else if (guide + 1) * 2 < ?m then (guide + 1) * 2 else ?m + 1)"
  have n: "1 \<le> n" "n \<le> ?m + 1" "guide < 1 \<Longrightarrow> n = ?m + 1"
    using max by (auto simp: n_def)
  then have "can_alloc env (nat n * 8)"
    using grant fits by (simp add: can_alloc_def)
  then have "procindex_init env f this guide
      = (0, this\<lparr>maxPid := ?m, procs := replicate (nat n) None, psize := n\<rparr>)"
    using max n(1) by (simp add: procindex_init_def Let_def n_def split: if_splits)
  then show ?thesis
    using n by (simp add: pi_wf_def pi_lookup_def fun_eq_iff)
qed

text \<open>The records in use, in the order of their slots, are the ones that are destroyed.\<close>

lemma destroy_procs_total:
  assumes "i + n \<le> length ps" "\<forall>k e. i \<le> k \<and> k < i + n \<and> ps ! k = Some e \<longrightarrow> calls_wf e"
  shows "\<exists>ps'. destroy_procs i n ps
           = Inr (List.map_filter id (take n (drop i ps)), ps')"
  using assms
proof (induction n arbitrary: i ps)
  case 0
  then show ?case by (simp add: map_filter_simps)
next
  case (Suc n)
  have i: "i < length ps" using Suc.prems(1) by simp
  have split: "take (Suc n) (drop i ps) = ps ! i # take n (drop (Suc i) ps)"
    by (rule take_Suc_drop [OF i])
  have "calls_wf e" if "Suc i \<le> k \<and> k < Suc i + n \<and> ps[i := None] ! k = Some e" for k e
    using Suc.prems(2) that by (auto dest!: spec [of _ k])
  then obtain qs where "destroy_procs (Suc i) n (ps[i := None])
      = Inr (List.map_filter id (take n (drop (Suc i) ps)), qs)"
    using Suc.IH [of "Suc i" "ps[i := None]"] Suc.prems(1) by (auto simp: id_def)
  moreover have "calls_wf e" if "Suc i \<le> k \<and> k < Suc i + n \<and> ps ! k = Some e" for k e
    using Suc.prems(2) that by (auto dest!: spec [of _ k])
  then obtain qs' where "destroy_procs (Suc i) n ps
      = Inr (List.map_filter id (take n (drop (Suc i) ps)), qs')"
    using Suc.IH [of "Suc i" ps] Suc.prems(1) by (auto simp: id_def)
  moreover have "calls_wf e" if "ps ! i = Some e" for e
    using Suc.prems(2) that by (auto dest!: spec [of _ i])
  ultimately show ?case
    using i split by (cases "ps ! i") (simp_all add: execCall_destroy_total map_filter_simps id_def)
qed

lemma procindex_destroy_spec:
  assumes "pi_wf this"
  shows "procindex_destroy this
       = Inr (List.map_filter id (procs this), this\<lparr>procs := []\<rparr>)"
proof -
  have "\<exists>ps'. destroy_procs 0 (length (procs this)) (procs this)
      = Inr (List.map_filter id (take (length (procs this)) (drop 0 (procs this))), ps')"
    using pi_wfD(4) [OF assms] by (intro destroy_procs_total) (auto simp: entry_wf_def)
  then show ?thesis
    using pi_wfD(1) [OF assms] by (auto simp: procindex_destroy_def)
qed

section \<open>Properties\<close>

definition demo_call :: "int \<Rightarrow> int \<Rightarrow> execCall" where
  "demo_call pid ppid = execCall_zero\<lparr>ec_pid := pid, ec_ppid := ppid, ec_cmdName := Some ''sh'',
     ec_args := Some [], ec_callBuff := replicate 8 None, ec_callBuff_size := 8\<rparr>"

definition demo_index :: procindex where
  "demo_index = \<lparr>procs = [None, None, None, Some (demo_call 2 0)], psize = 4, maxPid = 20\<rparr>"

lemma demo_call_wf: "calls_wf (demo_call pid ppid)"
  by (simp add: demo_call_def execCall_zero_def calls_wf_def)

lemma demo_index_wf: "pi_wf demo_index"
  using demo_call_wf [of 2 0]
  by (auto simp: demo_index_def pi_wf_def entry_wf_def demo_call_def execCall_zero_def nth_Cons'
      split: if_splits)

theorem procindex_grow_outcome:
  assumes "pi_wf this" "0 \<le> pid" "pid \<le> maxPid this"
  shows "\<exists>ret this'. procindex_grow env pid this = Inr (ret, this')
     \<and> (ret = 0 \<and> pi_wf this' \<and> pid + 1 \<le> psize this' \<and> pi_lookup this' = pi_lookup this \<or>
        ret = 1 \<and> (\<exists>n. \<not> can_alloc env n) \<and> int (length (procs this')) < psize this')"
proof -
  obtain ret t where t: "opencall_grow env pid this = Inr (ret, t)" "pi_wf t"
    "maxPid t = maxPid this" "pi_lookup t = pi_lookup this"
    "ret = 0 \<and> pid + 1 \<le> psize t \<or>
     ret = 1 \<and> psize t < pid + 1 \<and> \<not> can_alloc env (nat (next_size t) * 8)"
    using opencall_grow_spec [OF assms, of env] by blast
  show ?thesis
  proof (cases "ret = 0")
    case True
    with t procindex_grow_eq [OF t(1)] show ?thesis by auto
  next
    case False
    have "int (length (procs t)) < next_size t"
      using next_size_bounds(1) [OF t(2), of pid] pi_wfD(1) [OF t(2)] t(3,5) False assms(3) by auto
    with False t procindex_grow_eq [OF t(1)] show ?thesis by auto
  qed
qed

theorem procindex_grow_outcome_witness:
  "\<exists>ret this'. procindex_grow roomy 11 demo_index = Inr (ret, this')
     \<and> (ret = 0 \<and> pi_wf this' \<and> 11 + 1 \<le> psize this' \<and> pi_lookup this' = pi_lookup demo_index \<or>
        ret = 1 \<and> (\<exists>n. \<not> can_alloc roomy n) \<and> int (length (procs this')) < psize this')"
  by (rule procindex_grow_outcome [OF demo_index_wf]) (simp_all add: demo_index_def)

theorem procindex_add_outcome:
  assumes "pi_wf this" "has_slot this (ec_pid call)" "-1 \<le> ec_ppid call" "ec_ppid call + 1 \<noteq> psize this"
  shows "procindex_add env this call =
     (if pi_lookup this (ec_pid call) \<noteq> None then Inr (ALREADY_EXISTS_IN_CONTAINER, this, call)
      else if pi_lookup this (ec_ppid call) \<noteq> None then Inl NullDeref
      else Inr (0, pi_set this (ec_pid call) (Some (call\<lparr>ec_ppid := 0\<rparr>)), call\<lparr>ec_ppid := 0\<rparr>))"
proof -
  have pid: "0 \<le> ec_pid call" "ec_pid call \<le> maxPid this" "ec_pid call + 1 \<le> psize this"
    "psize this \<noteq> ec_pid call + 1"
    using assms(1,2) by (auto simp: has_slot_def pi_wf_def)
  show ?thesis
    using procindex_add_cases [OF assms(1) pid(1,2) grow_no_need(1) [OF pid(3)], of env] pid(4) assms(3,4)
    by (simp add: stored_def)
qed

theorem procindex_add_outcome_witness:
  "procindex_add roomy demo_index (demo_call 1 2) =
     (if pi_lookup demo_index (ec_pid (demo_call 1 2)) \<noteq> None
      then Inr (ALREADY_EXISTS_IN_CONTAINER, demo_index, demo_call 1 2)
      else if pi_lookup demo_index (ec_ppid (demo_call 1 2)) \<noteq> None then Inl NullDeref
      else Inr (0, pi_set demo_index (ec_pid (demo_call 1 2)) (Some ((demo_call 1 2)\<lparr>ec_ppid := 0\<rparr>)),
                (demo_call 1 2)\<lparr>ec_ppid := 0\<rparr>))"
  by (rule procindex_add_outcome [OF demo_index_wf])
     (simp_all add: demo_index_def demo_call_def execCall_zero_def has_slot_def)

theorem procindex_slot_past_end:
  assumes "pi_wf this" "0 \<le> ec_pid call" "psize this = ec_pid call + 1"
  shows "procindex_add env this call = Inl OutOfBounds"
proof -
  have pid: "ec_pid call \<le> maxPid this" "ec_pid call + 1 \<le> psize this"
    using assms by (auto simp: pi_wf_def)
  show ?thesis
    using procindex_add_cases [OF assms(1,2) pid(1) grow_no_need(1) [OF pid(2)], of env] assms(3) by simp
qed

theorem procindex_slot_past_end_witness:
  "procindex_add roomy demo_index (demo_call 3 0) = Inl OutOfBounds"
  by (rule procindex_slot_past_end [OF demo_index_wf])
     (simp_all add: demo_index_def demo_call_def execCall_zero_def)

theorem procindex_retrieve_removes:
  assumes "pi_wf this" "has_slot this pid"
  shows "\<exists>this'. procindex_retrieve this pid = Inr (pi_lookup this pid, this') \<and> pi_wf this'
     \<and> pi_lookup this' = (pi_lookup this)(pid := None)"
  using procindex_retrieve_spec [OF assms] pi_wf_set [OF assms, of None] pi_lookup_set [OF assms]
  by auto

theorem procindex_retrieve_removes_witness:
  "\<exists>this'. procindex_retrieve demo_index 2 = Inr (pi_lookup demo_index 2, this') \<and> pi_wf this'
     \<and> pi_lookup this' = (pi_lookup demo_index)(2 := None)"
  by (rule procindex_retrieve_removes [OF demo_index_wf]) (simp add: demo_index_def has_slot_def)

definition demo_open :: "int \<Rightarrow> openCall" where
  "demo_open pid = openCall_zero\<lparr>oc_pid := pid, oc_cmdName := Some ''sh'', oc_filepath := Some ''/tmp''\<rparr>"



end
