(* ===== verification/Parser.thy ===== *)
theory Parser
  imports Calls RingBuffer
begin

text \<open>
  The two threads that turn the text of a trace into records,
  \<open>surv_handleOpenCallSocket\<close> and \<open>surv_handleExecCallSocket\<close> of
  \<open>src/src/watchdog/src/watchdog.c\<close> (lines 541-921).

  Each appends what it receives to a buffer, walks over the bytes of the buffer, collects the
  fields of a line in five field buffers (a tab ends a field, a line feed a line), builds a
  record of a line with five fields, and writes it to a queue. What has not been ended yet
  stays in the buffer for the next round. The walk is written once, with the step that builds
  and queues a record as its parameter: the two copies in the source differ in that step only.

  The walk reads the byte at \<open>end_pos\<close> too, which is not part of the text, and the model
  reads it as well. The sockets are parameters: a run of a thread is a list of what
  \<open>select\<close> and \<open>recv\<close> report, and it ends where the flag \<open>shutting_down\<close> is found set.
  \<open>i\<close> is a natural number here; it stays below the length of the received text.
\<close>

section \<open>State\<close>

text \<open>The local variables of a thread, and the queue it writes to.\<close>

record 'c parser =
  p_sbuf :: stringBuffer
  p_fields :: "stringBuffer list"
  p_curr :: nat
  p_start :: nat
  p_ret :: int
  p_queue :: "'c g_ringBuffer"

text \<open>
  What the surroundings do while one byte is handled: the allocator at the append, at the
  request for the record and inside its constructor; what the memory of the record holds; and
  what the reader of the queue does before each further attempt to write.
\<close>

record 'c parse_env =
  pe_append :: alloc_env
  pe_record :: alloc_env
  pe_init :: "nat \<Rightarrow> alloc_env"
  pe_memory :: 'c
  pe_pause :: "nat \<Rightarrow> 'c g_ringBuffer \<Rightarrow> 'c g_ringBuffer"

definition field_num :: nat where
  "field_num = 5"

definition maxtries_enqueue :: nat where
  "maxtries_enqueue = 3"

definition sizeof_openCall :: nat where
  "sizeof_openCall = 48"

definition sizeof_eCall :: nat where
  "sizeof_eCall = 88"

section \<open>The walk over the buffer\<close>

text \<open>\<open>sb_append(fields+curr_field, sbuf.string+lfield_start)\<close>\<close>

definition put_field :: "alloc_env \<Rightarrow> 'c parser \<Rightarrow> (int \<times> 'c parser) res" where
  "put_field env p =
     bind_r (slot (p_fields p) (int (p_curr p))) (\<lambda>f.
       bind_r (sb_append env f (drop (p_start p) (sb_string (p_sbuf p)))) (\<lambda>(ret, f).
         Inr (ret, p\<lparr>p_fields := (p_fields p)[p_curr p := f]\<rparr>)))"

text \<open>\<open>sbuf.string[i] = '\0'\<close>\<close>

definition end_string :: "nat \<Rightarrow> 'c parser \<Rightarrow> 'c parser res" where
  "end_string i p =
     bind_r (set_slot (sb_string (p_sbuf p)) (int i) NUL) (\<lambda>s.
       Inr (p\<lparr>p_sbuf := (p_sbuf p)\<lparr>sb_string := s\<rparr>\<rparr>))"

fun flush_all :: "stringBuffer list \<Rightarrow> stringBuffer list res" where
  "flush_all [] = Inr []"
| "flush_all (f # fs) =
     bind_r (sb_flush f) (\<lambda>f. bind_r (flush_all fs) (\<lambda>fs. Inr (f # fs)))"

text \<open>
  The two cases of the \<open>switch\<close>. The boolean tells whether the thread leaves the loop for its
  cleanup.
\<close>

definition parse_newline ::
  "('c parse_env \<Rightarrow> 'c parser \<Rightarrow> (bool \<times> 'c parser) res) \<Rightarrow> 'c parse_env \<Rightarrow> nat \<Rightarrow> 'c parser
   \<Rightarrow> (bool \<times> 'c parser) res" where
  "parse_newline finish env i p =
     bind_r (if p_curr p = field_num - 1
             then bind_r (end_string i p) (\<lambda>p.
                    bind_r (put_field (pe_append env) p) (\<lambda>(ret, p).
                      finish env (p\<lparr>p_ret := ret\<rparr>)))
             else Inr (False, p)) (\<lambda>(stop, p).
       if stop then Inr (True, p)
       else let p = p\<lparr>p_start := i + 1, p_curr := 0\<rparr> in
         bind_r (flush_all (p_fields p)) (\<lambda>fs. Inr (False, p\<lparr>p_fields := fs\<rparr>)))"

definition parse_tab :: "'c parse_env \<Rightarrow> nat \<Rightarrow> 'c parser \<Rightarrow> (bool \<times> 'c parser) res" where
  "parse_tab env i p =
     bind_r (end_string i p) (\<lambda>p.
       bind_r (put_field (pe_append env) p) (\<lambda>(_, p).
         Inr (False, p\<lparr>p_curr := p_curr p + 1, p_start := i + 1\<rparr>)))"

definition parse_char ::
  "('c parse_env \<Rightarrow> 'c parser \<Rightarrow> (bool \<times> 'c parser) res) \<Rightarrow> 'c parse_env \<Rightarrow> nat \<Rightarrow> 'c parser
   \<Rightarrow> (bool \<times> 'c parser) res" where
  "parse_char finish env i p =
     bind_r (slot (sb_string (p_sbuf p)) (int i)) (\<lambda>c.
       if c = NL then parse_newline finish env i p
       else if c = TAB then parse_tab env i p
       else Inr (False, p))"

text \<open>\<open>n\<close> rounds of the loop, from index \<open>i\<close> on.\<close>

fun parse_scan ::
  "('c parse_env \<Rightarrow> 'c parser \<Rightarrow> (bool \<times> 'c parser) res) \<Rightarrow> (nat \<Rightarrow> 'c parse_env) \<Rightarrow> nat \<Rightarrow> nat
   \<Rightarrow> 'c parser \<Rightarrow> (bool \<times> 'c parser) res" where
  "parse_scan finish env 0 i p = Inr (False, p)"
| "parse_scan finish env (Suc n) i p =
     bind_r (parse_char finish (env i) i p) (\<lambda>(stop, p).
       if stop then Inr (True, p) else parse_scan finish env n (i + 1) p)"

text \<open>What a thread does with the \<open>rlen\<close> bytes at \<open>buf\<close>.\<close>

definition parse_chunk ::
  "('c parse_env \<Rightarrow> 'c parser \<Rightarrow> (bool \<times> 'c parser) res) \<Rightarrow> alloc_env \<Rightarrow> (nat \<Rightarrow> 'c parse_env)
   \<Rightarrow> 'c parser \<Rightarrow> char list \<Rightarrow> nat \<Rightarrow> (bool \<times> 'c parser) res" where
  "parse_chunk finish mem env p buf rlen =
     bind_r (sb_appendl mem (p_sbuf p) buf rlen) (\<lambda>(ret, sbuf).
       let p = p\<lparr>p_ret := ret, p_sbuf := sbuf\<rparr> in
       if ret \<noteq> 0 then Inr (True, p)
       else bind_r (parse_scan finish env (end_pos sbuf + 1) 0 p) (\<lambda>(stop, p).
         if stop then Inr (True, p)
         else bind_r (sb_deletehead (p_sbuf p) (p_start p)) (\<lambda>sbuf.
           Inr (False, p\<lparr>p_sbuf := sbuf, p_start := 0\<rparr>))))"

section \<open>Building and queueing a record\<close>

text \<open>
  The filter is a radix tree of a library that is not part of the program: \<open>hit key\<close> is the
  result of its search for a prefix of \<open>key\<close>, the path with its terminator.
\<close>

definition openCall_filter__filter :: "(string \<Rightarrow> int) \<Rightarrow> openCall \<Rightarrow> int res" where
  "openCall_filter__filter hit oc =
     bind_r (deref (oc_filepath oc)) (\<lambda>path. Inr (hit (path @ [NUL])))"

text \<open>
  A record of an open call that passes the filter is written to the queue, with three further
  attempts; one that cannot be written is freed, and the thread ends with code 4. \<open>stat\<close> is
  the file system, as in \<open>openCall_init\<close>.
\<close>

definition surv_openCall_finish ::
  "(string \<Rightarrow> int) \<Rightarrow> (string \<Rightarrow> nat option) \<Rightarrow> openCall parse_env \<Rightarrow> openCall parser
   \<Rightarrow> (bool \<times> openCall parser) res" where
  "surv_openCall_finish hit stat env p =
     (if \<not> can_alloc (pe_record env) sizeof_openCall then Inl NullDeref
      else bind_r (openCall_init (pe_init env) stat openCall_zero (p_fields p ! 0)
                     (p_fields p ! 1) (p_fields p ! 2) (p_fields p ! 3) (p_fields p ! 4))
        (\<lambda>(r, oCall, otime).
          let p = p\<lparr>p_fields := (p_fields p)[0 := otime]\<rparr> in
          if r \<noteq> -1 \<and> r \<noteq> NOMINAL then Inr (False, p)
          else bind_r (openCall_filter__filter hit oCall) (\<lambda>pass.
            if pass = 0 then Inr (False, p)
            else bind_r (retry_write g_ringBuffer_write (pe_pause env) maxtries_enqueue
                           (p_queue p) (Some oCall)) (\<lambda>(ret, q).
              if ret \<noteq> 0 then Inr (True, p\<lparr>p_ret := 4, p_queue := q\<rparr>)
              else Inr (False, p\<lparr>p_ret := ret, p_queue := q\<rparr>)))))"

text \<open>
  The record of a started process is not filtered, and one whose constructor fails is left
  alone.
\<close>

definition surv_execCall_finish ::
  "execCall parse_env \<Rightarrow> execCall parser \<Rightarrow> (bool \<times> execCall parser) res" where
  "surv_execCall_finish env p =
     (if \<not> can_alloc (pe_record env) sizeof_eCall then Inl NullDeref
      else bind_r (execCall_init (pe_init env) (pe_memory env) (p_fields p ! 0)
                     (p_fields p ! 1) (p_fields p ! 2) (p_fields p ! 3) (p_fields p ! 4))
        (\<lambda>(r, eCall, otime).
          let p = p\<lparr>p_fields := (p_fields p)[0 := otime]\<rparr> in
          if r \<noteq> -1 \<and> r \<noteq> NOMINAL then Inr (False, p)
          else bind_r (retry_write g_ringBuffer_write (pe_pause env) maxtries_enqueue
                         (p_queue p) (Some eCall)) (\<lambda>(ret, q).
            if ret \<noteq> 0
            then bind_r (execCall_destroy eCall) (\<lambda>_.
                   Inr (True, p\<lparr>p_ret := 4, p_queue := q\<rparr>))
            else Inr (False, p\<lparr>p_ret := ret, p_queue := q\<rparr>))))"

section \<open>The threads\<close>

text \<open>
  One round of \<open>select\<close> and \<open>recv\<close>: the call fails, it times out, bytes arrive (none at the
  end of the stream) while \<open>n\<close> descriptors are ready, or \<open>recv\<close> fails with length -1, which
  is \<open>2 ^ 64 - 1\<close> as a \<open>size_t\<close>, and leaves the 256 bytes of \<open>buf\<close> as they are.
\<close>

datatype sock_event =
    SelectError
  | SelectTimeout
  | Received nat "char list"
  | RecvError nat "char list"

definition surv_openCall_round ::
  "(openCall parse_env \<Rightarrow> openCall parser \<Rightarrow> (bool \<times> openCall parser) res) \<Rightarrow> alloc_env
   \<Rightarrow> (nat \<Rightarrow> openCall parse_env) \<Rightarrow> openCall parser \<Rightarrow> sock_event
   \<Rightarrow> (bool \<times> openCall parser) res" where
  "surv_openCall_round finish mem env p ev =
     (case ev of
        SelectError \<Rightarrow> Inr (True, p\<lparr>p_ret := -1\<rparr>)
      | SelectTimeout \<Rightarrow> Inr (True, p\<lparr>p_ret := 0\<rparr>)
      | Received n bytes \<Rightarrow>
          (if bytes = [] then Inr (True, p\<lparr>p_ret := NOMINAL\<rparr>)
           else parse_chunk finish mem env (p\<lparr>p_ret := NOMINAL\<rparr>) bytes (length bytes))
      | RecvError n buf \<Rightarrow> parse_chunk finish mem env (p\<lparr>p_ret := NOMINAL\<rparr>) buf (2 ^ 64 - 1))"

definition surv_execCall_round ::
  "(execCall parse_env \<Rightarrow> execCall parser \<Rightarrow> (bool \<times> execCall parser) res) \<Rightarrow> alloc_env
   \<Rightarrow> (nat \<Rightarrow> execCall parse_env) \<Rightarrow> execCall parser \<Rightarrow> sock_event
   \<Rightarrow> (bool \<times> execCall parser) res" where
  "surv_execCall_round finish mem env p ev =
     (case ev of
        SelectError \<Rightarrow> Inr (True, p\<lparr>p_ret := -1\<rparr>)
      | SelectTimeout \<Rightarrow> Inr (True, p\<lparr>p_ret := 0\<rparr>)
      | Received n bytes \<Rightarrow>
          (if bytes = [] then Inr (True, p\<lparr>p_ret := int n\<rparr>)
           else parse_chunk finish mem env (p\<lparr>p_ret := int n\<rparr>) bytes (length bytes))
      | RecvError n buf \<Rightarrow> parse_chunk finish mem env (p\<lparr>p_ret := int n\<rparr>) buf (2 ^ 64 - 1))"

text \<open>The loop: round \<open>k\<close> handles event \<open>k\<close>; \<open>shutting_down\<close> is found set at the end.\<close>

fun recv_loop ::
  "(nat \<Rightarrow> 'c parser \<Rightarrow> sock_event \<Rightarrow> (bool \<times> 'c parser) res) \<Rightarrow> nat \<Rightarrow> 'c parser
   \<Rightarrow> sock_event list \<Rightarrow> 'c parser res" where
  "recv_loop round k p [] = Inr p"
| "recv_loop round k p (ev # evs) =
     bind_r (round k p ev) (\<lambda>(stop, p).
       if stop then Inr p else recv_loop round (k + 1) p evs)"

text \<open>The address of the socket, in the 108 bytes of \<open>sun_path\<close>.\<close>

definition strncpy :: "nat \<Rightarrow> string \<Rightarrow> char list" where
  "strncpy n s = take n s @ replicate (n - length s) NUL"

definition sun_path :: "char list \<Rightarrow> char list res" where
  "sun_path socketaddr =
     bind_r (slot socketaddr 0) (\<lambda>c.
       if c = NUL
       then bind_r (c_str (drop 1 socketaddr)) (\<lambda>s. Inr (NUL # strncpy 106 s @ [NUL]))
       else bind_r (c_str socketaddr) (\<lambda>s. Inr (strncpy 107 s @ [NUL])))"

text \<open>
  What a thread finds around it: the allocator at each site (the return code, the receive
  buffer, each field buffer, each append to the receive buffer), what its uninitialised
  field buffers hold, whether a socket is granted, whether a peer answers at a path, and the
  surroundings of each byte of each round.
\<close>

record 'c thread_env =
  te_ret :: alloc_env
  te_sbuf :: alloc_env
  te_field :: "nat \<Rightarrow> alloc_env"
  te_stack :: "nat \<Rightarrow> stringBuffer"
  te_socket :: bool
  te_connect :: "char list \<Rightarrow> bool"
  te_append :: "nat \<Rightarrow> alloc_env"
  te_parse :: "nat \<Rightarrow> nat \<Rightarrow> 'c parse_env"

text \<open>
  The result: the return code and the queue. The flag \<open>processing_..._socket\<close>, which is 0 at
  the end whatever happened, and the log are left out. The field
  buffers of the open call parser are requested one after the other, up to the first that is
  refused; those of the other parser all are, and the results are combined with a bitwise or.
\<close>

fun init_fields :: "(nat \<Rightarrow> alloc_env) \<Rightarrow> (nat \<Rightarrow> stringBuffer) \<Rightarrow> nat \<Rightarrow> nat list
    \<Rightarrow> int \<times> stringBuffer list" where
  "init_fields mem stack k [] = (0, [])"
| "init_fields mem stack k (n # ns) =
     (case sb_init (mem k) (stack k) n of (ret, f) \<Rightarrow>
        if ret \<noteq> 0 then (ret, [])
        else case init_fields mem stack (k + 1) ns of (ret, fs) \<Rightarrow> (ret, f # fs))"

definition surv_handleOpenCallSocket ::
  "openCall thread_env \<Rightarrow> (string \<Rightarrow> int) \<Rightarrow> (string \<Rightarrow> nat option) \<Rightarrow> char list
   \<Rightarrow> openCall g_ringBuffer \<Rightarrow> sock_event list
   \<Rightarrow> (int \<times> openCall g_ringBuffer) res" where
  "surv_handleOpenCallSocket te hit stat socketaddr queue events =
     (if \<not> can_alloc (te_ret te) 4 then Inl NullDeref
      else if \<not> te_socket te then Inr (2, queue)
      else case sb_init (te_sbuf te) sb_null 512 of (ret, sbuf) \<Rightarrow>
        if ret \<noteq> 0 then Inr (ret, queue)
        else bind_r (sun_path socketaddr) (\<lambda>addr.
          if \<not> te_connect te addr then Inr (3, queue)
          else case init_fields (te_field te) (te_stack te) 0 [64, 32, 16, 8, 128] of
            (ret, flds) \<Rightarrow>
              if ret \<noteq> 0 then Inr (ret, queue)
              else bind_r (recv_loop (\<lambda>k. surv_openCall_round (surv_openCall_finish hit stat)
                                             (te_append te k) (te_parse te k)) 0
                             \<lparr>p_sbuf = sbuf, p_fields = flds, p_curr = 0, p_start = 0,
                              p_ret = ret, p_queue = queue\<rparr> events) (\<lambda>p.
                Inr (p_ret p, p_queue p))))"

definition surv_handleExecCallSocket ::
  "execCall thread_env \<Rightarrow> char list \<Rightarrow> execCall g_ringBuffer \<Rightarrow> sock_event list
   \<Rightarrow> (int \<times> execCall g_ringBuffer) res" where
  "surv_handleExecCallSocket te socketaddr queue events =
     (if \<not> can_alloc (te_ret te) 4 then Inl NullDeref
      else if \<not> te_socket te then Inr (2, queue)
      else case sb_init (te_sbuf te) sb_null 512 of (ret, sbuf) \<Rightarrow>
        if ret \<noteq> 0 then Inr (ret, queue)
        else bind_r (sun_path socketaddr) (\<lambda>addr.
          if \<not> te_connect te addr then Inr (3, queue)
          else let inits = map (\<lambda>(k, n). sb_init (te_field te k) (te_stack te k) n)
                             [(0, 64), (1, 32), (2, 16), (3, 16), (4, 128)];
                   ret = foldr (\<lambda>(r, _) acc. if r \<noteq> 0 then 1 else acc) inits 0;
                   flds = map snd inits in
              if ret \<noteq> 0 then Inr (ret, queue)
              else bind_r (recv_loop (\<lambda>k. surv_execCall_round surv_execCall_finish
                                             (te_append te k) (te_parse te k)) 0
                             \<lparr>p_sbuf = sbuf, p_fields = flds, p_curr = 0, p_start = 0,
                              p_ret = ret, p_queue = queue\<rparr> events) (\<lambda>p.
                Inr (p_ret p, p_queue p))))"

end
