(* ===== verification/Lines.thy ===== *)
theory Lines
  imports Prelude
begin

text \<open>
  The format of a trace, apart from any buffer: what the parser threads promise. A line is
  five fields with a tab between two of them and a line feed at the end. \<open>run_lines\<close> reads
  bytes one by one and keeps the finished fields of the current line and the text of the
  current field; it is what the walks of \<open>Parser\<close> are shown to compute, however the bytes are
  cut into pieces. \<open>render_line\<close> is the format written down, and reading undoes it.
\<close>

section \<open>Reading\<close>

text \<open>The lines read, the finished fields of the last one, and its current field.\<close>

fun run_lines :: "string list \<Rightarrow> string \<Rightarrow> string \<Rightarrow> string list list \<times> string list \<times> string" where
  "run_lines fs cur [] = ([], fs, cur)"
| "run_lines fs cur (c # cs) =
     (if c = NL then
        (case run_lines [] [] cs of (ls, st) \<Rightarrow> ((fs @ [cur]) # ls, st))
      else if c = TAB then run_lines (fs @ [cur]) [] cs
      else run_lines fs (cur @ [c]) cs)"

text \<open>Every line that ends has five fields, no line has more, and there is no terminator.\<close>

fun aligned :: "string list \<Rightarrow> string \<Rightarrow> string \<Rightarrow> bool" where
  "aligned fs cur [] \<longleftrightarrow> True"
| "aligned fs cur (c # cs) \<longleftrightarrow> c \<noteq> NUL \<and>
     (if c = NL then length fs = 4 \<and> aligned [] [] cs
      else if c = TAB then length fs < 4 \<and> aligned (fs @ [cur]) [] cs
      else aligned fs (cur @ [c]) cs)"

lemma run_lines_append:
  "run_lines fs cur (s @ t) =
     (case run_lines fs cur s of (ls, fs', cur') \<Rightarrow>
        case run_lines fs' cur' t of (ls', st) \<Rightarrow> (ls @ ls', st))"
  by (induction fs cur s rule: run_lines.induct) (auto split: prod.splits)

lemma aligned_append:
  "aligned fs cur (s @ t) \<longleftrightarrow> aligned fs cur s \<and>
     (case run_lines fs cur s of (_, fs', cur') \<Rightarrow> aligned fs' cur' t)"
  by (induction fs cur s rule: run_lines.induct) (auto split: prod.splits)

text \<open>Bytes of a field: no tab, no line feed, no terminator.\<close>

definition plain :: "string \<Rightarrow> bool" where
  "plain s \<longleftrightarrow> TAB \<notin> set s \<and> NL \<notin> set s"

lemma plain_simps [simp]:
  "plain []" "plain (s @ t) \<longleftrightarrow> plain s \<and> plain t"
  "plain (c # s) \<longleftrightarrow> c \<noteq> TAB \<and> c \<noteq> NL \<and> plain s"
  by (auto simp: plain_def)

lemma plain_subset: "plain s \<Longrightarrow> set t \<subseteq> set s \<Longrightarrow> plain t"
  by (auto simp: plain_def)

lemma plain_drop: "plain s \<Longrightarrow> plain (drop n s)"
  by (erule plain_subset) (rule set_drop_subset)

lemma plain_take: "plain s \<Longrightarrow> plain (take n s)"
  by (erule plain_subset) (rule set_take_subset)

text \<open>The field that is not finished is plain, and the current line short.\<close>

lemma run_lines_rest:
  assumes "plain cur" "NUL \<notin> set cur" "length fs \<le> 4" "aligned fs cur s"
    "run_lines fs cur s = (ls, fs', cur')"
  shows "plain cur' \<and> NUL \<notin> set cur' \<and> length fs' \<le> 4 \<and> length cur' \<le> length cur + length s"
  using assms
  by (induction fs cur s arbitrary: ls fs' cur' rule: run_lines.induct)
     (fastforce split: if_splits prod.splits)+

lemma run_lines_fields:
  assumes "aligned fs cur s" "length fs \<le> 4" "run_lines fs cur s = (ls, fs', cur')"
  shows "\<forall>l \<in> set ls. length l = 5"
  using assms
  by (induction fs cur s arbitrary: ls fs' cur' rule: run_lines.induct)
     (fastforce split: if_splits prod.splits)+

section \<open>Writing\<close>

fun render_fields :: "string list \<Rightarrow> string" where
  "render_fields [] = []"
| "render_fields [f] = f"
| "render_fields (f # g # fs) = f @ TAB # render_fields (g # fs)"

definition render_line :: "string list \<Rightarrow> string" where
  "render_line fs = render_fields fs @ [NL]"

definition render_lines :: "string list list \<Rightarrow> string" where
  "render_lines ls = concat (map render_line ls)"

definition line_ok :: "string list \<Rightarrow> bool" where
  "line_ok l \<longleftrightarrow> length l = 5 \<and> (\<forall>f \<in> set l. plain f \<and> NUL \<notin> set f)"

lemma read_plain:
  assumes "plain f" "NUL \<notin> set f"
  shows "run_lines fs cur (f @ s) = run_lines fs (cur @ f) s"
    "aligned fs cur (f @ s) \<longleftrightarrow> aligned fs (cur @ f) s"
  using assms by (induction f arbitrary: cur) auto

lemma read_fields:
  assumes "l \<noteq> []" "\<forall>f \<in> set l. plain f \<and> NUL \<notin> set f" "length fs + length l = 5"
  shows "run_lines fs [] (render_fields l @ NL # s)
           = (case run_lines [] [] s of (ls, st) \<Rightarrow> ((fs @ l) # ls, st))
         \<and> (aligned fs [] (render_fields l @ NL # s) \<longleftrightarrow> aligned [] [] s)"
  using assms
proof (induction l arbitrary: fs rule: render_fields.induct)
  case 1
  then show ?case by simp
next
  case (2 f)
  then show ?case by (simp add: read_plain)
next
  case (3 f g l)
  from "3.IH" [of "fs @ [f]"] "3.prems" show ?case
    by (simp add: read_plain)
qed

lemma read_render_lines:
  assumes "\<forall>l \<in> set ls. line_ok l"
  shows "run_lines [] [] (render_lines ls) = (ls, [], [])"
    "aligned [] [] (render_lines ls)"
proof -
  have "run_lines [] [] (render_lines ls) = (ls, [], []) \<and> aligned [] [] (render_lines ls)"
    using assms
  proof (induction ls)
    case Nil
    then show ?case by (simp add: render_lines_def)
  next
    case (Cons l ls)
    then have "l \<noteq> []" "\<forall>f \<in> set l. plain f \<and> NUL \<notin> set f" "length [] + length l = 5"
      by (auto simp: line_ok_def)
    note l = read_fields [OF this, of "render_lines ls"]
    have "render_lines (l # ls) = render_fields l @ NL # render_lines ls"
      by (simp add: render_lines_def render_line_def)
    with l Cons show ?case by simp
  qed
  then show "run_lines [] [] (render_lines ls) = (ls, [], [])"
    "aligned [] [] (render_lines ls)" by auto
qed

end
