(* ===== verification/LineParser.thy ===== *)
theory LineParser
  imports Parser Lines
begin

text \<open>
  The walk of the parser threads computes the lines of \<open>Lines\<close>, however the received bytes are
  cut into pieces. The step that builds and queues a record is an interface of its own, the
  locale \<open>record_parser\<close>, with an interpretation for each thread.
\<close>

section \<open>Surroundings in which nothing runs out\<close>

definition good_env :: "'c parse_env \<Rightarrow> bool" where
  "good_env env \<longleftrightarrow> (\<forall>n. grants (pe_append env) n \<and> grants (pe_record env) n
     \<and> (\<forall>k. grants (pe_init env k) n))"

text \<open>
  The walk looks at one byte past the text, which \<open>realloc\<close> may have brought in: no tab and
  no line feed may be there.
\<close>

definition calm :: "alloc_env \<Rightarrow> bool" where
  "calm env \<longleftrightarrow> (\<forall>n. grants env n) \<and> TAB \<notin> range (junk env) \<and> NL \<notin> range (junk env)"

section \<open>The state in the middle of a walk\<close>

definition fields_hold :: "stringBuffer list \<Rightarrow> string list \<Rightarrow> bool" where
  "fields_hold bs fs \<longleftrightarrow> length bs = 5
     \<and> (\<forall>k < 5. holds (bs ! k) (if k < length fs then fs ! k else []))"

text \<open>
  \<open>fs\<close> are the finished fields, \<open>cur\<close> is the part of the current field that was walked over,
  \<open>rest\<close> the part of the text that was not.
\<close>

definition mid :: "'c parser \<Rightarrow> string list \<Rightarrow> string \<Rightarrow> string \<Rightarrow> bool" where
  "mid p fs cur rest \<longleftrightarrow>
     (\<exists>pre tail. sb_string (p_sbuf p) = pre @ cur @ rest @ tail \<and> p_start p = length pre
        \<and> end_pos (p_sbuf p) = length pre + length cur + length rest
        \<and> plain pre \<and> plain tail)
     \<and> sb_wf (p_sbuf p) \<and> plain cur \<and> NUL \<notin> set cur
     \<and> fields_hold (p_fields p) fs \<and> length fs \<le> 4 \<and> p_curr p = length fs"

lemma holds_put:
  assumes "holds b []" "c_str mem = Inr s" "length s < 2 ^ 32" "\<forall>n. grants env n"
  shows "\<exists>b'. sb_append env b mem = Inr (0, b') \<and> holds b' s"
proof -
  have b: "sb_wf b" "sb_terminated b" "sb_text b = []" "end_pos b = 0"
    using assms(1) holds_end_pos [OF assms(1)] by (auto simp: holds_def)
  then obtain ret b' where r: "sb_append env b mem = Inr (ret, b')" "sb_wf b'"
    "ret = 0 \<and> sb_text b' = s \<and> sb_terminated b' \<or> (ret = 1 \<and> (\<exists>n. \<not> grants env n))"
    using sb_append_total [OF b(1) assms(2), of env] assms(3) by fastforce
  then show ?thesis
    using assms(2,4) c_str_no_NUL by (auto simp: holds_def)
qed

lemma fields_hold_update:
  assumes "fields_hold bs fs" "length fs < 5" "holds b' cur"
  shows "fields_hold (bs[length fs := b']) (fs @ [cur])"
proof -
  have bs: "length bs = 5" "\<And>k. k < 5 \<Longrightarrow> holds (bs ! k) (if k < length fs then fs ! k else [])"
    using assms(1) by (auto simp: fields_hold_def)
  have "holds (bs[length fs := b'] ! k)
      (if k < length (fs @ [cur]) then (fs @ [cur]) ! k else [])" if "k < 5" for k
    using bs(1) bs(2) [OF that] that assms(2,3)
    by (cases "k = length fs") (auto simp: nth_append split: if_splits)
  with bs(1) show ?thesis
    by (simp add: fields_hold_def)
qed

lemma fields_hold_next:
  assumes "fields_hold bs fs" "length fs < 5"
  shows "length bs = 5" "holds (bs ! length fs) []"
proof -
  show "length bs = 5"
    using assms by (simp add: fields_hold_def)
  show "holds (bs ! length fs) []"
    using assms unfolding fields_hold_def by (metis less_irrefl)
qed

text \<open>A byte that ends a field: it becomes a terminator, and the field is copied.\<close>

definition ended :: "'c parser \<Rightarrow> string list \<Rightarrow> string \<Rightarrow> string \<Rightarrow> 'c parser \<Rightarrow> bool" where
  "ended p fs cur rest p' \<longleftrightarrow>
     (\<exists>pre tail. sb_string (p_sbuf p') = pre @ rest @ tail
        \<and> p_start p + length cur + 1 = length pre
        \<and> end_pos (p_sbuf p') = length pre + length rest \<and> plain pre \<and> plain tail)
     \<and> sb_wf (p_sbuf p') \<and> fields_hold (p_fields p') (fs @ [cur])
     \<and> p_queue p' = p_queue p \<and> p_curr p' = p_curr p"

lemma end_field:
  assumes mid: "mid p fs cur (c # rest)" and env: "\<forall>n. grants env n"
  shows "\<exists>p1 p2. end_string (p_start p + length cur) p = Inr p1
      \<and> put_field env p1 = Inr (0, p2) \<and> ended p fs cur rest p2"
proof -
  from mid obtain pre tail where s: "sb_string (p_sbuf p) = pre @ cur @ (c # rest) @ tail"
    "p_start p = length pre" "end_pos (p_sbuf p) = length pre + length cur + length (c # rest)"
    "plain pre" "plain tail" "sb_wf (p_sbuf p)" "plain cur" "NUL \<notin> set cur"
    "fields_hold (p_fields p) fs" "length fs \<le> 4" "p_curr p = length fs"
    by (auto simp: mid_def)
  let ?s = "pre @ cur @ NUL # rest @ tail"
  let ?p1 = "p\<lparr>p_sbuf := (p_sbuf p)\<lparr>sb_string := ?s\<rparr>\<rparr>"
  have upd: "(pre @ cur @ c # rest @ tail)[length pre + length cur := NUL] = ?s"
    by (simp add: list_update_append)
  have "set_slot (sb_string (p_sbuf p)) (int (length pre + length cur)) NUL = Inr ?s"
    using s(1) upd by (subst set_slot_in) (simp_all del: of_nat_add)
  then have e: "end_string (p_start p + length cur) p = Inr ?p1"
    using s(2) by (simp add: end_string_def)
  have len: "length cur < 2 ^ 32"
    using s(3,6) by (simp add: sb_wf_def)
  have str: "c_str (drop (length pre) ?s) = Inr cur"
    using s(8) by simp
  have next_f: "length (p_fields p) = 5" "holds (p_fields p ! length fs) []"
    using fields_hold_next [OF s(9)] s(10) by auto
  obtain b' where b': "sb_append env (p_fields p ! length fs) (drop (length pre) ?s) = Inr (0, b')"
    "holds b' cur"
    using holds_put [OF next_f(2) str len env] by auto
  let ?p2 = "?p1\<lparr>p_fields := (p_fields p)[length fs := b']\<rparr>"
  have f: "put_field env ?p1 = Inr (0, ?p2)"
    using b'(1) s(2,10,11) next_f(1) by (simp add: put_field_def)
  have h: "fields_hold (p_fields ?p2) (fs @ [cur])"
    using fields_hold_update [OF s(9) _ b'(2)] s(10) by simp
  have wf: "sb_wf ((p_sbuf p)\<lparr>sb_string := ?s\<rparr>)"
    using s(1,6) by (simp add: sb_wf_def)
  have "ended p fs cur rest ?p2"
    unfolding ended_def
    by (intro conjI exI [of _ "pre @ cur @ [NUL]"] exI [of _ tail]) (use s h wf in simp_all)
  with e f show ?thesis by blast
qed

lemma ended_mid:
  assumes "ended p fs cur rest p'" "p_sbuf q = p_sbuf p'" "p_start q = p_start p + length cur + 1"
    "p_curr q = length fs'" "fields_hold (p_fields q) fs'" "length fs' \<le> 4"
  shows "mid q fs' [] rest"
proof -
  from assms(1) obtain pre tail where *: "sb_string (p_sbuf p') = pre @ rest @ tail"
    "p_start p + length cur + 1 = length pre" "end_pos (p_sbuf p') = length pre + length rest"
    "plain pre" "plain tail" "sb_wf (p_sbuf p')"
    by (auto simp: ended_def)
  show ?thesis
    unfolding mid_def
    by (intro conjI exI [of _ pre] exI [of _ tail]) (use * assms(2-) in simp_all)
qed

lemma parse_tab_ok:
  assumes mid: "mid p fs cur (TAB # rest)" and "good_env env" "length fs < 4"
  shows "\<exists>p'. parse_tab env (p_start p + length cur) p = Inr (False, p')
           \<and> mid p' (fs @ [cur]) [] rest \<and> p_queue p' = p_queue p
           \<and> p_start p' = p_start p + length cur + 1"
proof -
  have "\<forall>n. grants (pe_append env) n"
    using assms(2) by (simp add: good_env_def)
  from end_field [OF mid this] obtain p1 p2 where e:
    "end_string (p_start p + length cur) p = Inr p1" "put_field (pe_append env) p1 = Inr (0, p2)"
    "ended p fs cur rest p2" by blast
  let ?p = "p2\<lparr>p_curr := p_curr p2 + 1, p_start := p_start p + length cur + 1\<rparr>"
  have "p_curr p2 = length fs" "fields_hold (p_fields p2) (fs @ [cur])" "p_queue p2 = p_queue p"
    using e(3) mid by (auto simp: ended_def mid_def)
  moreover from this have "mid ?p (fs @ [cur]) [] rest"
    using assms(3) by (intro ended_mid [OF e(3)]) simp_all
  ultimately show ?thesis
    using e(1,2) by (simp add: parse_tab_def)
qed

lemma flush_all_ok:
  assumes "\<forall>b \<in> set bs. sb_wf b"
  shows "\<exists>bs'. flush_all bs = Inr bs' \<and> length bs' = length bs \<and> (\<forall>b \<in> set bs'. holds b [])"
  using assms
proof (induction bs)
  case Nil
  then show ?case by simp
next
  case (Cons b bs)
  then obtain b' where "sb_flush b = Inr b'" "holds b' []"
    using sb_flush_total [of b] by (auto simp: holds_def)
  with Cons show ?case by auto
qed

lemma mid_next:
  assumes "mid p fs cur (c # rest)" "c \<noteq> TAB" "c \<noteq> NL" "c \<noteq> NUL"
  shows "mid p fs (cur @ [c]) rest"
  using assms by (auto simp: mid_def)

lemma mid_slot:
  assumes "mid p fs cur (c # rest)"
  shows "slot (sb_string (p_sbuf p)) (int (p_start p + length cur)) = Inr c"
proof -
  obtain pre tail where "sb_string (p_sbuf p) = pre @ cur @ (c # rest) @ tail"
    "p_start p = length pre"
    using assms by (auto simp: mid_def)
  then have "sb_string (p_sbuf p) = (pre @ cur) @ c # rest @ tail"
    "p_start p + length cur = length (pre @ cur)" by simp_all
  then show ?thesis
    by (simp only: slot_def nat_int nth_append_length) simp
qed

text \<open>The byte past the text is neither a tab nor a line feed.\<close>

lemma mid_end:
  assumes "mid p fs cur []"
  shows "parse_char finish env (p_start p + length cur) p = Inr (False, p)"
proof -
  obtain pre tail where s: "sb_string (p_sbuf p) = pre @ cur @ tail" "p_start p = length pre"
    "end_pos (p_sbuf p) = length pre + length cur" "plain tail" "sb_wf (p_sbuf p)"
    using assms by (auto simp: mid_def)
  then obtain x xs where t: "tail = x # xs"
    by (cases tail) (auto simp: sb_wf_def)
  then have "sb_string (p_sbuf p) = (pre @ cur) @ x # xs"
    "p_start p + length cur = length (pre @ cur)"
    using s(1,2) by simp_all
  then have "slot (sb_string (p_sbuf p)) (int (p_start p + length cur)) = Inr x"
    by (simp only: slot_def nat_int nth_append_length) simp
  then show ?thesis
    using s(4) t by (simp add: parse_char_def)
qed

section \<open>The state between two rounds\<close>

text \<open>The buffer holds the text of the current field, and no byte of its block can be taken for
  the end of a field.\<close>

definition at_rest :: "'c parser \<Rightarrow> string list \<Rightarrow> string \<Rightarrow> bool" where
  "at_rest p fs cur \<longleftrightarrow> sb_wf (p_sbuf p) \<and> sb_text (p_sbuf p) = cur
     \<and> plain (sb_string (p_sbuf p)) \<and> NUL \<notin> set cur \<and> p_start p = 0
     \<and> fields_hold (p_fields p) fs \<and> length fs \<le> 4 \<and> p_curr p = length fs"

lemma at_rest_append:
  assumes rest: "at_rest p fs cur" and calm: "calm mem"
    and fits: "length cur + length s < 2 ^ 32"
  shows "\<exists>b. sb_appendl mem (p_sbuf p) s (length s) = Inr (0, b)
           \<and> end_pos b = length (cur @ s) \<and> mid (p\<lparr>p_ret := r, p_sbuf := b\<rparr>) fs [] (cur @ s)"
proof -
  let ?b = "p_sbuf p"
  have b: "sb_wf ?b" "sb_text ?b = cur" "plain (sb_string ?b)" "end_pos ?b = length cur"
    using rest length_sb_text [of ?b] by (auto simp: at_rest_def)
  have fits': "end_pos ?b + length s < 2 ^ 32"
    using fits b(4) by simp
  have grants: "\<forall>n. grants mem n"
    using calm by (simp add: calm_def)
  obtain b1 where b1: "sb_wf b1" "sb_text b1 = cur" "end_pos b1 = length cur"
    "sb_tail b1 \<subseteq> sb_tail ?b \<union> range (junk mem)"
    "length cur + length s < sb_size b1"
    "sb_appendl mem ?b s (length s) = Inr (0, sb_put b1 s [])"
    using sb_appendl_granted [OF b(1) fits' grants] b(2,4) by auto
  note put = sb_put_facts [of b1 s "[]"]
  have p: "sb_wf (sb_put b1 s [])" "sb_text (sb_put b1 s []) = cur @ s"
    "sb_tail (sb_put b1 s []) \<subseteq> sb_tail b1"
    using put b1 fits by auto
  have e: "end_pos (sb_put b1 s []) = length cur + length s"
    using b1(3) by (simp add: sb_put_def)
  have "set (drop (end_pos ?b) (sb_string ?b)) \<subseteq> set (sb_string ?b)"
    by (rule set_drop_subset)
  then have "plain (drop (end_pos (sb_put b1 s [])) (sb_string (sb_put b1 s [])))"
    using p(3) b1(4) b(3) calm unfolding plain_def sb_tail_def calm_def by blast
  moreover have "sb_string (sb_put b1 s [])
      = cur @ s @ drop (end_pos (sb_put b1 s [])) (sb_string (sb_put b1 s []))"
    using p(2) by (metis append.assoc append_take_drop_id sb_text_def)
  ultimately obtain tail where "sb_string (sb_put b1 s []) = cur @ s @ tail" "plain tail"
    by blast
  then have "mid (p\<lparr>p_ret := r, p_sbuf := sb_put b1 s []\<rparr>) fs [] (cur @ s)"
    using rest p(1) e unfolding mid_def at_rest_def
    by (intro conjI exI [of _ "[]"] exI [of _ tail]) simp_all
  then show ?thesis
    using b1(6) e by (intro exI [of _ "sb_put b1 s []"]) simp
qed

lemma mid_deletehead:
  assumes "mid p fs cur []"
  shows "\<exists>b. sb_deletehead (p_sbuf p) (p_start p) = Inr b
           \<and> at_rest (p\<lparr>p_sbuf := b, p_start := 0\<rparr>) fs cur"
proof -
  from assms obtain pre tail where s: "sb_string (p_sbuf p) = pre @ cur @ tail"
    "p_start p = length pre" "end_pos (p_sbuf p) = length pre + length cur"
    "plain pre" "plain tail" "sb_wf (p_sbuf p)" "plain cur" "NUL \<notin> set cur"
    "fields_hold (p_fields p) fs" "length fs \<le> 4" "p_curr p = length fs"
    by (auto simp: mid_def)
  obtain b where b: "sb_deletehead (p_sbuf p) (p_start p) = Inr b" "sb_wf b"
    "sb_text b = drop (p_start p) (sb_text (p_sbuf p))"
    "sb_string b = take (end_pos (p_sbuf p) - p_start p) (drop (p_start p) (sb_string (p_sbuf p)))
       @ NUL # drop (Suc (end_pos (p_sbuf p) - p_start p)) (sb_string (p_sbuf p))"
    by (rule sb_deletehead_eq [OF s(6), of "p_start p"]) blast
  have txt_b: "sb_text b = cur"
    using b(3) s(1-3) by (simp add: sb_text_def)
  have whole: "plain (sb_string (p_sbuf p))"
    using s(1,4,5,7) by simp
  have "plain (sb_string b)"
    unfolding b(4) by (simp add: plain_take plain_drop whole)
  then show ?thesis
    using b(1,2) txt_b s(8-11) by (simp add: at_rest_def)
qed

section \<open>The interface: a step that builds and queues a record\<close>

text \<open>
  \<open>build l\<close> is the record of a line with the fields \<open>l\<close>, if the line makes one. As long as
  memory is granted and the queue has room, \<open>finish\<close> adds just that record to it.
\<close>

locale record_parser =
  fixes finish :: "'c parse_env \<Rightarrow> 'c parser \<Rightarrow> (bool \<times> 'c parser) res"
    and build :: "string list \<Rightarrow> 'c option"
  assumes finish_ok: "good_env env \<Longrightarrow> fields_hold (p_fields p) l \<Longrightarrow> length l = 5 \<Longrightarrow>
      ring_inv (p_queue p) \<Longrightarrow> length (ring_list (p_queue p)) < SIZE_RING \<Longrightarrow>
      \<exists>r bs q. finish env p = Inr (False, p\<lparr>p_ret := r, p_fields := bs, p_queue := q\<rparr>)
        \<and> length bs = 5 \<and> (\<forall>b \<in> set bs. sb_wf b) \<and> ring_inv q
        \<and> ring_list q = ring_list (p_queue p)
            @ map Some (case build l of None \<Rightarrow> [] | Some c \<Rightarrow> [c])"
begin

lemma newline_ok:
  assumes mid: "mid p fs cur (NL # rest)" and env: "good_env env" and "length fs = 4"
    and queue: "ring_inv (p_queue p)" "length (ring_list (p_queue p)) < SIZE_RING"
  shows "\<exists>p'. parse_newline finish env (p_start p + length cur) p = Inr (False, p')
           \<and> mid p' [] [] rest \<and> p_start p' = p_start p + length cur + 1
           \<and> ring_inv (p_queue p') \<and> ring_list (p_queue p') = ring_list (p_queue p)
               @ map Some (case build (fs @ [cur]) of None \<Rightarrow> [] | Some c \<Rightarrow> [c])"
proof -
  have "\<forall>n. grants (pe_append env) n"
    using env by (simp add: good_env_def)
  from end_field [OF mid this] obtain p1 p2 where e:
    "end_string (p_start p + length cur) p = Inr p1" "put_field (pe_append env) p1 = Inr (0, p2)"
    "ended p fs cur rest p2" by blast
  have p2: "p_curr p = field_num - 1" "fields_hold (p_fields p2) (fs @ [cur])"
    "p_queue p2 = p_queue p"
    using e(3) mid \<open>length fs = 4\<close> by (auto simp: ended_def mid_def field_num_def)
  obtain r bs q where f: "finish env (p2\<lparr>p_ret := 0\<rparr>)
        = Inr (False, p2\<lparr>p_ret := r, p_fields := bs, p_queue := q\<rparr>)"
    "length bs = 5" "\<forall>b \<in> set bs. sb_wf b" "ring_inv q"
    "ring_list q = ring_list (p_queue p)
            @ map Some (case build (fs @ [cur]) of None \<Rightarrow> [] | Some c \<Rightarrow> [c])"
    using finish_ok [of env "p2\<lparr>p_ret := 0\<rparr>" "fs @ [cur]"] env p2 queue \<open>length fs = 4\<close> by auto
  obtain bs' where bs': "flush_all bs = Inr bs'" "length bs' = 5" "\<forall>b \<in> set bs'. holds b []"
    using flush_all_ok [OF f(3)] f(2) by auto
  let ?p = "p2\<lparr>p_ret := r, p_fields := bs', p_queue := q,
               p_start := p_start p + length cur + 1, p_curr := 0\<rparr>"
  have "parse_newline finish env (p_start p + length cur) p = Inr (False, ?p)"
    using e(1,2) f(1) bs'(1) p2(1) by (simp add: parse_newline_def)
  moreover have "fields_hold bs' []"
    using bs'(2,3) by (simp add: fields_hold_def)
  then have "mid ?p [] [] rest"
    by (intro ended_mid [OF e(3)]) simp_all
  ultimately show ?thesis
    using f(4,5) by simp
qed

lemma scan_ok:
  assumes "mid p fs cur rest" "\<And>i. good_env (env i)" "aligned fs cur rest"
    and "run_lines fs cur rest = (ls, fs', cur')"
    and "ring_inv (p_queue p)" "length (ring_list (p_queue p)) + length ls \<le> SIZE_RING"
  shows "\<exists>p'. parse_scan finish env (Suc (length rest)) (p_start p + length cur) p = Inr (False, p')
           \<and> mid p' fs' cur' [] \<and> ring_inv (p_queue p')
           \<and> ring_list (p_queue p') = ring_list (p_queue p) @ map Some (List.map_filter build ls)"
  using assms
proof (induction rest arbitrary: p fs cur ls)
  case Nil
  then show ?case
    by (simp add: mid_end map_filter_simps)
next
  case (Cons c rest)
  note env = Cons.prems(2)
  let ?i = "p_start p + length cur"
  have step: "parse_scan finish env (Suc (length (c # rest))) ?i p
      = bind_r (parse_char finish (env ?i) ?i p) (\<lambda>(stop, p).
          if stop then Inr (True, p) else parse_scan finish env (Suc (length rest)) (?i + 1) p)"
    by simp
  note at = mid_slot [OF Cons.prems(1)]
  consider "c = NL" | "c = TAB" | "c \<noteq> NL" "c \<noteq> TAB" by blast
  then show ?case
  proof cases
    case 1
    have nl: "length fs = 4" "aligned [] [] rest"
      using Cons.prems(3) 1 by auto
    obtain ls1 where ls1: "run_lines [] [] rest = (ls1, fs', cur')" "ls = (fs @ [cur]) # ls1"
      using Cons.prems(4) 1 by (auto split: prod.splits)
    obtain p1 where p1: "parse_newline finish (env ?i) ?i p = Inr (False, p1)" "mid p1 [] [] rest"
      "p_start p1 = ?i + 1" "ring_inv (p_queue p1)"
      "ring_list (p_queue p1) = ring_list (p_queue p)
         @ map Some (case build (fs @ [cur]) of None \<Rightarrow> [] | Some c \<Rightarrow> [c])"
      using newline_ok [OF Cons.prems(1) [unfolded 1] env nl(1)] Cons.prems(5,6) ls1(2) by auto
    have "length (ring_list (p_queue p1)) + length ls1 \<le> SIZE_RING"
      using p1(5) ls1(2) Cons.prems(6) by (simp split: option.splits)
    from Cons.IH [OF p1(2) env nl(2) ls1(1) p1(4) this] step at p1 1 ls1(2) show ?thesis
      by (auto simp: parse_char_def map_filter_simps split: option.splits)
  next
    case 2
    have tab: "length fs < 4" "aligned (fs @ [cur]) [] rest"
      "run_lines (fs @ [cur]) [] rest = (ls, fs', cur')"
      using Cons.prems(3,4) 2 by auto
    obtain p1 where p1: "parse_tab (env ?i) ?i p = Inr (False, p1)" "mid p1 (fs @ [cur]) [] rest"
      "p_queue p1 = p_queue p" "p_start p1 = ?i + 1"
      using parse_tab_ok [OF Cons.prems(1) [unfolded 2] env tab(1)] by blast
    from Cons.IH [OF p1(2) env tab(2,3)] p1 Cons.prems(5,6) step at 2 show ?thesis
      by (simp add: parse_char_def)
  next
    case 3
    then have "mid p fs (cur @ [c]) rest" "aligned fs (cur @ [c]) rest"
      "run_lines fs (cur @ [c]) rest = (ls, fs', cur')"
      using Cons.prems(1,3,4) mid_next by auto
    from Cons.IH [OF this(1) env this(2,3) Cons.prems(5,6)] step at 3 show ?thesis
      by (simp add: parse_char_def)
  qed
qed

lemma chunk_ok:
  assumes rest: "at_rest p fs cur" and calm: "calm mem" and env: "\<And>i. good_env (env i)"
    and fits: "length cur + length s < 2 ^ 32" and al: "aligned fs cur s"
    and run: "run_lines fs cur s = (ls, fs', cur')"
    and queue: "ring_inv (p_queue p)" "length (ring_list (p_queue p)) + length ls \<le> SIZE_RING"
  shows "\<exists>p'. parse_chunk finish mem env p s (length s) = Inr (False, p')
           \<and> at_rest p' fs' cur' \<and> ring_inv (p_queue p')
           \<and> ring_list (p_queue p') = ring_list (p_queue p) @ map Some (List.map_filter build ls)"
proof -
  obtain b where b: "sb_appendl mem (p_sbuf p) s (length s) = Inr (0, b)"
    "end_pos b = length (cur @ s)" "mid (p\<lparr>p_ret := 0, p_sbuf := b\<rparr>) fs [] (cur @ s)"
    using at_rest_append [OF rest calm fits, of 0] by blast
  let ?p = "p\<lparr>p_ret := 0, p_sbuf := b\<rparr>"
  have start: "p_start p = 0"
    using rest by (simp add: at_rest_def)
  have cur: "plain cur" "NUL \<notin> set cur"
    using rest plain_take [of "sb_string (p_sbuf p)"] by (auto simp: at_rest_def sb_text_def)
  obtain p1 where p1: "parse_scan finish env (Suc (length (cur @ s))) (p_start ?p + length []) ?p
      = Inr (False, p1)" "mid p1 fs' cur' []" "ring_inv (p_queue p1)"
    "ring_list (p_queue p1) = ring_list (p_queue p) @ map Some (List.map_filter build ls)"
    using scan_ok [of ?p fs "[]" "cur @ s" env ls fs' cur'] b(3) env queue al run
      read_plain [OF cur, of fs "[]" s] by (simp del: parse_scan.simps) blast
  obtain b' where b': "sb_deletehead (p_sbuf p1) (p_start p1) = Inr b'"
    "at_rest (p1\<lparr>p_sbuf := b', p_start := 0\<rparr>) fs' cur'"
    using mid_deletehead [OF p1(2)] by blast
  show ?thesis
    using b(1,2) p1 b' start by (simp add: parse_chunk_def Let_def del: parse_scan.simps)
qed

lemma stream_ok:
  assumes "at_rest p fs cur" and calm: "\<And>k. calm (mem k)" and env: "\<And>k i. good_env (env k i)"
    and round: "\<And>k p n b. b \<noteq> [] \<Longrightarrow> \<exists>r. round k p (Received n b)
        = parse_chunk finish (mem k) (env k) (p\<lparr>p_ret := r\<rparr>) b (length b)"
    and "[] \<notin> snd ` set chunks" "length cur + length (concat (map snd chunks)) < 2 ^ 31"
    and "aligned fs cur (concat (map snd chunks))"
    and "run_lines fs cur (concat (map snd chunks)) = (ls, fs', cur')"
    and "ring_inv (p_queue p)" "length (ring_list (p_queue p)) + length ls \<le> SIZE_RING"
  shows "\<exists>p'. recv_loop round k p (map (\<lambda>(n, b). Received n b) chunks @ evs)
           = recv_loop round (k + length chunks) p' evs
           \<and> at_rest p' fs' cur' \<and> ring_inv (p_queue p')
           \<and> ring_list (p_queue p') = ring_list (p_queue p) @ map Some (List.map_filter build ls)"
  using assms(1,5-)
proof (induction chunks arbitrary: k p fs cur ls)
  case Nil
  then show ?case by (auto simp: map_filter_simps)
next
  case (Cons nb chunks)
  obtain n b where nb: "nb = (n, b)" by (cases nb)
  let ?rest = "concat (map snd chunks)"
  obtain ls1 fs1 cur1 where r1: "run_lines fs cur b = (ls1, fs1, cur1)"
    by (cases "run_lines fs cur b")
  obtain ls2 where r2: "run_lines fs1 cur1 ?rest = (ls2, fs', cur')" and ls: "ls = ls1 @ ls2"
    using Cons.prems(5) nb r1 by (auto simp: run_lines_append split: prod.splits)
  have al: "aligned fs cur b" "aligned fs1 cur1 ?rest"
    using Cons.prems(4) nb r1 by (auto simp: aligned_append)
  have b: "b \<noteq> []" "length cur + length b < 2 ^ 32"
    using Cons.prems(2,3) nb by auto
  obtain r where r: "round k p (Received n b)
      = parse_chunk finish (mem k) (env k) (p\<lparr>p_ret := r\<rparr>) b (length b)"
    using round [OF b(1)] by blast
  have rest: "at_rest (p\<lparr>p_ret := r\<rparr>) fs cur"
    using Cons.prems(1) by (simp add: at_rest_def)
  obtain p1 where p1: "parse_chunk finish (mem k) (env k) (p\<lparr>p_ret := r\<rparr>) b (length b)
      = Inr (False, p1)" "at_rest p1 fs1 cur1" "ring_inv (p_queue p1)"
    "ring_list (p_queue p1) = ring_list (p_queue p) @ map Some (List.map_filter build ls1)"
    using chunk_ok [where env = "env k", OF rest calm [of k] env b(2) al(1) r1] Cons.prems(6,7) ls by auto
  have "plain cur" "NUL \<notin> set cur" "length fs \<le> 4"
    using Cons.prems(1) plain_take [of "sb_string (p_sbuf p)"] by (auto simp: at_rest_def sb_text_def)
  then have len: "length cur1 + length ?rest < 2 ^ 31"
    using run_lines_rest [OF _ _ _ al(1) r1] Cons.prems(3) nb by simp
  have "length (List.map_filter build ls1) \<le> length ls1"
    by (simp add: List.map_filter_def)
  then have room: "length (ring_list (p_queue p1)) + length ls2 \<le> SIZE_RING"
    using p1(4) Cons.prems(7) ls by simp
  have "[] \<notin> snd ` set chunks"
    using Cons.prems(2) by auto
  from Cons.IH [OF p1(2) this len al(2) r2 p1(3) room, of "k + 1"] r p1 nb ls show ?case
    by (simp add: List.map_filter_def)
qed

end

section \<open>The records of a line\<close>

text \<open>The time stamp of a record, and the two kinds of records; \<open>hit\<close> and \<open>stat\<close> as in \<open>Parser\<close>.\<close>

definition stamp_of :: "string \<Rightarrow> timeval option" where
  "stamp_of s =
     (case dropWhile (\<lambda>c. c \<noteq> CHR ''.'') s of
        [] \<Rightarrow> None
      | _ # usec \<Rightarrow> Some \<lparr>tv_sec = atol (takeWhile (\<lambda>c. c \<noteq> CHR ''.'') s), tv_usec = atol usec\<rparr>)"

definition open_of_line ::
  "(string \<Rightarrow> int) \<Rightarrow> (string \<Rightarrow> nat option) \<Rightarrow> string list \<Rightarrow> openCall option" where
  "open_of_line hit stat l =
     (case stamp_of (l ! 0) of None \<Rightarrow> None
      | Some tv \<Rightarrow>
          if hit (l ! 4 @ [NUL]) = 0 then None
          else Some \<lparr>oc_pid = atoi (l ! 2), oc_flag = atoi (l ! 3), oc_cmdName = Some (l ! 1),
                 oc_filepath = Some (l ! 4),
                 oc_inode = (case stat (l ! 4) of None \<Rightarrow> 0 | Some ino \<Rightarrow> ino),
                 oc_time_stamp = tv\<rparr>)"

definition exec_of_line :: "string list \<Rightarrow> execCall option" where
  "exec_of_line l =
     (case stamp_of (l ! 0) of None \<Rightarrow> None
      | Some tv \<Rightarrow>
          Some \<lparr>ec_pid = atoi (l ! 2), ec_ppid = atoi (l ! 3), ec_deadness = 0, ec_tracked = 0,
                ec_call_num = 0, ec_cmdName = Some (l ! 1), ec_args = Some (l ! 4),
                ec_callBuff_size = 8, ec_callBuff = replicate 8 None, ec_time_stamp = tv,
                ec_ptime_stamp = timeval_zero\<rparr>)"

lemma split_at_dot:
  assumes "CHR ''.'' \<notin> set a"
  shows "dropWhile (\<lambda>c. c \<noteq> CHR ''.'') (a @ CHR ''.'' # b) = CHR ''.'' # b"
    "takeWhile (\<lambda>c. c \<noteq> CHR ''.'') (a @ CHR ''.'' # b) = a"
  using assms by (induction a) auto

lemma stamp_of_dot:
  "CHR ''.'' \<notin> set a \<Longrightarrow> stamp_of (a @ CHR ''.'' # b) = Some \<lparr>tv_sec = atol a, tv_usec = atol b\<rparr>"
  by (simp add: stamp_of_def split_at_dot del: dropWhile_append takeWhile_append)

lemma stamp_of_no_dot:
  assumes "CHR ''.'' \<notin> set s"
  shows "stamp_of s = None"
proof -
  have "dropWhile (\<lambda>c. c \<noteq> CHR ''.'') s = []"
    using assms by (auto simp: dropWhile_eq_Nil_conv)
  then show ?thesis by (simp only: stamp_of_def list.case)
qed

lemma fields_hold_all:
  assumes "fields_hold bs l" "length l = 5"
  shows "length bs = 5" "k < 5 \<Longrightarrow> holds (bs ! k) (l ! k)"
  using assms by (auto simp: fields_hold_def)

lemma holds_can_alloc:
  assumes "holds b s" "\<forall>n. grants env n"
  shows "can_alloc env (length s + 1)"
proof -
  have "length s < 2 ^ 32"
    using assms(1) holds_end_pos [OF assms(1)] by (simp add: holds_def sb_wf_def)
  then show ?thesis
    using assms(2) by (simp add: can_alloc_def)
qed

lemma fields_wf_update:
  assumes "fields_hold bs l" "length l = 5" "sb_wf f"
  shows "\<forall>b \<in> set (bs[0 := f]). sb_wf b"
proof
  fix b assume "b \<in> set (bs[0 := f])"
  then obtain k where "k < length (bs[0 := f])" "b = bs[0 := f] ! k"
    by (metis in_set_conv_nth)
  then show "sb_wf b"
    using fields_hold_all [OF assms(1,2)] assms(3)
    by (cases "k = 0") (auto simp: holds_def)
qed

lemma stamp_cases:
  obtains (no_dot) "CHR ''.'' \<notin> set s" "stamp_of s = None"
  | (dot) a b where "s = a @ CHR ''.'' # b" "CHR ''.'' \<notin> set a"
      "stamp_of s = Some \<lparr>tv_sec = atol a, tv_usec = atol b\<rparr>"
proof (cases "CHR ''.'' \<in> set s")
  case True
  then obtain a b where "s = a @ CHR ''.'' # b" "CHR ''.'' \<notin> set a"
    using split_list_first by metis
  then show ?thesis
    using dot [of a b] stamp_of_dot [of a b] by simp
next
  case False
  then show ?thesis
    by (intro no_dot stamp_of_no_dot)
qed

lemma openCall_init_line:
  assumes f: "fields_hold bs l" "length l = 5" and mem: "\<forall>k n. grants (mem k) n"
  shows "\<exists>r oc ts. openCall_init mem stat openCall_zero (bs ! 0) (bs ! 1) (bs ! 2) (bs ! 3) (bs ! 4)
           = Inr (r, oc, ts) \<and> sb_wf ts
         \<and> (case stamp_of (l ! 0) of None \<Rightarrow> r = 2
             | Some tv \<Rightarrow> (r = 0 \<or> r = -1) \<and> oc = \<lparr>oc_pid = atoi (l ! 2), oc_flag = atoi (l ! 3),
                 oc_cmdName = Some (l ! 1), oc_filepath = Some (l ! 4),
                 oc_inode = (case stat (l ! 4) of None \<Rightarrow> 0 | Some ino \<Rightarrow> ino),
                 oc_time_stamp = tv\<rparr>)"
proof -
  note h = fields_hold_all(2) [OF f]
  show ?thesis
  proof (cases "l ! 0" rule: stamp_cases)
    case no_dot
    then show ?thesis
      using init_misaligned(1) [OF h [of 0]] h [of 0] by (auto simp: holds_def)
  next
    case (dot a b)
    have "can_alloc (mem 0) (length (l ! 1) + 1)" "can_alloc (mem 1) (length (l ! 4) + 1)"
      using holds_can_alloc [OF h [of 1], of "mem 0"] holds_can_alloc [OF h [of 4], of "mem 1"] mem
      by simp_all
    from openCall_init_spec [OF _ dot(2) h h h h this, of "bs ! 0" b 2 3 stat openCall_zero]
    obtain ts where "openCall_init mem stat openCall_zero (bs ! 0) (bs ! 1) (bs ! 2) (bs ! 3) (bs ! 4)
      = Inr (case stat (l ! 4) of None \<Rightarrow> -1 | Some _ \<Rightarrow> 0,
             openCall_zero\<lparr>oc_pid := atoi (l ! 2), oc_flag := atoi (l ! 3),
                  oc_cmdName := Some (l ! 1), oc_filepath := Some (l ! 4),
                  oc_inode := (case stat (l ! 4) of None \<Rightarrow> 0 | Some ino \<Rightarrow> ino),
                  oc_time_stamp := \<lparr>tv_sec = atol a, tv_usec = atol b\<rparr>\<rparr>, ts)" "sb_wf ts"
      using h [of 0] dot(1) by auto
    then show ?thesis
      using dot(3) by (simp add: openCall_zero_def split: option.splits)
  qed
qed

lemma execCall_init_line:
  assumes f: "fields_hold bs l" "length l = 5" and mem: "\<forall>k n. grants (mem k) n"
  shows "\<exists>r ec ts. execCall_init mem e0 (bs ! 0) (bs ! 1) (bs ! 2) (bs ! 3) (bs ! 4)
           = Inr (r, ec, ts) \<and> sb_wf ts
         \<and> (case exec_of_line l of None \<Rightarrow> r = 2 | Some e \<Rightarrow> r = 0 \<and> ec = e)"
proof -
  note h = fields_hold_all(2) [OF f]
  show ?thesis
  proof (cases "l ! 0" rule: stamp_cases)
    case no_dot
    then show ?thesis
      using init_misaligned(2) [OF h [of 0]] h [of 0] by (auto simp: holds_def exec_of_line_def)
  next
    case (dot a b)
    have "can_alloc (mem 0) (length (l ! 1) + 1)" "can_alloc (mem 1) (length (l ! 4) + 1)"
      "can_alloc (mem 2) 64"
      using holds_can_alloc [OF h [of 1], of "mem 0"] holds_can_alloc [OF h [of 4], of "mem 1"] mem
      by (simp_all add: can_alloc_def)
    with execCall_init_spec [OF _ dot(2) h h h h this(1,2), of "bs ! 0" b 2 3 e0] h [of 0] dot
    show ?thesis
      by (auto simp: exec_of_line_def)
  qed
qed

lemma enqueue_ok:
  assumes "ring_inv q" "length (ring_list q) < SIZE_RING"
  shows "\<exists>q'. retry_write g_ringBuffer_write pause n q x = Inr (0, q') \<and> ring_inv q'
           \<and> ring_list q' = ring_list q @ [x]"
  using gq.retry_write_first [OF assms] by blast

section \<open>Both threads provide the interface\<close>

interpretation open_p: record_parser "surv_openCall_finish hit stat" "open_of_line hit stat"
  for hit stat
proof unfold_locales
  fix env :: "openCall parse_env" and p :: "openCall parser" and l
  assume env: "good_env env" and f: "fields_hold (p_fields p) l" "length l = 5"
    and q: "ring_inv (p_queue p)" "length (ring_list (p_queue p)) < SIZE_RING"
  let ?bs = "p_fields p"
  have mem: "\<forall>k n. grants (pe_init env k) n" "can_alloc (pe_record env) sizeof_openCall"
    using env by (simp_all add: good_env_def can_alloc_def sizeof_openCall_def)
  obtain r oc ts where i: "openCall_init (pe_init env) stat openCall_zero (?bs ! 0) (?bs ! 1)
      (?bs ! 2) (?bs ! 3) (?bs ! 4) = Inr (r, oc, ts)" "sb_wf ts"
    "case stamp_of (l ! 0) of None \<Rightarrow> r = 2
     | Some tv \<Rightarrow> (r = 0 \<or> r = -1) \<and> oc = \<lparr>oc_pid = atoi (l ! 2), oc_flag = atoi (l ! 3),
                 oc_cmdName = Some (l ! 1), oc_filepath = Some (l ! 4),
                 oc_inode = (case stat (l ! 4) of None \<Rightarrow> 0 | Some ino \<Rightarrow> ino),
                 oc_time_stamp = tv\<rparr>"
    using openCall_init_line [OF f mem(1)] by blast
  obtain q' where w: "retry_write g_ringBuffer_write (pe_pause env) maxtries_enqueue (p_queue p)
      (Some oc) = Inr (0, q')" "ring_inv q'" "ring_list q' = ring_list (p_queue p) @ [Some oc]"
    using enqueue_ok [OF q] by blast
  have bs: "length (?bs[0 := ts]) = 5" "\<forall>b \<in> set (?bs[0 := ts]). sb_wf b"
    using fields_hold_all(1) [OF f] fields_wf_update [OF f i(2)] by auto
  have same: "p\<lparr>p_fields := b\<rparr> = p\<lparr>p_ret := p_ret p, p_fields := b, p_queue := p_queue p\<rparr>" for b
    by simp
  show "\<exists>r bs q. surv_openCall_finish hit stat env p
        = Inr (False, p\<lparr>p_ret := r, p_fields := bs, p_queue := q\<rparr>)
        \<and> length bs = 5 \<and> (\<forall>b \<in> set bs. sb_wf b) \<and> ring_inv q
        \<and> ring_list q = ring_list (p_queue p)
            @ map Some (case open_of_line hit stat l of None \<Rightarrow> [] | Some c \<Rightarrow> [c])"
  proof (cases "open_of_line hit stat l")
    case None
    have "surv_openCall_finish hit stat env p
        = Inr (False, p\<lparr>p_ret := p_ret p, p_fields := ?bs[0 := ts], p_queue := p_queue p\<rparr>)"
      using None i(1,3) mem(2)
      by (auto simp: surv_openCall_finish_def openCall_filter__filter_def open_of_line_def
          split: option.splits if_splits)
    with None bs q show ?thesis by fastforce
  next
    case (Some c)
    then have "c = oc" and "surv_openCall_finish hit stat env p
        = Inr (False, p\<lparr>p_ret := 0, p_fields := ?bs[0 := ts], p_queue := q'\<rparr>)"
      using i(1,3) mem(2) w(1)
      by (auto simp: surv_openCall_finish_def openCall_filter__filter_def open_of_line_def
          split: option.splits if_splits)
    with Some bs w show ?thesis by fastforce
  qed
qed

interpretation exec_p: record_parser surv_execCall_finish exec_of_line
proof unfold_locales
  fix env :: "execCall parse_env" and p :: "execCall parser" and l
  assume env: "good_env env" and f: "fields_hold (p_fields p) l" "length l = 5"
    and q: "ring_inv (p_queue p)" "length (ring_list (p_queue p)) < SIZE_RING"
  let ?bs = "p_fields p"
  have mem: "\<forall>k n. grants (pe_init env k) n" "can_alloc (pe_record env) sizeof_eCall"
    using env by (simp_all add: good_env_def can_alloc_def sizeof_eCall_def)
  obtain r ec ts where i: "execCall_init (pe_init env) (pe_memory env) (?bs ! 0) (?bs ! 1)
      (?bs ! 2) (?bs ! 3) (?bs ! 4) = Inr (r, ec, ts)" "sb_wf ts"
    "case exec_of_line l of None \<Rightarrow> r = 2 | Some e \<Rightarrow> r = 0 \<and> ec = e"
    using execCall_init_line [OF f mem(1)] by blast
  obtain q' where w: "retry_write g_ringBuffer_write (pe_pause env) maxtries_enqueue (p_queue p)
      (Some ec) = Inr (0, q')" "ring_inv q'" "ring_list q' = ring_list (p_queue p) @ [Some ec]"
    using enqueue_ok [OF q] by blast
  have bs: "length (?bs[0 := ts]) = 5" "\<forall>b \<in> set (?bs[0 := ts]). sb_wf b"
    using fields_hold_all(1) [OF f] fields_wf_update [OF f i(2)] by auto
  show "\<exists>r bs q. surv_execCall_finish env p
        = Inr (False, p\<lparr>p_ret := r, p_fields := bs, p_queue := q\<rparr>)
        \<and> length bs = 5 \<and> (\<forall>b \<in> set bs. sb_wf b) \<and> ring_inv q
        \<and> ring_list q = ring_list (p_queue p)
            @ map Some (case exec_of_line l of None \<Rightarrow> [] | Some c \<Rightarrow> [c])"
  proof (cases "exec_of_line l")
    case None
    have "surv_execCall_finish env p
        = Inr (False, p\<lparr>p_ret := p_ret p, p_fields := ?bs[0 := ts], p_queue := p_queue p\<rparr>)"
      using None i(1,3) mem(2) by (simp add: surv_execCall_finish_def)
    with None bs q show ?thesis by fastforce
  next
    case (Some c)
    then have "c = ec" and "surv_execCall_finish env p
        = Inr (False, p\<lparr>p_ret := 0, p_fields := ?bs[0 := ts], p_queue := q'\<rparr>)"
      using i(1,3) mem(2) w(1) by (simp_all add: surv_execCall_finish_def)
    with Some bs w show ?thesis by fastforce
  qed
qed

section \<open>A whole run of a thread\<close>

definition good_thread :: "'c thread_env \<Rightarrow> bool" where
  "good_thread te \<longleftrightarrow> can_alloc (te_ret te) 4 \<and> te_socket te \<and> (\<forall>a. te_connect te a)
     \<and> can_alloc (te_sbuf te) 512 \<and> (\<forall>k. can_alloc (te_field te k) 128 \<and> can_alloc (te_field te k) 64
         \<and> can_alloc (te_field te k) 32 \<and> can_alloc (te_field te k) 16 \<and> can_alloc (te_field te k) 8)
     \<and> (\<forall>k. calm (te_append te k) \<and> (\<forall>i. good_env (te_parse te k i)))"

lemma fresh_holds: "0 < n \<Longrightarrow> holds (b\<lparr>sb_string := replicate n NUL, sb_size := n, end_pos := 0\<rparr>) []"
  using sb_fresh [of n b] by (simp add: holds_def)

lemma fresh_sbuf:
  "sb_wf (sb_null\<lparr>sb_string := replicate 512 NUL, sb_size := 512, end_pos := 0\<rparr>)"
  "sb_text (sb_null\<lparr>sb_string := replicate 512 NUL, sb_size := 512, end_pos := 0\<rparr>) = []"
  "plain (replicate n NUL)"
  using sb_fresh [of 512 sb_null] by (auto simp: plain_def)

lemma less_5_cases: "(k :: nat) < 5 \<longleftrightarrow> k = 0 \<or> k = 1 \<or> k = 2 \<or> k = 3 \<or> k = 4"
  by auto

lemma sun_path_total:
  assumes "c_str addr = Inr s" "s \<noteq> []"
  shows "\<exists>a. sun_path addr = Inr a \<and> length a = 108"
proof -
  obtain c s' where c: "s = c # s'" using assms(2) by (cases s) auto
  moreover obtain rest where "addr = s @ NUL # rest"
    using c_str_split [OF assms(1)] by blast
  moreover have "c \<noteq> NUL"
    using c_str_no_NUL [OF assms(1)] c by auto
  ultimately show ?thesis
    using assms(1) by (simp add: sun_path_def strncpy_def slot_def)
qed

lemma init_fields_ok:
  assumes "\<forall>k. \<forall>n \<in> set ns. can_alloc (mem k) n \<and> 0 < n"
  shows "\<exists>flds. init_fields mem stack k ns = (0, flds) \<and> length flds = length ns
           \<and> (\<forall>f \<in> set flds. holds f [])"
  using assms
proof (induction ns arbitrary: k)
  case Nil
  then show ?case by simp
next
  case (Cons n ns)
  obtain flds where "init_fields mem stack (k + 1) ns = (0, flds)" "length flds = length ns"
    "\<forall>f \<in> set flds. holds f []"
    using Cons by (meson list.set_intros(2))
  with Cons.prems fresh_holds [of n] show ?case
    by (simp add: sb_init_total)
qed

lemma thread_inits:
  assumes "good_thread te"
  shows "\<exists>flds. init_fields (te_field te) (te_stack te) 0 [64, 32, 16, 8, 128] = (0, flds)
           \<and> fields_hold flds []"
    and "\<exists>flds. map (\<lambda>(k, n). sb_init (te_field te k) (te_stack te k) n)
             [(0, 64), (1, 32), (2, 16), (3, 16), (4, 128)] = map (Pair 0) flds
           \<and> fields_hold flds []"
proof -
  have "\<forall>k. \<forall>n \<in> set [64, 32, 16, 8, 128]. can_alloc (te_field te k) n \<and> 0 < n"
    using assms by (simp add: good_thread_def)
  from init_fields_ok [OF this, of "te_stack te" 0]
  show "\<exists>flds. init_fields (te_field te) (te_stack te) 0 [64, 32, 16, 8, 128] = (0, flds)
           \<and> fields_hold flds []"
    by (auto simp: fields_hold_def)
  let ?f = "\<lambda>k n. (te_stack te k)\<lparr>sb_string := replicate n NUL, sb_size := n, end_pos := 0\<rparr>"
  let ?fs = "[?f 0 64, ?f 1 32, ?f 2 16, ?f 3 16, ?f 4 128]"
  have "map (\<lambda>(k, n). sb_init (te_field te k) (te_stack te k) n)
          [(0, 64), (1, 32), (2, 16), (3, 16), (4, 128)] = map (Pair 0) ?fs"
    using assms by (simp add: good_thread_def sb_init_total)
  moreover have "fields_hold ?fs []"
    using fresh_holds by (auto simp: fields_hold_def less_5_cases)
  ultimately show "\<exists>flds. map (\<lambda>(k, n). sb_init (te_field te k) (te_stack te k) n)
             [(0, 64), (1, 32), (2, 16), (3, 16), (4, 128)] = map (Pair 0) flds
           \<and> fields_hold flds []"
    by blast
qed

lemma foldr_no_error: "foldr (\<lambda>(r, _) acc. if r \<noteq> 0 then 1 else acc) (map (Pair 0) xs) (0 :: int) = 0"
  by (induction xs) simp_all

lemma open_thread_total:
  assumes te: "good_thread te" and addr: "c_str addr = Inr s" "s \<noteq> []"
    and ls: "\<forall>l \<in> set ls. line_ok l"
    and chunks: "concat (map snd chunks) = render_lines ls" "[] \<notin> snd ` set chunks"
    and len: "length (render_lines ls) < 2 ^ 31"
    and q: "ring_inv q" "length (ring_list q) + length ls \<le> SIZE_RING"
  shows "\<exists>q'. surv_handleOpenCallSocket te hit stat addr q
             (map (\<lambda>(n, b). Received n b) chunks @ [Received n []]) = Inr (0, q')
           \<and> ring_inv q' \<and> ring_list q'
               = ring_list q @ map Some (List.map_filter (open_of_line hit stat) ls)"
proof -
  obtain a where a: "sun_path addr = Inr a"
    using sun_path_total [OF addr] by blast
  obtain flds where inits: "init_fields (te_field te) (te_stack te) 0 [64, 32, 16, 8, 128] = (0, flds)"
    "fields_hold flds []"
    using thread_inits(1) [OF te] by blast
  let ?sbuf = "sb_null\<lparr>sb_string := replicate 512 NUL, sb_size := 512, end_pos := 0\<rparr>"
  let ?p = "\<lparr>p_sbuf = ?sbuf, p_fields = flds, p_curr = 0, p_start = 0, p_ret = 0, p_queue = q\<rparr>"
  let ?round = "\<lambda>k. surv_openCall_round (surv_openCall_finish hit stat) (te_append te k) (te_parse te k)"
  have rest: "at_rest ?p [] []"
    using fresh_sbuf inits(2) by (simp add: at_rest_def)
  obtain p' where p': "recv_loop ?round 0 ?p
        (map (\<lambda>(n, b). Received n b) chunks @ [Received n []])
      = recv_loop ?round (0 + length chunks) p' [Received n []]"
    "ring_inv (p_queue p')"
    "ring_list (p_queue p')
      = ring_list q @ map Some (List.map_filter (open_of_line hit stat) ls)"
    using open_p.stream_ok [where mem = "te_append te" and env = "te_parse te" and round = ?round
        and chunks = chunks and ls = ls and fs' = "[]" and cur' = "[]" and hit = hit and stat = stat
        and k = 0 and evs = "[Received n []]", OF rest] te chunks len q read_render_lines [OF ls]
    by (auto simp: good_thread_def surv_openCall_round_def)
  have loop: "recv_loop ?round 0 ?p (map (\<lambda>(n, b). Received n b) chunks @ [Received n []])
      = Inr (p'\<lparr>p_ret := 0\<rparr>)"
    unfolding p'(1) by (simp add: surv_openCall_round_def)
  have "surv_handleOpenCallSocket te hit stat addr q
      (map (\<lambda>(n, b). Received n b) chunks @ [Received n []]) = Inr (0, p_queue p')"
    unfolding surv_handleOpenCallSocket_def using te a inits(1)
    by (simp add: good_thread_def sb_init_total loop del: recv_loop.simps)
  with p' show ?thesis by simp
qed


lemma exec_thread_total:
  assumes te: "good_thread te" and addr: "c_str addr = Inr s" "s \<noteq> []"
    and ls: "\<forall>l \<in> set ls. line_ok l"
    and chunks: "concat (map snd chunks) = render_lines ls" "[] \<notin> snd ` set chunks"
    and len: "length (render_lines ls) < 2 ^ 31"
    and q: "ring_inv q" "length (ring_list q) + length ls \<le> SIZE_RING"
  shows "\<exists>q'. surv_handleExecCallSocket te addr q
             (map (\<lambda>(n, b). Received n b) chunks @ [Received n []]) = Inr (int n, q')
           \<and> ring_inv q' \<and> ring_list q'
               = ring_list q @ map Some (List.map_filter exec_of_line ls)"
proof -
  obtain a where a: "sun_path addr = Inr a"
    using sun_path_total [OF addr] by blast
  let ?inits = "map (\<lambda>(k, n). sb_init (te_field te k) (te_stack te k) n)
      [(0, 64), (1, 32), (2, 16), (3, 16), (4, 128)]"
  obtain flds where inits: "?inits = map (Pair 0) flds" "fields_hold flds []"
    using thread_inits(2) [OF te] by blast
  let ?sbuf = "sb_null\<lparr>sb_string := replicate 512 NUL, sb_size := 512, end_pos := 0\<rparr>"
  let ?p = "\<lparr>p_sbuf = ?sbuf, p_fields = flds, p_curr = 0, p_start = 0, p_ret = 0, p_queue = q\<rparr>"
  let ?round = "\<lambda>k. surv_execCall_round surv_execCall_finish (te_append te k) (te_parse te k)"
  have rest: "at_rest ?p [] []"
    using fresh_sbuf inits(2) by (simp add: at_rest_def)
  obtain p' where p': "recv_loop ?round 0 ?p
        (map (\<lambda>(n, b). Received n b) chunks @ [Received n []])
      = recv_loop ?round (0 + length chunks) p' [Received n []]"
    "ring_inv (p_queue p')"
    "ring_list (p_queue p') = ring_list q @ map Some (List.map_filter exec_of_line ls)"
    using exec_p.stream_ok [where mem = "te_append te" and env = "te_parse te" and round = ?round
        and chunks = chunks and ls = ls and fs' = "[]" and cur' = "[]"
        and k = 0 and evs = "[Received n []]", OF rest] te chunks len q read_render_lines [OF ls]
    by (auto simp: good_thread_def surv_execCall_round_def)
  have loop: "recv_loop ?round 0 ?p (map (\<lambda>(n, b). Received n b) chunks @ [Received n []])
      = Inr (p'\<lparr>p_ret := int n\<rparr>)"
    unfolding p'(1) by (simp add: surv_execCall_round_def)
  have flds: "map snd (map (Pair (0::int)) flds) = flds"
    by (simp add: comp_def)
  have "surv_handleExecCallSocket te addr q
      (map (\<lambda>(n, b). Received n b) chunks @ [Received n []]) = Inr (int n, p_queue p')"
    unfolding surv_handleExecCallSocket_def Let_def inits(1) flds foldr_no_error using te a
    by (simp add: good_thread_def sb_init_total loop del: recv_loop.simps)
  with p' show ?thesis by simp
qed


section \<open>When something goes wrong\<close>

text \<open>
  Whatever the reader of the queue does meanwhile, a record that was built is either the last
  one of the queue, or the thread gives up with code 4 while the queue is full.
\<close>

definition pause_ok :: "'c parse_env \<Rightarrow> bool" where
  "pause_ok env \<longleftrightarrow> (\<forall>i q. ring_inv q \<longrightarrow> ring_inv (pe_pause env i q))"

definition queued_or_full :: "'c \<Rightarrow> bool \<Rightarrow> 'c parser \<Rightarrow> bool" where
  "queued_or_full c stop p \<longleftrightarrow> ring_inv (p_queue p) \<and>
     (\<not> stop \<and> p_ret p = 0 \<and> (\<exists>ys. ring_list (p_queue p) = ys @ [Some c]) \<or>
      stop \<and> p_ret p = 4 \<and> length (ring_list (p_queue p)) = SIZE_RING)"

lemma open_finish_queue:
  assumes f: "fields_hold (p_fields p) l" "length l = 5" and env: "good_env env" "pause_ok env"
    and q: "ring_inv (p_queue p)" and c: "open_of_line hit stat l = Some c"
  shows "\<exists>stop p'. surv_openCall_finish hit stat env p = Inr (stop, p') \<and> queued_or_full c stop p'"
proof -
  let ?bs = "p_fields p"
  have mem: "\<forall>k n. grants (pe_init env k) n" "can_alloc (pe_record env) sizeof_openCall"
    using env by (simp_all add: good_env_def can_alloc_def sizeof_openCall_def)
  obtain tv where tv: "stamp_of (l ! 0) = Some tv"
    using c by (auto simp: open_of_line_def split: option.splits)
  obtain r oc ts where i: "openCall_init (pe_init env) stat openCall_zero (?bs ! 0) (?bs ! 1)
      (?bs ! 2) (?bs ! 3) (?bs ! 4) = Inr (r, oc, ts)" "r = 0 \<or> r = -1" "oc = c"
    "hit (l ! 4 @ [NUL]) \<noteq> 0" "oc_filepath oc = Some (l ! 4)"
    using openCall_init_line [OF f mem(1), of stat] tv c
    by (auto simp: open_of_line_def split: if_splits)
  obtain ret q' where w: "retry_write g_ringBuffer_write (pe_pause env) maxtries_enqueue (p_queue p)
      (Some c) = Inr (ret, q')" "ring_inv q'"
    "ret = 0 \<and> (\<exists>ys. ring_list q' = ys @ [Some c]) \<or> ret = 1 \<and> length (ring_list q') = SIZE_RING"
    using gq.retry_write_cases [OF q, of "pe_pause env" maxtries_enqueue "Some c"] env(2)
    by (auto simp: pause_ok_def)
  show ?thesis
    using i mem(2) w
    by (auto simp: surv_openCall_finish_def openCall_filter__filter_def queued_or_full_def)
qed

lemma exec_finish_queue:
  assumes f: "fields_hold (p_fields p) l" "length l = 5" and env: "good_env env" "pause_ok env"
    and q: "ring_inv (p_queue p)" and c: "exec_of_line l = Some c"
  shows "\<exists>stop p'. surv_execCall_finish env p = Inr (stop, p') \<and> queued_or_full c stop p'"
proof -
  let ?bs = "p_fields p"
  have mem: "\<forall>k n. grants (pe_init env k) n" "can_alloc (pe_record env) sizeof_eCall"
    using env by (simp_all add: good_env_def can_alloc_def sizeof_eCall_def)
  obtain ts where i: "execCall_init (pe_init env) (pe_memory env) (?bs ! 0) (?bs ! 1)
      (?bs ! 2) (?bs ! 3) (?bs ! 4) = Inr (0, c, ts)"
    using execCall_init_line [OF f mem(1), of "pe_memory env"] c by auto
  obtain ret q' where w: "retry_write g_ringBuffer_write (pe_pause env) maxtries_enqueue (p_queue p)
      (Some c) = Inr (ret, q')" "ring_inv q'"
    "ret = 0 \<and> (\<exists>ys. ring_list q' = ys @ [Some c]) \<or> ret = 1 \<and> length (ring_list q') = SIZE_RING"
    using gq.retry_write_cases [OF q, of "pe_pause env" maxtries_enqueue "Some c"] env(2)
    by (auto simp: pause_ok_def)
  have "calls_wf c"
    using c by (auto simp: exec_of_line_def calls_wf_def split: option.splits)
  then have "\<exists>x. execCall_destroy c = Inr x"
    using execCall_destroy_total by blast
  then show ?thesis
    using i mem(2) w by (auto simp: surv_execCall_finish_def queued_or_full_def)
qed

text \<open>
  A failed \<open>recv\<close> is taken for a message of \<open>2 ^ 64 - 1\<close> bytes. With a field in the buffer the
  sum of the lengths wraps, no room is reserved, and the copy leaves every block; with an empty
  buffer the allocator is asked for more and more until it refuses.
\<close>


section \<open>Properties\<close>

definition demo_parse :: "'c \<Rightarrow> 'c parse_env" where
  "demo_parse x = \<lparr>pe_append = roomy, pe_record = roomy, pe_init = (\<lambda>_. roomy), pe_memory = x,
     pe_pause = (\<lambda>_ q. q)\<rparr>"

definition demo_thread :: "'c \<Rightarrow> 'c thread_env" where
  "demo_thread x = \<lparr>te_ret = roomy, te_sbuf = roomy, te_field = (\<lambda>_. roomy), te_stack = (\<lambda>_. sb_null),
     te_socket = True, te_connect = (\<lambda>_. True), te_append = (\<lambda>_. roomy),
     te_parse = (\<lambda>_ _. demo_parse x)\<rparr>"

definition demo_line :: "string list" where
  "demo_line = [''12'' @ CHR ''.'' # ''034'', ''vi'', ''77'', ''3'', ''/tmp/a'']"

definition demo_queue :: "'a g_ringBuffer" where
  "demo_queue = \<lparr>g_read = 0, g_write = 0, g_buffer = replicate SIZE_RING None\<rparr>"

lemma demo_parse_good: "good_env (demo_parse x)" "pause_ok (demo_parse x)"
  by (simp_all add: demo_parse_def good_env_def pause_ok_def)

lemma demo_thread_good: "good_thread (demo_thread x)"
  by (simp add: demo_thread_def good_thread_def calm_def demo_parse_good NUL_def TAB_def NL_def image_def)

lemma demo_line_ok: "line_ok demo_line"
  by (simp add: demo_line_def line_ok_def plain_def TAB_def NL_def NUL_def)

lemma demo_queue_ok: "ring_inv demo_queue" "ring_list demo_queue = []"
  by (simp_all add: demo_queue_def ring_inv_def ring_list_def ring_items_def g_ringBuffer_size_def)

lemma demo_lines_length: "length (render_lines [demo_line, demo_line]) = 44"
  by (simp add: render_lines_def render_line_def demo_line_def)

lemma demo_cut:
  "[] \<notin> snd ` set [(1, take 9 (render_lines [demo_line, demo_line])),
                   (1 :: nat, drop 9 (render_lines [demo_line, demo_line]))]"
proof -
  have "take 9 (render_lines [demo_line, demo_line]) \<noteq> []"
    "drop 9 (render_lines [demo_line, demo_line]) \<noteq> []"
    using demo_lines_length by (simp_all flip: length_greater_0_conv)
  then show ?thesis by auto
qed

lemma demo_stamp: "stamp_of (demo_line ! 0) = Some \<lparr>tv_sec = atol ''12'', tv_usec = atol ''034''\<rparr>"
  using stamp_of_dot [of "''12''" "''034''"] by (simp add: demo_line_def)



definition demo_parser :: "'c parser" where
  "demo_parser = \<lparr>p_sbuf = text_buffer ''abc'', p_fields = map text_buffer demo_line, p_curr = 4,
     p_start = 0, p_ret = 0, p_queue = demo_queue\<rparr>"

lemma demo_parser_holds: "fields_hold (p_fields demo_parser) demo_line"
  by (simp add: fields_hold_def demo_parser_def demo_line_def less_5_cases all_conj_distrib
      text_buffer_holds NUL_def)

theorem open_finish_queue_witness:
  "\<exists>stop p'. surv_openCall_finish (\<lambda>_. 1) (\<lambda>_. Some 42) (demo_parse openCall_zero) demo_parser
       = Inr (stop, p')
     \<and> queued_or_full (the (open_of_line (\<lambda>_. 1) (\<lambda>_. Some 42) demo_line)) stop p'"
  by (rule open_finish_queue [OF demo_parser_holds _ demo_parse_good])
     (simp add: demo_line_def, simp add: demo_parser_def demo_queue_ok,
      simp add: open_of_line_def demo_stamp)

theorem exec_finish_queue_witness:
  "\<exists>stop p'. surv_execCall_finish (demo_parse execCall_zero) demo_parser = Inr (stop, p')
     \<and> queued_or_full (the (exec_of_line demo_line)) stop p'"
  by (rule exec_finish_queue [OF demo_parser_holds _ demo_parse_good])
     (simp add: demo_line_def, simp add: demo_parser_def demo_queue_ok,
      simp add: exec_of_line_def demo_stamp)


end
