(* ===== verification/Bytes.thy ===== *)
theory Bytes
  imports Prelude
begin

text \<open>
  Integers as the program stores and prints them: little-endian bytes of a fixed width in two's
  complement, and decimal digits as \<open>printf\<close> writes them. Reading back what was written gives
  the number again, for every number of the width.
\<close>

section \<open>Little-endian bytes\<close>

fun le_bytes :: "nat \<Rightarrow> int \<Rightarrow> char list" where
  "le_bytes 0 x = []"
| "le_bytes (Suc n) x = char_of (nat (x mod 256)) # le_bytes n (x div 256)"

fun le_uint :: "char list \<Rightarrow> int" where
  "le_uint [] = 0"
| "le_uint (c # cs) = of_char c + 256 * le_uint cs"

definition le_int :: "char list \<Rightarrow> int" where
  "le_int bs = (let u = le_uint bs; m = 2 ^ (8 * length bs) in if 2 * u < m then u else u - m)"

lemma length_le_bytes [simp]: "length (le_bytes n x) = n"
  by (induction n arbitrary: x) auto

lemma of_char_byte: "of_char (char_of (nat (x mod 256)) :: char) = (x mod 256 :: int)"
proof -
  have "nat (x mod 256) mod 256 = nat (x mod 256)"
    by (simp add: nat_mod_distrib [symmetric])
  then have "(of_char (char_of (nat (x mod 256)) :: char) :: nat) = nat (x mod 256)"
    by (simp only: of_char_of)
  then have "int (of_char (char_of (nat (x mod 256)) :: char)) = int (nat (x mod 256))"
    by (rule arg_cong)
  then show ?thesis
    by (simp only: of_nat_of_char)
qed

lemma le_uint_bytes: "le_uint (le_bytes n x) = x mod 256 ^ n"
proof (induction n arbitrary: x)
  case 0
  then show ?case by simp
next
  case (Suc n)
  have "x mod (256 * 256 ^ n) = 256 * (x div 256 mod 256 ^ n) + x mod 256"
    by (simp add: zmod_zmult2_eq)
  then show ?case
    using Suc by (simp add: of_char_byte)
qed

lemma le_int_bytes:
  assumes "0 < n" "- (2 ^ (8 * n - 1)) \<le> x" "x < 2 ^ (8 * n - 1)"
  shows "le_int (le_bytes n x) = x"
proof -
  let ?h = "2 ^ (8 * n - 1) :: int"
  have m: "(256 :: int) ^ n = 2 * ?h"
  proof -
    have "(256 :: int) ^ n = 2 ^ (8 * n)"
      by (simp add: power_mult)
    also have "8 * n = Suc (8 * n - 1)"
      using assms(1) by simp
    finally show ?thesis
      by (simp only: power_Suc)
  qed
  have e: "(2 :: int) ^ (8 * n) = 2 * ?h"
    using m by (simp add: power_mult)
  show ?thesis
  proof (cases "0 \<le> x")
    case True
    then have "x mod (2 * ?h) = x"
      using assms(3) by (intro mod_pos_pos_trivial) auto
    then show ?thesis
      using assms(3) by (simp add: le_int_def Let_def le_uint_bytes m e)
  next
    case False
    then have "x mod (2 * ?h) = x + 2 * ?h"
      using assms(2) mod_pos_pos_trivial [of "x + 2 * ?h" "2 * ?h"] by (simp del: mult_2)
    then show ?thesis
      using False assms(2) by (simp add: le_int_def Let_def le_uint_bytes m e)
  qed
qed

definition int32_ok :: "int \<Rightarrow> bool" where
  "int32_ok x \<longleftrightarrow> - (2 ^ 31) \<le> x \<and> x < 2 ^ 31"

definition int64_ok :: "int \<Rightarrow> bool" where
  "int64_ok x \<longleftrightarrow> - (2 ^ 63) \<le> x \<and> x < 2 ^ 63"

lemma le_int_4 [simp]: "int32_ok x \<Longrightarrow> le_int (le_bytes 4 x) = x"
  using le_int_bytes [of 4 x] by (simp add: int32_ok_def)

lemma le_int_8 [simp]: "int64_ok x \<Longrightarrow> le_int (le_bytes 8 x) = x"
  using le_int_bytes [of 8 x] by (simp add: int64_ok_def)

definition timeval_ok :: "timeval \<Rightarrow> bool" where
  "timeval_ok tv \<longleftrightarrow> int64_ok (tv_sec tv) \<and> int64_ok (tv_usec tv)"

definition put_timeval :: "timeval \<Rightarrow> char list" where
  "put_timeval tv = le_bytes 8 (tv_sec tv) @ le_bytes 8 (tv_usec tv)"

definition get_timeval :: "char list \<Rightarrow> timeval" where
  "get_timeval bs = \<lparr>tv_sec = le_int (take 8 bs), tv_usec = le_int (take 8 (drop 8 bs))\<rparr>"

lemma length_put_timeval [simp]: "length (put_timeval tv) = 16"
  by (simp add: put_timeval_def)

lemma get_put_timeval [simp]: "timeval_ok tv \<Longrightarrow> get_timeval (put_timeval tv) = tv"
  by (simp add: get_timeval_def put_timeval_def timeval_ok_def)

text \<open>A checked read of \<open>n\<close> bytes at an offset of a block.\<close>

definition read_at :: "char list \<Rightarrow> nat \<Rightarrow> nat \<Rightarrow> char list res" where
  "read_at xs pos n =
     (if pos + n \<le> length xs then Inr (take n (drop pos xs)) else Inl OutOfBounds)"

lemma read_at_mid [simp]:
  "pos = length a \<Longrightarrow> n = length b \<Longrightarrow> read_at (a @ b @ c) pos n = Inr b"
  by (simp add: read_at_def)

section \<open>Decimal digits\<close>

text \<open>\<open>%i\<close> and \<open>%li\<close> of \<open>printf\<close>.\<close>

definition digit :: "nat \<Rightarrow> char" where
  "digit d = char_of (48 + d)"

fun show_nat :: "nat \<Rightarrow> string" where
  "show_nat n = (if n < 10 then [digit n] else show_nat (n div 10) @ [digit (n mod 10)])"

declare show_nat.simps [simp del]

definition show_int :: "int \<Rightarrow> string" where
  "show_int x = (if x < 0 then CHR ''-'' # show_nat (nat (- x)) else show_nat (nat x))"

lemma of_char_digit: "d < 10 \<Longrightarrow> (of_char (digit d) :: nat) = 48 + d"
  by (simp add: digit_def)

lemma of_char_digit_int: "d < 10 \<Longrightarrow> (of_char (digit d) :: int) = 48 + int d"
  using of_char_digit [of d] by (metis of_nat_add of_nat_numeral of_nat_of_char)

lemma is_digit_digit: "d < 10 \<Longrightarrow> is_digit (digit d)"
  by (simp add: is_digit_def of_char_digit)

lemma show_nat_digits: "\<forall>c \<in> set (show_nat n). is_digit c"
proof (induction n rule: show_nat.induct)
  case (1 n)
  then show ?case
    by (cases "n < 10") (auto simp: show_nat.simps [of n] is_digit_digit)
qed

lemma show_nat_neq: "show_nat n \<noteq> []"
  by (simp add: show_nat.simps [of n])

lemma digits_val_app:
  "\<forall>c \<in> set s. is_digit c \<Longrightarrow> digits_val acc (s @ t) = digits_val (digits_val acc s) t"
  by (induction s arbitrary: acc) auto

lemma digits_val_show_nat:
  assumes "t = [] \<or> \<not> is_digit (hd t)"
  shows "digits_val 0 (show_nat n @ t) = int n"
proof -
  have stop: "digits_val a t = a" for a
    using assms by (cases t) auto
  have "digits_val 0 (show_nat n) = int n"
  proof (induction n rule: show_nat.induct)
    case (1 n)
    show ?case
    proof (cases "n < 10")
      case True
      then show ?thesis
        by (simp add: show_nat.simps [of n] is_digit_digit of_char_digit_int)
    next
      case False
      then have "digits_val 0 (show_nat n)
          = digits_val (digits_val 0 (show_nat (n div 10))) [digit (n mod 10)]"
        by (simp add: show_nat.simps [of n] digits_val_app show_nat_digits)
      also have "\<dots> = 10 * int (n div 10) + int (n mod 10)"
        using 1 False by (simp add: is_digit_digit of_char_digit_int)
      also have "\<dots> = int (10 * (n div 10) + n mod 10)"
        by (simp only: of_nat_add of_nat_mult of_nat_numeral)
      finally show ?thesis
        by (simp only: mult_div_mod_eq)
    qed
  qed
  then show ?thesis
    by (simp add: digits_val_app show_nat_digits stop)
qed

lemma digit_not_special:
  assumes "is_digit c"
  shows "\<not> is_space c" "c \<noteq> CHR ''-''" "c \<noteq> CHR ''+''" "c \<noteq> NUL" "c \<noteq> TAB" "c \<noteq> NL" "c \<noteq> CHR ''.''"
  using assms by (auto simp: is_digit_def is_space_def NUL_def TAB_def NL_def)

lemma digit_not_ctrl [simp]:
  "d < 10 \<Longrightarrow> digit d \<noteq> NL" "d < 10 \<Longrightarrow> NL \<noteq> digit d"
  "d < 10 \<Longrightarrow> digit d \<noteq> TAB" "d < 10 \<Longrightarrow> TAB \<noteq> digit d"
  "d < 10 \<Longrightarrow> digit d \<noteq> NUL" "d < 10 \<Longrightarrow> NUL \<noteq> digit d"
  using digit_not_special [OF is_digit_digit] by metis+

text \<open>\<open>atol\<close> reads back what \<open>%li\<close> printed, whatever follows the digits.\<close>

lemma strtol_show_int:
  assumes "t = [] \<or> \<not> is_digit (hd t)"
  shows "strtol_val (show_int x @ t) = x"
proof (cases "x < 0")
  case True
  have "\<not> is_space (CHR ''-'')"
    by (simp add: is_space_def)
  with True show ?thesis
    using digits_val_show_nat [OF assms, of "nat (- x)"]
    by (simp add: show_int_def strtol_val_def)
next
  case False
  obtain c cs where c: "show_nat (nat x) = c # cs"
    using show_nat_neq [of "nat x"] by (cases "show_nat (nat x)") auto
  then have "is_digit c"
    using show_nat_digits [of "nat x"] by simp
  with False c show ?thesis
    using digits_val_show_nat [OF assms, of "nat x"]
    by (simp add: show_int_def strtol_val_def digit_not_special)
qed

lemma atol_show_int:
  assumes "int64_ok x" "t = [] \<or> \<not> is_digit (hd t)"
  shows "atol (show_int x @ t) = x"
  using assms(1) strtol_show_int [OF assms(2)] by (simp add: atol_def int64_ok_def)

lemma atoi_show_int:
  assumes "int32_ok x" "t = [] \<or> \<not> is_digit (hd t)"
  shows "atoi (show_int x @ t) = x"
proof -
  have "atol (show_int x @ t) = x"
    by (rule atol_show_int) (use assms in \<open>auto simp: int32_ok_def int64_ok_def\<close>)
  then show ?thesis
    using assms(1) by (simp add: atoi_def to_int32_id int32_ok_def)
qed

lemma show_int_chars: "c \<in> set (show_int x) \<Longrightarrow> is_digit c \<or> c = CHR ''-''"
  using show_nat_digits by (auto simp: show_int_def split: if_splits)

text \<open>How many characters a number takes.\<close>

lemma length_show_nat: "n < 10 ^ k \<Longrightarrow> 0 < k \<Longrightarrow> length (show_nat n) \<le> k"
proof (induction n arbitrary: k rule: show_nat.induct)
  case (1 n)
  show ?case
  proof (cases "n < 10")
    case True
    with "1.prems" show ?thesis by (simp add: show_nat.simps [of n])
  next
    case False
    obtain j where k: "k = Suc j"
      using "1.prems" by (cases k) auto
    have "0 < j"
      using False "1.prems"(1) k by (cases j) auto
    note k = k this
    then have "n div 10 < 10 ^ j"
      using "1.prems" by (simp add: div_less_iff_less_mult mult.commute)
    with "1.IH" [OF False this k(2)] False k show ?thesis
      by (simp add: show_nat.simps [of n])
  qed
qed

lemma length_show_int64: "int64_ok x \<Longrightarrow> length (show_int x) \<le> 20"
  using length_show_nat [of "nat (- x)" 19] length_show_nat [of "nat x" 19]
  by (auto simp: show_int_def int64_ok_def nat_less_iff)

lemma length_show_int32: "int32_ok x \<Longrightarrow> length (show_int x) \<le> 11"
  using length_show_nat [of "nat (- x)" 10] length_show_nat [of "nat x" 10]
  by (auto simp: show_int_def int32_ok_def nat_less_iff)

end
