(* ===== verification/Records.thy ===== *)
theory Records
  imports Calls Bytes
begin

text \<open>
  The records the program keeps in its databases, as bytes: \<open>src/src/watchdog/src/database.c\<close>,
  lines 9-52, 81-175, 218-282, and \<open>src/src/watchdog/include/database.h\<close>.

  The layout is that of a 64-bit Linux: a \<open>struct timeval\<close> is two 8-byte integers, an \<open>int\<close> and
  a \<open>pid_t\<close> 4 bytes, a \<open>db_eCallKey\<close> 24 bytes with 4 bytes of padding at its end, a
  \<open>db_oCallKey\<close> 120 bytes with 4 bytes of padding. What padding holds is not defined, so it is a
  parameter of the functions that copy a struct. \<open>strlen\<close> of a null pointer is a fault.

  Both kinds of records satisfy the locale \<open>record_codec\<close>: reading the bytes that were written
  gives the stored part of the record.
\<close>

section \<open>State\<close>

record m_object =
  m_buffer :: "char list option"
  m_size :: nat

record db_eCallKey =
  ek_time_stamp :: timeval
  ek_pid :: int

text \<open>Processes are ordered by time stamp, then by process id.\<close>

instantiation db_eCallKey_ext :: (linorder) linorder
begin

definition less_eq_db_eCallKey_ext :: "'a db_eCallKey_ext \<Rightarrow> 'a db_eCallKey_ext \<Rightarrow> bool" where
  "a \<le> b \<longleftrightarrow> ek_time_stamp a < ek_time_stamp b \<or> ek_time_stamp a = ek_time_stamp b \<and>
     (ek_pid a < ek_pid b \<or> ek_pid a = ek_pid b \<and> db_eCallKey.more a \<le> db_eCallKey.more b)"

definition less_db_eCallKey_ext :: "'a db_eCallKey_ext \<Rightarrow> 'a db_eCallKey_ext \<Rightarrow> bool" where
  "a < b \<longleftrightarrow> a \<le> b \<and> \<not> b \<le> (a :: 'a db_eCallKey_ext)"

instance
proof
  fix a b c :: "'a db_eCallKey_ext"
  show "a < b \<longleftrightarrow> a \<le> b \<and> \<not> b \<le> a"
    by (rule less_db_eCallKey_ext_def)
  show "a \<le> a" "a \<le> b \<or> b \<le> a" "a \<le> b \<Longrightarrow> b \<le> c \<Longrightarrow> a \<le> c"
    by (auto simp: less_eq_db_eCallKey_ext_def)
  show "a \<le> b \<Longrightarrow> b \<le> a \<Longrightarrow> a = b"
    by (auto simp: less_eq_db_eCallKey_ext_def intro: db_eCallKey.equality)
qed

end

record eCallRecord =
  er_pid :: int
  er_ppid :: int
  er_parentEcall :: db_eCallKey
  er_time_stamp :: timeval
  er_cmd_name :: "string option"
  er_args :: "string option"
  er_env_args :: "string option"

record oCallRecord =
  or_flag :: int
  or_time_stamp :: timeval
  or_eCallKey :: db_eCallKey
  or_filepath :: "string option"

section \<open>Marshalled objects\<close>

definition m_object_init :: "m_object \<Rightarrow> m_object" where
  "m_object_init m = m\<lparr>m_buffer := None, m_size := 0\<rparr>"

definition m_object_destroy :: "m_object \<Rightarrow> m_object" where
  "m_object_destroy m = m\<lparr>m_buffer := None\<rparr>"

definition m_object_add :: "m_object \<Rightarrow> char list \<Rightarrow> m_object res" where
  "m_object_add m data =
     bind_r (deref (m_buffer m)) (\<lambda>b.
       bind_r (write_at b (m_size m) data) (\<lambda>b.
         Inr (m\<lparr>m_buffer := Some b, m_size := m_size m + length data\<rparr>)))"

text \<open>The new string and the returned length, terminator included.\<close>

definition m_object_buffer_getstring ::
  "alloc_env \<Rightarrow> char list \<Rightarrow> (int \<times> string option) res" where
  "m_object_buffer_getstring env mem =
     bind_r (c_str mem) (\<lambda>s.
       if \<not> can_alloc env (length s + 1) then Inr (-1, None)
       else Inr (int (length s) + 1, Some s))"

definition malloc_block :: "alloc_env \<Rightarrow> nat \<Rightarrow> char list option" where
  "malloc_block env n = (if can_alloc env n then Some (map (junk env) [0..<n]) else None)"

section \<open>Records of processes\<close>

definition eCallKey_zero :: db_eCallKey where
  "eCallKey_zero = \<lparr>ek_time_stamp = timeval_zero, ek_pid = 0\<rparr>"

definition db_execCall_init :: "eCallRecord \<Rightarrow> eCallRecord" where
  "db_execCall_init e = e\<lparr>er_time_stamp := timeval_zero, er_parentEcall := eCallKey_zero,
     er_pid := 0, er_ppid := 0, er_cmd_name := None, er_args := None, er_env_args := None\<rparr>"

definition db_execCall_genKey :: "eCallRecord \<Rightarrow> db_eCallKey" where
  "db_execCall_genKey e = \<lparr>ek_time_stamp = er_time_stamp e, ek_pid = er_pid e\<rparr>"

text \<open>The bytes of a key, with its padding, and a key read from them.\<close>

definition eCallKey_bytes :: "(nat \<Rightarrow> char) \<Rightarrow> db_eCallKey \<Rightarrow> char list" where
  "eCallKey_bytes pad k =
     put_timeval (ek_time_stamp k) @ le_bytes 4 (ek_pid k) @ map pad [0..<4]"

definition get_eCallKey :: "char list \<Rightarrow> db_eCallKey" where
  "get_eCallKey bs =
     \<lparr>ek_time_stamp = get_timeval bs, ek_pid = le_int (take 4 (drop 16 bs))\<rparr>"

definition db_execCall_KeyComp :: "char list \<Rightarrow> char list \<Rightarrow> int res" where
  "db_execCall_KeyComp key1 key2 =
     (if key2 = [] then Inr (if key1 \<noteq> [] then 1 else 0)
      else if key1 = [] then Inr (-1)
      else bind_r (read_at key1 0 24) (\<lambda>d1. bind_r (read_at key2 0 24) (\<lambda>d2.
        let k1 = get_eCallKey d1; k2 = get_eCallKey d2;
            ret = (if timercmp (ek_time_stamp k2) (ek_time_stamp k1) (<) then 1 else 0)
                - (if timercmp (ek_time_stamp k1) (ek_time_stamp k2) (<) then 1 else 0) in
        Inr (if ret = 0 then to_int32 (ek_pid k1 - ek_pid k2) else ret))))"

text \<open>
  \<open>db_execCall_marshall\<close> tests \<open>m_obj\<close> where it means the new buffer, so a refused request is
  followed by a copy through a null pointer. It stores neither the parent's key nor anything
  of it but the parent id.
\<close>

definition db_execCall_marshall ::
  "alloc_env \<Rightarrow> m_object \<Rightarrow> eCallRecord \<Rightarrow> (int \<times> m_object) res" where
  "db_execCall_marshall env m e =
     (if m_buffer m \<noteq> None then Inr (-1, m)
      else bind_r (deref (er_cmd_name e)) (\<lambda>cmd.
        bind_r (deref (er_args e)) (\<lambda>args.
        bind_r (deref (er_env_args e)) (\<lambda>env_args.
          let nSize = 16 + 4 + 4 + (length cmd + 1) + (length args + 1) + (length env_args + 1);
              m = m\<lparr>m_buffer := malloc_block env nSize\<rparr> in
          bind_r (m_object_add m (put_timeval (er_time_stamp e))) (\<lambda>m.
          bind_r (m_object_add m (le_bytes 4 (er_pid e))) (\<lambda>m.
          bind_r (m_object_add m (le_bytes 4 (er_ppid e))) (\<lambda>m.
          bind_r (m_object_add m (c_block cmd)) (\<lambda>m.
          bind_r (m_object_add m (c_block args)) (\<lambda>m.
          bind_r (m_object_add m (c_block env_args)) (\<lambda>m. Inr (0, m)))))))))))"

definition db_execCall_unmarshall ::
  "(nat \<Rightarrow> alloc_env) \<Rightarrow> eCallRecord \<Rightarrow> m_object \<Rightarrow> (int \<times> eCallRecord) res" where
  "db_execCall_unmarshall mem e m =
     bind_r (deref (m_buffer m)) (\<lambda>b.
       bind_r (read_at b 0 16) (\<lambda>t.
       bind_r (read_at b 16 4) (\<lambda>pid.
       bind_r (read_at b 20 4) (\<lambda>ppid.
         let e = e\<lparr>er_time_stamp := get_timeval t, er_pid := le_int pid, er_ppid := le_int ppid\<rparr>;
             bufpos = 24 in
         bind_r (m_object_buffer_getstring (mem 0) (drop bufpos b)) (\<lambda>(n, cmd).
           let e = e\<lparr>er_cmd_name := cmd\<rparr> in
           if n = -1 then Inr (1, e) else let bufpos = bufpos + nat n in
         bind_r (m_object_buffer_getstring (mem 1) (drop bufpos b)) (\<lambda>(n, args).
           let e = e\<lparr>er_args := args\<rparr> in
           if n = -1 then Inr (1, e) else let bufpos = bufpos + nat n in
         bind_r (m_object_buffer_getstring (mem 2) (drop bufpos b)) (\<lambda>(n, env_args).
           let e = e\<lparr>er_env_args := env_args\<rparr> in
           if n = -1 then Inr (1, e) else Inr (0, e))))))))"

section \<open>Records of open calls\<close>

definition db_openCall_init :: "oCallRecord \<Rightarrow> oCallRecord" where
  "db_openCall_init r = r\<lparr>or_eCallKey := (or_eCallKey r)\<lparr>ek_time_stamp := timeval_zero\<rparr>,
     or_flag := 0, or_time_stamp := timeval_zero, or_filepath := None\<rparr>"

definition MaxPathSuffixLength :: nat where
  "MaxPathSuffixLength = 100"

text \<open>\<open>snprintf(dst, n, "%s", s)\<close> for \<open>n > 0\<close>.\<close>

definition snprintf_s :: "char list \<Rightarrow> nat \<Rightarrow> string \<Rightarrow> char list res" where
  "snprintf_s dst n s = write_at dst 0 (take (n - 1) s @ [NUL])"

definition gen_filepath_suffix :: "char list \<Rightarrow> string \<Rightarrow> char list res" where
  "gen_filepath_suffix suffix filepath =
     (let path_length = length filepath + 1 in
      if path_length < MaxPathSuffixLength
      then snprintf_s suffix MaxPathSuffixLength filepath
      else let start_pos = path_length - MaxPathSuffixLength in
        snprintf_s suffix MaxPathSuffixLength (drop start_pos filepath))"

record db_oCallKey =
  ok_time_stamp :: timeval
  ok_filepath_suffix :: "char list"

text \<open>The key on the stack has whatever its suffix held before.\<close>

definition db_openCall_genKey :: "db_oCallKey \<Rightarrow> oCallRecord \<Rightarrow> db_oCallKey res" where
  "db_openCall_genKey k r =
     bind_r (deref (or_filepath r)) (\<lambda>path.
       bind_r (gen_filepath_suffix (ok_filepath_suffix k) path) (\<lambda>s.
         Inr (k\<lparr>ok_time_stamp := or_time_stamp r, ok_filepath_suffix := s\<rparr>)))"

definition oCallKey_bytes :: "(nat \<Rightarrow> char) \<Rightarrow> db_oCallKey \<Rightarrow> char list" where
  "oCallKey_bytes pad k =
     put_timeval (ok_time_stamp k) @ ok_filepath_suffix k @ map pad [0..<4]"

definition db_openCall_marshall ::
  "(nat \<Rightarrow> char) \<Rightarrow> alloc_env \<Rightarrow> m_object \<Rightarrow> oCallRecord \<Rightarrow> (int \<times> m_object) res" where
  "db_openCall_marshall pad env m r =
     (if m_buffer m \<noteq> None then Inr (-1, m)
      else bind_r (deref (or_filepath r)) (\<lambda>path.
        let nSize = 16 + 4 + 24 + (length path + 1);
            m = m\<lparr>m_buffer := malloc_block env nSize\<rparr> in
        bind_r (m_object_add m (put_timeval (or_time_stamp r))) (\<lambda>m.
        bind_r (m_object_add m (le_bytes 4 (or_flag r))) (\<lambda>m.
        bind_r (m_object_add m (eCallKey_bytes pad (or_eCallKey r))) (\<lambda>m.
        bind_r (m_object_add m (c_block path)) (\<lambda>m. Inr (0, m)))))))"

definition db_openCall_unmarshall ::
  "(nat \<Rightarrow> alloc_env) \<Rightarrow> oCallRecord \<Rightarrow> m_object \<Rightarrow> (int \<times> oCallRecord) res" where
  "db_openCall_unmarshall mem r m =
     bind_r (deref (m_buffer m)) (\<lambda>b.
       bind_r (read_at b 0 16) (\<lambda>t.
       bind_r (read_at b 16 4) (\<lambda>flag.
       bind_r (read_at b 20 24) (\<lambda>key.
         let r = r\<lparr>or_time_stamp := get_timeval t, or_flag := le_int flag,
                   or_eCallKey := get_eCallKey key\<rparr> in
         bind_r (m_object_buffer_getstring (mem 0) (drop 44 b)) (\<lambda>(n, path).
           let r = r\<lparr>or_filepath := path\<rparr> in
           if n = -1 then Inr (1, r) else Inr (0, r))))))"

section \<open>Filling a block piece by piece\<close>

text \<open>An object whose block is filled up to \<open>size\<close> with \<open>bs\<close>.\<close>

definition filled :: "m_object \<Rightarrow> char list \<Rightarrow> nat \<Rightarrow> bool" where
  "filled m bs n \<longleftrightarrow> m_size m = length bs \<and>
     (\<exists>rest. m_buffer m = Some (bs @ rest) \<and> length bs + length rest = n)"

lemma filled_add:
  assumes "filled m bs n" "length bs + length d \<le> n"
  shows "\<exists>m'. m_object_add m d = Inr m' \<and> filled m' (bs @ d) n"
  using assms by (auto simp: filled_def m_object_add_def)

lemma filled_done: "filled m bs (length bs) \<Longrightarrow> m = \<lparr>m_buffer = Some bs, m_size = length bs\<rparr>"
  by (cases m) (auto simp: filled_def)

lemma filled_start:
  "can_alloc env n \<Longrightarrow> filled \<lparr>m_buffer = malloc_block env n, m_size = 0\<rparr> [] n"
  by (simp add: filled_def malloc_block_def)

definition m_empty :: m_object where
  "m_empty = \<lparr>m_buffer = None, m_size = 0\<rparr>"

text \<open>Adding a list of pieces.\<close>

fun add_all :: "m_object \<Rightarrow> char list list \<Rightarrow> m_object res" where
  "add_all m [] = Inr m"
| "add_all m (d # ds) = bind_r (m_object_add m d) (\<lambda>m. add_all m ds)"

lemma add_all_filled:
  assumes "filled m bs n" "length bs + length (concat ds) \<le> n"
  shows "\<exists>m'. add_all m ds = Inr m' \<and> filled m' (bs @ concat ds) n"
  using assms
proof (induction ds arbitrary: m bs)
  case Nil
  then show ?case by simp
next
  case (Cons d ds)
  then obtain m1 where m1: "m_object_add m d = Inr m1" "filled m1 (bs @ d) n"
    using filled_add [of m bs n d] by auto
  with Cons.IH [OF m1(2)] Cons.prems(2) show ?case by auto
qed

lemma add_all_fresh:
  assumes "can_alloc env (length (concat ds))"
  shows "add_all \<lparr>m_buffer = malloc_block env (length (concat ds)), m_size = 0\<rparr> ds
     = Inr \<lparr>m_buffer = Some (concat ds), m_size = length (concat ds)\<rparr>"
proof -
  obtain m' where m': "add_all \<lparr>m_buffer = malloc_block env (length (concat ds)), m_size = 0\<rparr> ds
      = Inr m'" "filled m' (concat ds) (length (concat ds))"
    using add_all_filled [OF filled_start [OF assms], of ds] by auto
  with filled_done [OF m'(2)] show ?thesis by simp
qed

section \<open>The interface: records as bytes\<close>

text \<open>
  \<open>image x\<close> are the bytes of \<open>x\<close>; \<open>fill old x\<close> is the record that reading them into \<open>old\<close> gives:
  the stored parts of \<open>x\<close>, and the rest of \<open>old\<close>.
\<close>

locale record_codec =
  fixes marshall :: "alloc_env \<Rightarrow> m_object \<Rightarrow> 'r \<Rightarrow> (int \<times> m_object) res"
    and unmarshall :: "(nat \<Rightarrow> alloc_env) \<Rightarrow> 'r \<Rightarrow> m_object \<Rightarrow> (int \<times> 'r) res"
    and image :: "'r \<Rightarrow> char list"
    and ok :: "'r \<Rightarrow> bool"
    and fill :: "'r \<Rightarrow> 'r \<Rightarrow> 'r"
  assumes marshall_image: "ok x \<Longrightarrow> can_alloc env (length (image x)) \<Longrightarrow>
      marshall env m_empty x = Inr (0, \<lparr>m_buffer = Some (image x), m_size = length (image x)\<rparr>)"
    and unmarshall_image: "ok x \<Longrightarrow> (\<forall>k n. grants (mem k) n) \<Longrightarrow> length (image x) < 2 ^ 63 \<Longrightarrow>
      unmarshall mem old \<lparr>m_buffer = Some (image x @ rest), m_size = n\<rparr> = Inr (0, fill old x)"
begin

lemma roundtrip:
  assumes "ok x" "can_alloc env (length (image x))" "\<forall>k n. grants (mem k) n"
  shows "bind_r (marshall env m_empty x) (\<lambda>(ret, m). unmarshall mem old m) = Inr (0, fill old x)"
proof -
  have "length (image x) < 2 ^ 63"
    using assms(2) by (simp add: can_alloc_def)
  from unmarshall_image [OF assms(1,3) this, of old "[]"] show ?thesis
    using marshall_image [OF assms(1,2)] by simp
qed

text \<open>No image is the beginning of another one, unless the stored parts are the same.\<close>

lemma image_prefix:
  assumes "ok x" "ok y" "image x @ r = image y @ s" "length (image x) < 2 ^ 63"
    "length (image y) < 2 ^ 63"
  shows "fill old x = fill old y"
proof -
  have "unmarshall (\<lambda>_. roomy) old \<lparr>m_buffer = Some (image x @ r), m_size = 0\<rparr> = Inr (0, fill old x)"
    using assms(1,4) by (intro unmarshall_image) simp_all
  moreover have "unmarshall (\<lambda>_. roomy) old \<lparr>m_buffer = Some (image y @ s), m_size = 0\<rparr>
      = Inr (0, fill old y)"
    using assms(2,5) by (intro unmarshall_image) simp_all
  ultimately show ?thesis
    using assms(3) by simp
qed

end

text \<open>Strings without a terminator inside.\<close>

definition str_ok :: "string option \<Rightarrow> bool" where
  "str_ok p \<longleftrightarrow> (\<exists>s. p = Some s \<and> NUL \<notin> set s)"

lemma getstring_ok:
  assumes "NUL \<notin> set s" "\<forall>n. grants env n" "length s + 1 < 2 ^ 63"
  shows "m_object_buffer_getstring env (s @ NUL # rest) = Inr (int (length s) + 1, Some s)"
  using assms by (simp add: m_object_buffer_getstring_def can_alloc_def)

definition eCall_image :: "eCallRecord \<Rightarrow> char list" where
  "eCall_image e = concat [put_timeval (er_time_stamp e), le_bytes 4 (er_pid e),
     le_bytes 4 (er_ppid e), c_block (the (er_cmd_name e)), c_block (the (er_args e)),
     c_block (the (er_env_args e))]"

definition eCall_ok :: "eCallRecord \<Rightarrow> bool" where
  "eCall_ok e \<longleftrightarrow> timeval_ok (er_time_stamp e) \<and> int32_ok (er_pid e) \<and> int32_ok (er_ppid e)
     \<and> str_ok (er_cmd_name e) \<and> str_ok (er_args e) \<and> str_ok (er_env_args e)"

definition eCall_fill :: "eCallRecord \<Rightarrow> eCallRecord \<Rightarrow> eCallRecord" where
  "eCall_fill old e = e\<lparr>er_parentEcall := er_parentEcall old\<rparr>"

definition eCallKey_ok :: "db_eCallKey \<Rightarrow> bool" where
  "eCallKey_ok k \<longleftrightarrow> timeval_ok (ek_time_stamp k) \<and> int32_ok (ek_pid k)"

lemma length_eCallKey_bytes [simp]: "length (eCallKey_bytes pad k) = 24"
  by (simp add: eCallKey_bytes_def)

lemma get_eCallKey_bytes [simp]: "eCallKey_ok k \<Longrightarrow> get_eCallKey (eCallKey_bytes pad k) = k"
  by (cases k) (simp add: eCallKey_ok_def get_eCallKey_def eCallKey_bytes_def get_timeval_def
      put_timeval_def timeval_ok_def)

definition oCall_image :: "(nat \<Rightarrow> char) \<Rightarrow> oCallRecord \<Rightarrow> char list" where
  "oCall_image pad r = concat [put_timeval (or_time_stamp r), le_bytes 4 (or_flag r),
     eCallKey_bytes pad (or_eCallKey r), c_block (the (or_filepath r))]"

definition oCall_ok :: "oCallRecord \<Rightarrow> bool" where
  "oCall_ok r \<longleftrightarrow> timeval_ok (or_time_stamp r) \<and> int32_ok (or_flag r)
     \<and> eCallKey_ok (or_eCallKey r) \<and> str_ok (or_filepath r)"

definition oCall_fill :: "oCallRecord \<Rightarrow> oCallRecord \<Rightarrow> oCallRecord" where
  "oCall_fill old r = r"

interpretation ecodec: record_codec db_execCall_marshall db_execCall_unmarshall eCall_image
  eCall_ok eCall_fill
proof unfold_locales
  fix x env
  assume ok: "eCall_ok x" and env: "can_alloc env (length (eCall_image x))"
  then obtain cmd args ea where s: "er_cmd_name x = Some cmd" "er_args x = Some args"
    "er_env_args x = Some ea"
    by (auto simp: eCall_ok_def str_ok_def)
  let ?ds = "[put_timeval (er_time_stamp x), le_bytes 4 (er_pid x), le_bytes 4 (er_ppid x),
     c_block cmd, c_block args, c_block ea]"
  have im: "eCall_image x = concat ?ds"
    by (simp only: eCall_image_def s option.sel)
  have n: "length (concat ?ds)
      = 16 + 4 + 4 + (length cmd + 1) + (length args + 1) + (length ea + 1)"
    by (simp add: c_block_def)
  show "db_execCall_marshall env m_empty x
      = Inr (0, \<lparr>m_buffer = Some (eCall_image x), m_size = length (eCall_image x)\<rparr>)"
    using add_all_fresh [OF env [unfolded im], unfolded n] s
    unfolding im
    by (auto simp: db_execCall_marshall_def m_empty_def bind_r_Inr_iff Let_def)
next
  fix x and mem :: "nat \<Rightarrow> alloc_env" and old rest n
  assume ok: "eCall_ok x" and mem: "\<forall>k n. grants (mem k) n" and len: "length (eCall_image x) < 2 ^ 63"
  then obtain cmd args ea where s: "er_cmd_name x = Some cmd" "er_args x = Some args"
    "er_env_args x = Some ea" "NUL \<notin> set cmd" "NUL \<notin> set args" "NUL \<notin> set ea"
    by (auto simp: eCall_ok_def str_ok_def)
  let ?t = "put_timeval (er_time_stamp x)" and ?p = "le_bytes 4 (er_pid x)"
    and ?q = "le_bytes 4 (er_ppid x)"
  let ?b = "?t @ ?p @ ?q @ cmd @ NUL # args @ NUL # ea @ NUL # rest"
  have im: "eCall_image x @ rest = ?b" and l: "length cmd + length args + length ea + 27 < 2 ^ 63"
    using len by (simp_all add: eCall_image_def s c_block_def)
  have r: "read_at ?b 0 16 = Inr ?t" "read_at ?b 16 4 = Inr ?p" "read_at ?b 20 4 = Inr ?q"
    by (simp_all add: read_at_def)
  have d: "drop 24 ?b = cmd @ NUL # args @ NUL # ea @ NUL # rest"
    "drop (24 + nat (int (length cmd) + 1)) ?b = args @ NUL # ea @ NUL # rest"
    "drop (24 + nat (int (length cmd) + 1) + nat (int (length args) + 1)) ?b = ea @ NUL # rest"
    by (simp_all add: nat_add_distrib)
  have g: "m_object_buffer_getstring (mem 0) (cmd @ NUL # args @ NUL # ea @ NUL # rest)
      = Inr (int (length cmd) + 1, Some cmd)"
    "m_object_buffer_getstring (mem 1) (args @ NUL # ea @ NUL # rest)
      = Inr (int (length args) + 1, Some args)"
    "m_object_buffer_getstring (mem 2) (ea @ NUL # rest) = Inr (int (length ea) + 1, Some ea)"
    using s l mem by (simp_all add: getstring_ok)
  have "eCall_fill old x = old\<lparr>er_time_stamp := er_time_stamp x, er_pid := er_pid x,
      er_ppid := er_ppid x, er_cmd_name := Some cmd, er_args := Some args, er_env_args := Some ea\<rparr>"
    using s by (cases old; cases x) (simp add: eCall_fill_def)
  then show "db_execCall_unmarshall mem old \<lparr>m_buffer = Some (eCall_image x @ rest), m_size = n\<rparr>
      = Inr (0, eCall_fill old x)"
    unfolding im db_execCall_unmarshall_def Let_def m_object.simps deref_simps bind_r_simps r d g
      prod.case
    using ok by (simp add: eCall_ok_def)
qed

interpretation ocodec: record_codec "db_openCall_marshall pad" db_openCall_unmarshall
  "oCall_image pad" oCall_ok oCall_fill for pad
proof unfold_locales
  fix x env
  assume ok: "oCall_ok x" and env: "can_alloc env (length (oCall_image pad x))"
  then obtain path where s: "or_filepath x = Some path"
    by (auto simp: oCall_ok_def str_ok_def)
  let ?ds = "[put_timeval (or_time_stamp x), le_bytes 4 (or_flag x),
     eCallKey_bytes pad (or_eCallKey x), c_block path]"
  have im: "oCall_image pad x = concat ?ds"
    by (simp only: oCall_image_def s option.sel)
  have n: "length (concat ?ds) = 16 + 4 + 24 + (length path + 1)"
    by simp
  show "db_openCall_marshall pad env m_empty x
      = Inr (0, \<lparr>m_buffer = Some (oCall_image pad x), m_size = length (oCall_image pad x)\<rparr>)"
    using add_all_fresh [OF env [unfolded im], unfolded n] s
    unfolding im
    by (auto simp: db_openCall_marshall_def m_empty_def bind_r_Inr_iff Let_def)
next
  fix x and mem :: "nat \<Rightarrow> alloc_env" and old rest n
  assume ok: "oCall_ok x" and mem: "\<forall>k n. grants (mem k) n"
    and len: "length (oCall_image pad x) < 2 ^ 63"
  then obtain path where s: "or_filepath x = Some path" "NUL \<notin> set path"
    by (auto simp: oCall_ok_def str_ok_def)
  let ?t = "put_timeval (or_time_stamp x)" and ?f = "le_bytes 4 (or_flag x)"
    and ?k = "eCallKey_bytes pad (or_eCallKey x)"
  let ?b = "?t @ ?f @ ?k @ path @ NUL # rest"
  have im: "oCall_image pad x @ rest = ?b" and l: "length path + 1 < 2 ^ 63"
    using len by (simp_all add: oCall_image_def s c_block_def)
  have r: "read_at ?b 0 16 = Inr ?t" "read_at ?b 16 4 = Inr ?f" "read_at ?b 20 24 = Inr ?k"
    by (simp_all add: read_at_def)
  have d: "drop 44 ?b = path @ NUL # rest"
    by simp
  have g: "m_object_buffer_getstring (mem 0) (path @ NUL # rest)
      = Inr (int (length path) + 1, Some path)"
    using s l mem by (simp add: getstring_ok)
  have "oCall_fill old x = old\<lparr>or_time_stamp := or_time_stamp x, or_flag := or_flag x,
      or_eCallKey := or_eCallKey x, or_filepath := Some path\<rparr>"
    using s by (cases old; cases x) (simp add: oCall_fill_def)
  then show "db_openCall_unmarshall mem old \<lparr>m_buffer = Some (oCall_image pad x @ rest), m_size = n\<rparr>
      = Inr (0, oCall_fill old x)"
    unfolding im db_openCall_unmarshall_def Let_def m_object.simps deref_simps bind_r_simps r d g
      prod.case
    using ok by (simp add: oCall_ok_def)
qed

section \<open>Keys\<close>

lemma key_less_iff:
  "a < b \<longleftrightarrow> timercmp (ek_time_stamp a) (ek_time_stamp b) (<)
     \<or> ek_time_stamp a = ek_time_stamp b \<and> ek_pid a < ek_pid b" for a b :: db_eCallKey
  by (auto simp: less_db_eCallKey_ext_def less_eq_db_eCallKey_ext_def timercmp_less_iff)

lemma KeyComp_eq:
  assumes "eCallKey_ok a" "eCallKey_ok b"
  shows "db_execCall_KeyComp (eCallKey_bytes pa a) (eCallKey_bytes pb b)
     = Inr (if timercmp (ek_time_stamp b) (ek_time_stamp a) (<) then 1
            else if timercmp (ek_time_stamp a) (ek_time_stamp b) (<) then -1
            else to_int32 (ek_pid a - ek_pid b))"
proof -
  have ne: "eCallKey_bytes p k \<noteq> []" for p k
    using length_eCallKey_bytes [of p k] by (metis list.size(3) zero_neq_numeral)
  have "read_at (eCallKey_bytes p k) 0 24 = Inr (eCallKey_bytes p k)" for p k
    by (simp add: read_at_def)
  moreover have "\<not> (timercmp x y (<) \<and> timercmp y x (<))" for x y
    by (auto simp: timercmp_def)
  ultimately show ?thesis
    using assms ne by (auto simp: db_execCall_KeyComp_def Let_def)
qed

lemma same_stamp:
  "\<not> timercmp a b (<) \<Longrightarrow> \<not> timercmp b a (<) \<Longrightarrow> a = (b :: timeval)"
  by (cases a; cases b) (auto simp: timercmp_def split: if_splits)

lemma KeyComp_order:
  assumes "eCallKey_ok a" "eCallKey_ok b" "0 \<le> ek_pid a" "0 \<le> ek_pid b"
  shows "\<exists>r. db_execCall_KeyComp (eCallKey_bytes pa a) (eCallKey_bytes pb b) = Inr r
           \<and> (r < 0 \<longleftrightarrow> a < b) \<and> (r = 0 \<longleftrightarrow> a = b) \<and> (0 < r \<longleftrightarrow> b < a)"
proof -
  let ?a = "ek_time_stamp a" and ?b = "ek_time_stamp b"
  have diff: "to_int32 (ek_pid a - ek_pid b) = ek_pid a - ek_pid b"
    using assms by (intro to_int32_id) (auto simp: eCallKey_ok_def int32_ok_def)
  have irr: "\<not> timercmp x x (<)" for x
    by (simp add: timercmp_def)
  have as: "\<not> (timercmp x y (<) \<and> timercmp y x (<))" for x y
    by (auto simp: timercmp_def)
  consider "timercmp ?a ?b (<)" | "timercmp ?b ?a (<)" | "?a = ?b"
    using same_stamp by blast
  then show ?thesis
  proof cases
    case 1
    moreover have "?a \<noteq> ?b"
      using 1 irr by metis
    ultimately show ?thesis
      using KeyComp_eq [OF assms(1,2)] as [of ?a ?b] by (auto simp: key_less_iff)
  next
    case 2
    moreover have "?a \<noteq> ?b"
      using 2 irr by metis
    ultimately show ?thesis
      using KeyComp_eq [OF assms(1,2)] as [of ?a ?b] by (auto simp: key_less_iff)
  next
    case 3
    have "a = b \<longleftrightarrow> ek_pid a = ek_pid b"
      using 3 by (cases a; cases b) auto
    then show ?thesis
      using KeyComp_eq [OF assms(1,2), of pa pb] 3 irr [of ?b] diff by (auto simp: key_less_iff)
  qed
qed

text \<open>The suffix in a key is the last 99 characters of the path.\<close>

lemma gen_filepath_suffix_eq:
  assumes "length suffix = 100"
  shows "gen_filepath_suffix suffix path
     = Inr (drop (length path - 99) path @ NUL # drop (min (length path) 99 + 1) suffix)"
proof -
  have "take 99 (drop (length path + 1 - 100) path) = drop (length path - 99) path"
    if "99 \<le> length path" using that by simp
  then show ?thesis
    using assms by (auto simp: gen_filepath_suffix_def snprintf_s_def MaxPathSuffixLength_def
        Let_def min_def)
qed

section \<open>Properties\<close>

definition demo_stamp_tv :: "int \<Rightarrow> timeval" where
  "demo_stamp_tv s = \<lparr>tv_sec = s, tv_usec = 34\<rparr>"

definition demo_exec_record :: eCallRecord where
  "demo_exec_record = \<lparr>er_pid = 77, er_ppid = 1, er_parentEcall = eCallKey_zero,
     er_time_stamp = demo_stamp_tv 12, er_cmd_name = Some ''vi'', er_args = Some ''vi a'',
     er_env_args = Some []\<rparr>"

definition demo_open_record :: oCallRecord where
  "demo_open_record = \<lparr>or_flag = 3, or_time_stamp = demo_stamp_tv 13,
     or_eCallKey = db_execCall_genKey demo_exec_record, or_filepath = Some ''/tmp/a''\<rparr>"

lemma demo_stamp_tv_ok: "- 1000 \<le> s \<Longrightarrow> s \<le> 1000 \<Longrightarrow> timeval_ok (demo_stamp_tv s)"
  by (simp add: demo_stamp_tv_def timeval_ok_def int64_ok_def)

lemma demo_records_ok: "eCall_ok demo_exec_record" "oCall_ok demo_open_record"
  using demo_stamp_tv_ok [of 12] demo_stamp_tv_ok [of 13]
  by (simp_all add: demo_exec_record_def demo_open_record_def eCall_ok_def oCall_ok_def str_ok_def
      int32_ok_def NUL_def eCallKey_ok_def db_execCall_genKey_def)

text \<open>
  C21: The record of a process that was marshalled and unmarshalled again is the same one, apart
  from the key of its parent, which is left as it was in the record read into.
\<close>

theorem execCall_roundtrip:
  assumes "eCall_ok e" "can_alloc env (length (eCall_image e))" "\<forall>k n. grants (mem k) n"
  shows "bind_r (db_execCall_marshall env m_empty e) (\<lambda>(ret, m). db_execCall_unmarshall mem old m)
    = Inr (0, e\<lparr>er_parentEcall := er_parentEcall old\<rparr>)"
  using ecodec.roundtrip [OF assms] by (simp add: eCall_fill_def)

theorem execCall_roundtrip_witness:
  "bind_r (db_execCall_marshall roomy m_empty demo_exec_record)
      (\<lambda>(ret, m). db_execCall_unmarshall (\<lambda>_. roomy) (db_execCall_init demo_exec_record) m)
    = Inr (0, demo_exec_record\<lparr>er_parentEcall :=
        er_parentEcall (db_execCall_init demo_exec_record)\<rparr>)"
  by (rule execCall_roundtrip [OF demo_records_ok(1)])
     (simp_all add: eCall_image_def demo_exec_record_def)

theorem openCall_roundtrip:
  assumes "oCall_ok r" "can_alloc env (length (oCall_image pad r))" "\<forall>k n. grants (mem k) n"
  shows "bind_r (db_openCall_marshall pad env m_empty r) (\<lambda>(ret, m). db_openCall_unmarshall mem old m)
    = Inr (0, r)"
  using ocodec.roundtrip [OF assms, of old] by (simp add: oCall_fill_def)

theorem openCall_roundtrip_witness:
  "bind_r (db_openCall_marshall (\<lambda>_. TAB) roomy m_empty demo_open_record)
      (\<lambda>(ret, m). db_openCall_unmarshall (\<lambda>_. roomy) (db_openCall_init demo_open_record) m)
    = Inr (0, demo_open_record)"
  by (rule openCall_roundtrip [OF demo_records_ok(2)])
     (simp_all add: oCall_image_def demo_open_record_def)

theorem KeyComp_order_witness:
  "\<exists>r. db_execCall_KeyComp (eCallKey_bytes (\<lambda>_. NUL) \<lparr>ek_time_stamp = demo_stamp_tv 12, ek_pid = 300\<rparr>)
        (eCallKey_bytes (\<lambda>_. TAB) \<lparr>ek_time_stamp = demo_stamp_tv 12, ek_pid = 5\<rparr>) = Inr r
     \<and> (r < 0 \<longleftrightarrow> \<lparr>ek_time_stamp = demo_stamp_tv 12, ek_pid = 300\<rparr>
                   < \<lparr>ek_time_stamp = demo_stamp_tv 12, ek_pid = 5\<rparr>)
     \<and> (r = 0 \<longleftrightarrow> \<lparr>ek_time_stamp = demo_stamp_tv 12, ek_pid = 300\<rparr>
                   = \<lparr>ek_time_stamp = demo_stamp_tv 12, ek_pid = 5\<rparr>)
     \<and> (0 < r \<longleftrightarrow> \<lparr>ek_time_stamp = demo_stamp_tv 12, ek_pid = 5\<rparr>
                   < \<lparr>ek_time_stamp = demo_stamp_tv 12, ek_pid = 300\<rparr>)"
  by (rule KeyComp_order) (simp_all add: eCallKey_ok_def demo_stamp_tv_ok int32_ok_def)

theorem path_suffix_kept:
  assumes "length suffix = 100" "NUL \<notin> set path"
  shows "\<exists>s. gen_filepath_suffix suffix path = Inr s \<and> length s = 100
     \<and> c_str s = Inr (drop (length path - 99) path)"
proof -
  have "NUL \<notin> set (drop (length path - 99) path)"
    using assms(2) by (meson in_set_dropD)
  with gen_filepath_suffix_eq [OF assms(1), of path] assms(1) show ?thesis
    by auto
qed

theorem path_suffix_kept_witness:
  "\<exists>s. gen_filepath_suffix (replicate 100 TAB) (replicate 101 CHR ''a'' @ ''bc'') = Inr s \<and> length s = 100
     \<and> c_str s = Inr (drop (length (replicate 101 CHR ''a'' @ ''bc'') - 99)
         (replicate 101 CHR ''a'' @ ''bc''))"
  by (rule path_suffix_kept) (simp_all add: NUL_def)

end
