(* ===== verification/Render.thy ===== *)
theory Render
  imports Records PtrVector
begin

text \<open>
  Records as text, for the control program: \<open>src/src/watchdog/src/database.c\<close>, lines 55-80,
  176-216 and 279-333. Each function is a sequence of appends to a string buffer, whose return
  codes overwrite one another; the lemmas rest on the contract \<open>text_sink\<close> of the buffer.

  The text resembles JSON: it has \<open>=\<close> where JSON has a colon and puts a comma after every
  element of the list, and it does not escape the strings.
\<close>

section \<open>Operations\<close>

text \<open>\<open>snprintf\<close> into a buffer of 300 bytes keeps 299 characters.\<close>

definition format300 :: "string \<Rightarrow> string" where
  "format300 s = take 299 s"

definition show_stamp :: "timeval \<Rightarrow> string" where
  "show_stamp tv = show_int (tv_sec tv) @ ''.'' @ show_int (tv_usec tv)"

definition exec_numbers :: "eCallRecord \<Rightarrow> string" where
  "exec_numbers e = ''\"time_stamp\": '' @ show_stamp (er_time_stamp e) @ '', \"pid\": ''
     @ show_int (er_pid e) @ '', \"ppid\": '' @ show_int (er_ppid e)"

definition db_execCall_to_jsonstringb ::
  "(nat \<Rightarrow> alloc_env) \<Rightarrow> stringBuffer \<Rightarrow> eCallRecord \<Rightarrow> (int \<times> stringBuffer) res" where
  "db_execCall_to_jsonstringb mem jsonBuffer e =
     bind_r (deref (er_cmd_name e)) (\<lambda>cmd. bind_r (deref (er_args e)) (\<lambda>args.
       put_all sb_append mem jsonBuffer
         [''{'', format300 (exec_numbers e), '', \"cmd\": \"'', cmd, ''\"'',
          '', \"args\": \"'', args, ''\"'', ''}'']))"

definition open_numbers :: "oCallRecord \<Rightarrow> string" where
  "open_numbers r = ''\"time_stamp\": '' @ show_stamp (or_time_stamp r) @ '', \"flag\": ''
     @ show_int (or_flag r)"

definition db_openCall_to_jsonstringb ::
  "(nat \<Rightarrow> alloc_env) \<Rightarrow> stringBuffer \<Rightarrow> oCallRecord \<Rightarrow> (int \<times> stringBuffer) res" where
  "db_openCall_to_jsonstringb mem jsonBuffer r =
     bind_r (deref (or_filepath r)) (\<lambda>path.
       put_all sb_append mem jsonBuffer
         [''{'', format300 (open_numbers r), '', \"filepath\": \"'', path, ''\"'', ''}''])"

text \<open>The format string says \<open>inode: i\<close>, without a conversion.\<close>

definition open_lines :: "oCallRecord \<Rightarrow> string" where
  "open_lines r = ''time_stamp: '' @ show_stamp (or_time_stamp r) @ [NL] @ ''flag: ''
     @ show_int (or_flag r) @ [NL] @ ''inode: i'' @ [NL]"

definition db_openCall_to_stringb ::
  "(nat \<Rightarrow> alloc_env) \<Rightarrow> stringBuffer \<Rightarrow> oCallRecord \<Rightarrow> (int \<times> stringBuffer) res" where
  "db_openCall_to_stringb mem sBuffer r =
     bind_r (deref (or_filepath r)) (\<lambda>path.
       put_all sb_append mem sBuffer
         [''filepath:'' @ [NL] @ '' '', path, [NL], format300 (open_lines r)])"

record db_full_Record =
  fr_openCall :: oCallRecord
  fr_execCalls :: "eCallRecord vector"

definition db_full_Record_init :: "alloc_env \<Rightarrow> db_full_Record \<Rightarrow> int \<times> db_full_Record" where
  "db_full_Record_init env this =
     (case vector_init env (fr_execCalls this) 8 8 of (ret, v) \<Rightarrow>
        (ret, this\<lparr>fr_openCall := (fr_openCall this)\<lparr>or_filepath := None\<rparr>, fr_execCalls := v\<rparr>))"

text \<open>Both destructors free the records of the list but not what those own.\<close>

definition db_full_Record_destroy :: "db_full_Record \<Rightarrow> (eCallRecord option list \<times> db_full_Record) res"
  where
  "db_full_Record_destroy this =
     (let v = fr_execCalls this in
      bind_r (destroy_elems 0 (vlength v) (elems v)) (\<lambda>(ps, es).
        Inr (ps, this\<lparr>fr_execCalls := v\<lparr>elems := es\<rparr>\<rparr>)))"

definition db_void_full_Record_destroy ::
  "db_full_Record \<Rightarrow> (eCallRecord option list \<times> db_full_Record) res" where
  "db_void_full_Record_destroy this =
     (let this = this\<lparr>fr_openCall := (fr_openCall this)\<lparr>or_filepath := None\<rparr>\<rparr>;
          v = fr_execCalls this in
      bind_r (destroy_elems 0 (vlength v) (elems v)) (\<lambda>(ps, _).
        Inr (ps, this\<lparr>fr_execCalls := v\<lparr>elems := []\<rparr>\<rparr>)))"

text \<open>
  The loop over the records of processes. Its failures end it without being reported: the
  return code is the one of the last append before the loop.
\<close>

fun json_execs :: "(nat \<Rightarrow> nat \<Rightarrow> alloc_env) \<Rightarrow> nat \<Rightarrow> nat \<Rightarrow> eCallRecord option list \<Rightarrow> stringBuffer
    \<Rightarrow> (bool \<times> stringBuffer) res" where
  "json_execs mem 0 i es sb = Inr (True, sb)"
| "json_execs mem (Suc n) i es sb =
     bind_r (slot es (int i)) (\<lambda>p. bind_r (deref p) (\<lambda>e.
       bind_r (db_execCall_to_jsonstringb (mem (2 * i)) sb e) (\<lambda>(ret, sb).
         if ret \<noteq> 0 then Inr (False, sb)
         else bind_r (sb_append (mem (2 * i + 1) 0) sb (c_block '', '')) (\<lambda>(ret, sb).
           if ret \<noteq> 0 then Inr (False, sb) else json_execs mem n (i + 1) es sb))))"

definition db_full_Record_jsonsb ::
  "(nat \<Rightarrow> alloc_env) \<Rightarrow> (nat \<Rightarrow> nat \<Rightarrow> alloc_env) \<Rightarrow> (nat \<Rightarrow> alloc_env) \<Rightarrow> db_full_Record \<Rightarrow> stringBuffer
   \<Rightarrow> (int \<times> stringBuffer) res" where
  "db_full_Record_jsonsb mem loop_mem open_mem this sb =
     bind_r (sb_append (mem 0) sb (c_block ''{ \"openCall\"='')) (\<lambda>(ret, sb).
       if ret \<noteq> 0 then Inr (ret, sb)
       else bind_r (db_openCall_to_jsonstringb open_mem sb (fr_openCall this)) (\<lambda>(ret, sb).
         if ret \<noteq> 0 then Inr (ret, sb)
         else bind_r (sb_append (mem 1) sb (c_block (NL # ''\"execCalls\"=[''))) (\<lambda>(ret, sb).
           if ret \<noteq> 0 then Inr (ret, sb)
           else let v = fr_execCalls this in
             bind_r (json_execs loop_mem (vlength v) 0 (elems v) sb) (\<lambda>(go, sb).
               if \<not> go then Inr (ret, sb)
               else bind_r (sb_append (mem 2) sb (c_block ('']}'' @ [NL]))) (\<lambda>(_, sb). Inr (ret, sb))))))"

definition db_full_Record_stringb ::
  "(nat \<Rightarrow> alloc_env) \<Rightarrow> (nat \<Rightarrow> alloc_env) \<Rightarrow> db_full_Record \<Rightarrow> stringBuffer
   \<Rightarrow> (int \<times> stringBuffer) res" where
  "db_full_Record_stringb mem open_mem this sb =
     bind_r (sb_append (mem 0) sb (c_block (''openCall:'' @ [NL]))) (\<lambda>(ret, sb).
       if ret \<noteq> 0 then Inr (ret, sb)
       else db_openCall_to_stringb open_mem sb (fr_openCall this))"

section \<open>The text of a record\<close>

definition exec_json :: "eCallRecord \<Rightarrow> string" where
  "exec_json e = ''{'' @ exec_numbers e @ '', \"cmd\": \"'' @ the (er_cmd_name e)
     @ ''\", \"args\": \"'' @ the (er_args e) @ ''\"}''"

definition open_json :: "oCallRecord \<Rightarrow> string" where
  "open_json r = ''{'' @ open_numbers r @ '', \"filepath\": \"'' @ the (or_filepath r) @ ''\"}''"

definition full_json :: "oCallRecord \<Rightarrow> eCallRecord list \<Rightarrow> string" where
  "full_json r es = ''{ \"openCall\"='' @ open_json r @ NL # ''\"execCalls\"=[''
     @ concat (map (\<lambda>e. exec_json e @ '', '') es) @ '']}'' @ [NL]"

text \<open>What was not checked in the source: the numbers always fit the buffer.\<close>

lemma length_show_stamp: "timeval_ok tv \<Longrightarrow> length (show_stamp tv) \<le> 41"
  using length_show_int64 [of "tv_sec tv"] length_show_int64 [of "tv_usec tv"]
  by (simp add: show_stamp_def timeval_ok_def)

lemma exec_numbers_fit:
  assumes "eCall_ok e"
  shows "format300 (exec_numbers e) = exec_numbers e" "length (exec_numbers e) < 300"
proof -
  show "length (exec_numbers e) < 300"
    using assms length_show_stamp [of "er_time_stamp e"] length_show_int32 [of "er_pid e"]
      length_show_int32 [of "er_ppid e"] by (simp add: exec_numbers_def eCall_ok_def)
  then show "format300 (exec_numbers e) = exec_numbers e"
    by (simp add: format300_def)
qed

lemma open_numbers_fit:
  assumes "oCall_ok r"
  shows "format300 (open_numbers r) = open_numbers r" "format300 (open_lines r) = open_lines r"
proof -
  have "length (open_numbers r) < 300" "length (open_lines r) < 300"
    using assms length_show_stamp [of "or_time_stamp r"] length_show_int32 [of "or_flag r"]
    by (simp_all add: open_numbers_def open_lines_def oCall_ok_def)
  then show "format300 (open_numbers r) = open_numbers r" "format300 (open_lines r) = open_lines r"
    by (simp_all add: format300_def)
qed

lemma show_int_no_NUL: "NUL \<notin> set (show_int x)"
  using show_int_chars [of NUL x] digit_not_special(4) by (auto simp: NUL_def)

lemma show_stamp_no_NUL: "NUL \<notin> set (show_stamp tv)"
  using show_int_no_NUL by (auto simp: show_stamp_def NUL_def)

lemma numbers_no_NUL:
  "NUL \<notin> set (exec_numbers e)" "NUL \<notin> set (open_numbers r)" "NUL \<notin> set (open_lines r)"
  using show_int_no_NUL show_stamp_no_NUL
  by (auto simp: exec_numbers_def open_numbers_def open_lines_def NUL_def NL_def)

section \<open>What the functions append\<close>

definition sb_ready :: "stringBuffer \<Rightarrow> bool" where
  "sb_ready b \<longleftrightarrow> sb_wf b \<and> sb_terminated b"

lemma put_pieces:
  assumes "sb_ready b" "\<forall>p \<in> set ps. NUL \<notin> set p" "\<forall>i n. grants (mem i) n"
    "length (sb_text b) + length (concat ps) < 2 ^ 32"
  shows "\<exists>b'. put_all sb_append mem b ps = Inr (0, b') \<and> sb_ready b'
           \<and> sb_text b' = sb_text b @ concat ps"
  using sb.put_all_total [of b ps mem] assms by (auto simp: sb_ready_def)

lemma put_piece:
  assumes "sb_ready b" "NUL \<notin> set p" "\<forall>n. grants env n"
    "length (sb_text b) + length p < 2 ^ 32"
  shows "\<exists>b'. sb_append env b (c_block p) = Inr (0, b') \<and> sb_ready b' \<and> sb_text b' = sb_text b @ p"
  using put_pieces [of b "[p]" "\<lambda>_. env"] assms by simp

lemma exec_json_appends:
  assumes "eCall_ok e" "sb_ready b" "\<forall>i n. grants (mem i) n"
    "length (sb_text b) + length (exec_json e) < 2 ^ 32"
  shows "\<exists>b'. db_execCall_to_jsonstringb mem b e = Inr (0, b') \<and> sb_ready b'
           \<and> sb_text b' = sb_text b @ exec_json e"
proof -
  obtain cmd args where s: "er_cmd_name e = Some cmd" "er_args e = Some args" "NUL \<notin> set cmd"
    "NUL \<notin> set args"
    using assms(1) by (auto simp: eCall_ok_def str_ok_def)
  let ?ps = "[''{'', format300 (exec_numbers e), '', \"cmd\": \"'', cmd, ''\"'',
          '', \"args\": \"'', args, ''\"'', ''}'']"
  have ps: "concat ?ps = exec_json e"
    using exec_numbers_fit [OF assms(1)] s by (simp add: exec_json_def)
  have nul: "\<forall>p \<in> set ?ps. NUL \<notin> set p"
    using exec_numbers_fit [OF assms(1)] numbers_no_NUL(1) s by (simp add: NUL_def)
  show ?thesis
    using put_pieces [OF assms(2) nul assms(3)] assms(4) s
    unfolding ps by (simp add: db_execCall_to_jsonstringb_def)
qed

lemma open_json_appends:
  assumes "oCall_ok r" "sb_ready b" "\<forall>i n. grants (mem i) n"
    "length (sb_text b) + length (open_json r) < 2 ^ 32"
  shows "\<exists>b'. db_openCall_to_jsonstringb mem b r = Inr (0, b') \<and> sb_ready b'
           \<and> sb_text b' = sb_text b @ open_json r"
proof -
  obtain path where s: "or_filepath r = Some path" "NUL \<notin> set path"
    using assms(1) by (auto simp: oCall_ok_def str_ok_def)
  let ?ps = "[''{'', format300 (open_numbers r), '', \"filepath\": \"'', path, ''\"'', ''}'']"
  have ps: "concat ?ps = open_json r"
    using open_numbers_fit [OF assms(1)] s by (simp add: open_json_def)
  have nul: "\<forall>p \<in> set ?ps. NUL \<notin> set p"
    using open_numbers_fit [OF assms(1)] numbers_no_NUL(2) s by (simp add: NUL_def)
  show ?thesis
    using put_pieces [OF assms(2) nul assms(3)] assms(4) s
    unfolding ps by (simp add: db_openCall_to_jsonstringb_def)
qed

lemma open_stringb_appends:
  assumes "oCall_ok r" "sb_ready b" "\<forall>i n. grants (mem i) n"
    "length (sb_text b) + length (the (or_filepath r)) + 400 < 2 ^ 32"
  shows "\<exists>b'. db_openCall_to_stringb mem b r = Inr (0, b') \<and> sb_ready b'
           \<and> sb_text b' = sb_text b @ ''filepath:'' @ [NL] @ '' '' @ the (or_filepath r) @ [NL] @ open_lines r"
proof -
  obtain path where s: "or_filepath r = Some path" "NUL \<notin> set path"
    using assms(1) by (auto simp: oCall_ok_def str_ok_def)
  let ?ps = "[''filepath:'' @ [NL] @ '' '', path, [NL], format300 (open_lines r)]"
  have fmt: "format300 (open_lines r) = open_lines r"
    using open_numbers_fit [OF assms(1)] by simp
  have "length (format300 (open_lines r)) \<le> 299"
    by (simp add: format300_def)
  then have len: "length (sb_text b) + length (concat ?ps) < 2 ^ 32"
    using assms(4) s by simp
  have nul: "\<forall>p \<in> set ?ps. NUL \<notin> set p"
    using fmt numbers_no_NUL(3) s by (simp add: NUL_def NL_def)
  from put_pieces [OF assms(2) nul assms(3) len] show ?thesis
    using s fmt by (simp add: db_openCall_to_stringb_def)
qed

lemma json_execs_append:
  assumes "sb_ready b" "i + n \<le> length es" "\<forall>k i m. grants (mem k i) m"
    "\<forall>k. i \<le> k \<and> k < i + n \<longrightarrow> (\<exists>e. es ! k = Some e \<and> eCall_ok e)"
    "length (sb_text b)
       + length (concat (map (\<lambda>p. exec_json (the p) @ '', '') (take n (drop i es)))) < 2 ^ 32"
  shows "\<exists>b'. json_execs mem n i es b = Inr (True, b') \<and> sb_ready b'
           \<and> sb_text b' = sb_text b @ concat (map (\<lambda>p. exec_json (the p) @ '', '') (take n (drop i es)))"
  using assms
proof (induction n arbitrary: i b)
  case 0
  then show ?case by simp
next
  case (Suc n)
  obtain e where e: "es ! i = Some e" "eCall_ok e"
    using Suc.prems(4) by auto
  have split: "take (Suc n) (drop i es) = Some e # take n (drop (Suc i) es)"
    using Suc.prems(2) e(1) take_Suc_drop [of i es n] by simp
  obtain b1 where b1: "db_execCall_to_jsonstringb (mem (2 * i)) b e = Inr (0, b1)" "sb_ready b1"
    "sb_text b1 = sb_text b @ exec_json e"
    using exec_json_appends [OF e(2) Suc.prems(1), of "mem (2 * i)"] Suc.prems(3,5) split by auto
  obtain b2 where b2: "sb_append (mem (2 * i + 1) 0) b1 (c_block '', '') = Inr (0, b2)" "sb_ready b2"
    "sb_text b2 = sb_text b1 @ '', ''"
    using put_piece [OF b1(2), of "'', ''" "mem (2 * i + 1) 0"] Suc.prems(3,5) split b1(3)
    by (auto simp: NUL_def)
  obtain b3 where "json_execs mem n (Suc i) es b2 = Inr (True, b3)" "sb_ready b3"
    "sb_text b3 = sb_text b2
       @ concat (map (\<lambda>p. exec_json (the p) @ '', '') (take n (drop (Suc i) es)))"
    using Suc.IH [OF b2(2), of "Suc i"] Suc.prems(2-5) split b1(3) b2(3) by auto
  with b1 b2 e(1) split Suc.prems(2) show ?case by simp
qed

lemma full_jsonsb_appends:
  assumes "oCall_ok (fr_openCall this)" "vec_wf (fr_execCalls this)"
    "vec_list (fr_execCalls this) = map Some es" "\<forall>e \<in> set es. eCall_ok e" "sb_ready b"
    "\<forall>i n. grants (mem i) n" "\<forall>k i n. grants (loop_mem k i) n" "\<forall>i n. grants (open_mem i) n"
    "length (sb_text b) + length (full_json (fr_openCall this) es) < 2 ^ 32"
  shows "\<exists>b'. db_full_Record_jsonsb mem loop_mem open_mem this b = Inr (0, b') \<and> sb_ready b'
           \<and> sb_text b' = sb_text b @ full_json (fr_openCall this) es"
proof -
  let ?r = "fr_openCall this" and ?v = "fr_execCalls this"
  have v: "take (vlength ?v) (elems ?v) = map Some es" "vlength ?v \<le> length (elems ?v)"
    using assms(2,3) by (auto simp: vec_list_def vec_wf_def)
  have n: "vlength ?v = length es"
    using v by (metis length_map length_take min.absorb2)
  have nth: "\<exists>e. elems ?v ! k = Some e \<and> eCall_ok e" if "k < length es" for k
  proof -
    have "elems ?v ! k = map Some es ! k"
      using that n v(1) by (metis nth_take)
    with that assms(4) show ?thesis by simp
  qed
  have len: "length (full_json ?r es) = 13 + length (open_json ?r) + 14
      + length (concat (map (\<lambda>e. exec_json e @ '', '') es)) + 3"
    by (simp add: full_json_def)
  obtain b1 where b1: "sb_append (mem 0) b (c_block ''{ \"openCall\"='') = Inr (0, b1)" "sb_ready b1"
    "sb_text b1 = sb_text b @ ''{ \"openCall\"=''"
    using put_piece [OF assms(5), of "''{ \"openCall\"=''" "mem 0"] assms(6,9) len
    by (auto simp: NUL_def)
  obtain b2 where b2: "db_openCall_to_jsonstringb open_mem b1 ?r = Inr (0, b2)" "sb_ready b2"
    "sb_text b2 = sb_text b1 @ open_json ?r"
    using open_json_appends [OF assms(1) b1(2) assms(8)] b1(3) assms(9) len by auto
  obtain b3 where b3: "sb_append (mem 1) b2 (c_block (NL # ''\"execCalls\"=['')) = Inr (0, b3)"
    "sb_ready b3" "sb_text b3 = sb_text b2 @ NL # ''\"execCalls\"=[''"
    using put_piece [OF b2(2), of "NL # ''\"execCalls\"=[''" "mem 1"] b1(3) b2(3) assms(6,9) len
    by (auto simp: NUL_def NL_def)
  have es: "concat (map (\<lambda>p. exec_json (the p) @ '', '') (take (length es) (drop 0 (elems ?v))))
      = concat (map (\<lambda>e. exec_json e @ '', '') es)"
    using v(1) n by (simp add: comp_def)
  obtain b4 where b4: "json_execs loop_mem (length es) 0 (elems ?v) b3 = Inr (True, b4)" "sb_ready b4"
    "sb_text b4 = sb_text b3 @ concat (map (\<lambda>e. exec_json e @ '', '') es)"
    using json_execs_append [OF b3(2), of 0 "length es" "elems ?v" loop_mem] v(2) n nth assms(7,9)
      b1(3) b2(3) b3(3) len unfolding es by auto
  obtain b5 where b5: "sb_append (mem 2) b4 (c_block ('']}'' @ [NL])) = Inr (0, b5)" "sb_ready b5"
    "sb_text b5 = sb_text b4 @ '']}'' @ [NL]"
    using put_piece [OF b4(2), of "'']}'' @ [NL]" "mem 2"] b1(3) b2(3) b3(3) b4(3) assms(6,9) len
    by (auto simp: NUL_def NL_def)
  have "db_full_Record_jsonsb mem loop_mem open_mem this b = Inr (0, b5)"
    using b1(1) b2(1) b3(1) b4(1) b5(1) n by (simp add: db_full_Record_jsonsb_def Let_def)
  then show ?thesis
    using b1(3) b2(3) b3(3) b4(3) b5(2,3) by (simp add: full_json_def)
qed

section \<open>Properties\<close>

definition demo_full :: db_full_Record where
  "demo_full = \<lparr>fr_openCall = demo_open_record,
     fr_execCalls = \<lparr>elems = [Some demo_exec_record, None], size_elem = ptr_size, capacity = 2, vlength = 1\<rparr>\<rparr>"

definition demo_sb :: stringBuffer where
  "demo_sb = \<lparr>sb_string = [NUL], sb_size = 1, end_pos = 0\<rparr>"

lemma demo_sb_ready: "sb_ready demo_sb" "sb_text demo_sb = []"
  by (simp_all add: demo_sb_def sb_ready_def sb_wf_def sb_terminated_def sb_text_def)

lemma demo_json_length:
  "length (full_json demo_open_record [demo_exec_record]) < 1000"
proof -
  have "length (exec_numbers demo_exec_record) < 300"
    by (rule exec_numbers_fit [OF demo_records_ok(1)])
  moreover have "length (open_numbers demo_open_record) < 300"
    using length_show_stamp [of "or_time_stamp demo_open_record"]
      length_show_int32 [of "or_flag demo_open_record"] demo_records_ok(2)
    by (simp add: open_numbers_def oCall_ok_def)
  ultimately show ?thesis
    by (simp add: full_json_def exec_json_def open_json_def demo_exec_record_def demo_open_record_def)
qed

theorem full_json_appends:
  assumes "oCall_ok (fr_openCall this)" "vec_wf (fr_execCalls this)"
    "vec_list (fr_execCalls this) = map Some es" "\<forall>e \<in> set es. eCall_ok e" "sb_ready b"
    "\<forall>i n. grants (mem i) n" "\<forall>k i n. grants (loop_mem k i) n" "\<forall>i n. grants (open_mem i) n"
    "length (sb_text b) + length (full_json (fr_openCall this) es) < 2 ^ 32"
  shows "\<exists>b'. db_full_Record_jsonsb mem loop_mem open_mem this b = Inr (0, b') \<and> sb_ready b'
           \<and> sb_text b' = sb_text b @ full_json (fr_openCall this) es"
  by (rule full_jsonsb_appends [OF assms])

theorem full_json_appends_witness:
  "\<exists>b'. db_full_Record_jsonsb (\<lambda>_. roomy) (\<lambda>_ _. roomy) (\<lambda>_. roomy) demo_full demo_sb = Inr (0, b')
     \<and> sb_ready b'
     \<and> sb_text b' = sb_text demo_sb @ full_json (fr_openCall demo_full) [demo_exec_record]"
  by (rule full_json_appends)
     (use demo_json_length in \<open>simp_all add: demo_full_def demo_records_ok demo_sb_ready vec_wf_def
        vec_list_def\<close>)

theorem open_stringb_appends_witness:
  "\<exists>b'. db_openCall_to_stringb (\<lambda>_. roomy) demo_sb demo_open_record = Inr (0, b') \<and> sb_ready b'
     \<and> sb_text b' = sb_text demo_sb @ ''filepath:'' @ [NL] @ '' '' @ the (or_filepath demo_open_record)
         @ [NL] @ open_lines demo_open_record"
  by (rule open_stringb_appends [OF demo_records_ok(2) demo_sb_ready(1)])
     (simp_all add: demo_sb_ready demo_open_record_def)

end
