(* ===== verification/Database.thy ===== *)
theory Database
  imports Render "HOL-Library.Multiset"
begin

text \<open>
  The database functions of \<open>src/src/watchdog/src/database.c\<close>, lines 337-681, and
  \<open>surv_database_dispatch\<close> of \<open>src/src/watchdog/src/watchdog.c\<close>, lines 1186-1219.

  Berkeley DB is a library that is not part of the program. Its calls are parameters, collected
  in the record \<open>bdb\<close>: storing in and reading from a database, and the items under a path in
  the secondary index, each with its return code. Where a lemma relies on what the library
  documents, that is a named hypothesis (\<open>exec_store_law\<close>).
\<close>

section \<open>The library\<close>

record 'd bdb =
  bdb_put_exec :: "'d \<Rightarrow> char list \<Rightarrow> char list \<Rightarrow> int \<times> 'd"
  bdb_get_exec :: "'d \<Rightarrow> char list \<Rightarrow> int \<times> char list option"
  bdb_put_open :: "'d \<Rightarrow> char list \<Rightarrow> char list \<Rightarrow> int \<times> 'd"
  bdb_find_path :: "'d \<Rightarrow> char list \<Rightarrow> int \<times> char list list"

text \<open>
  A record that \<open>put\<close> accepted is what \<open>get\<close> finds under every key that compares equal.
\<close>

definition exec_store_law :: "'d bdb \<Rightarrow> bool" where
  "exec_store_law ops \<longleftrightarrow> (\<forall>db k v db'. bdb_put_exec ops db k v = (0, db') \<longrightarrow>
     (\<forall>k'. db_execCall_KeyComp k' k = Inr 0 \<longrightarrow> bdb_get_exec ops db' k' = (0, Some v)))"

section \<open>Opening and closing\<close>

text \<open>Which handles are not null.\<close>

record db_manager =
  dm_dbenv :: bool
  dm_openCallDBp :: bool
  dm_openCallFilePathDBp :: bool
  dm_execCallDBp :: bool
  dm_watchlistDBp :: bool

definition db_man_init :: "db_manager \<Rightarrow> int \<times> db_manager" where
  "db_man_init this = (0, this\<lparr>dm_openCallDBp := False, dm_openCallFilePathDBp := False,
     dm_execCallDBp := False, dm_watchlistDBp := False\<rparr>)"

text \<open>
  The bytes of the path in a stored record, terminator included: the key of the secondary index.
\<close>

definition db_openCalls_filepathCallback :: "char list \<Rightarrow> char list res" where
  "db_openCalls_filepathCallback data =
     (let start_pos = 16 + 4 + 24 in
      bind_r (c_str (drop start_pos data)) (\<lambda>s.
        read_at data start_pos (length s + 1)))"

text \<open>
  \<open>rc\<close> gives the return code of the library at each call, by name. The codes of the calls that
  open \<open>openCalls.db\<close> and \<open>execCalls.db\<close> and of \<open>set_bt_compare\<close> are overwritten unread.
\<close>

datatype db_call =
    Env_create | Env_open | Open_create | Open_open | Path_create | Path_flags | Path_open
  | Path_associate | Watch_create | Watch_open | Exec_create | Exec_compare | Exec_open

definition createDatabase :: "(db_call \<Rightarrow> int) \<Rightarrow> db_manager \<Rightarrow> int \<times> db_manager" where
  "createDatabase rc man =
     (if rc Env_create \<noteq> 0 then (-1, man) else let man = man\<lparr>dm_dbenv := True\<rparr> in
      if rc Env_open \<noteq> 0 then (-1, man) else
      if rc Open_create \<noteq> 0 then (-1, man) else let man = man\<lparr>dm_openCallDBp := True\<rparr> in
      if rc Path_create \<noteq> 0 then (-1, man) else let man = man\<lparr>dm_openCallFilePathDBp := True\<rparr> in
      if rc Path_flags \<noteq> 0 then (-1, man) else
      if rc Path_open \<noteq> 0 then (-1, man) else
      if rc Path_associate \<noteq> 0 then (-1, man) else
      if rc Watch_create \<noteq> 0 then (-1, man) else let man = man\<lparr>dm_watchlistDBp := True\<rparr> in
      if rc Watch_open \<noteq> 0 then (-1, man) else
      if rc Exec_create \<noteq> 0 then (-1, man) else let man = man\<lparr>dm_execCallDBp := True\<rparr> in
      (0, man))"

text \<open>The return code is that of the last handle closed; the handles are closed in this order.\<close>

definition db_man_close :: "(db_call \<Rightarrow> int) \<Rightarrow> db_manager \<Rightarrow> int" where
  "db_man_close rc man =
     (let ret = 0;
          ret = (if dm_openCallFilePathDBp man then rc Path_create else ret);
          ret = (if dm_openCallDBp man then rc Open_create else ret);
          ret = (if dm_execCallDBp man then rc Exec_create else ret);
          ret = (if dm_watchlistDBp man then rc Watch_create else ret) in ret)"

section \<open>Adding and finding records\<close>

text \<open>
  The parameters \<open>pad\<close> are the padding of the structs involved, \<open>key0\<close> is what the key on the
  stack holds before it is filled in.
\<close>

definition db_add_execCall ::
  "'d bdb \<Rightarrow> alloc_env \<Rightarrow> (nat \<Rightarrow> char) \<Rightarrow> 'd \<Rightarrow> eCallRecord \<Rightarrow> (int \<times> 'd) res" where
  "db_add_execCall ops env pad db e =
     (let eCallKey = db_execCall_genKey e; m_obj = m_object_init m_empty in
      bind_r (db_execCall_marshall env m_obj e) (\<lambda>(_, m_obj).
        bind_r (deref (m_buffer m_obj)) (\<lambda>b.
          Inr (bdb_put_exec ops db (eCallKey_bytes pad eCallKey) (take (m_size m_obj) b)))))"

definition db_get_execCall_by_key ::
  "'d bdb \<Rightarrow> (nat \<Rightarrow> alloc_env) \<Rightarrow> (nat \<Rightarrow> char) \<Rightarrow> 'd \<Rightarrow> eCallRecord \<Rightarrow> db_eCallKey
   \<Rightarrow> (int \<times> eCallRecord) res" where
  "db_get_execCall_by_key ops mem pad db e key =
     (case bdb_get_exec ops db (eCallKey_bytes pad key) of (ret, data) \<Rightarrow>
        if ret \<noteq> 0 then Inr (ret, e)
        else db_execCall_unmarshall mem e \<lparr>m_buffer = data, m_size = length (case data of None \<Rightarrow> [] | Some b \<Rightarrow> b)\<rparr>)"

definition db_add_openCall ::
  "'d bdb \<Rightarrow> alloc_env \<Rightarrow> (nat \<Rightarrow> char) \<Rightarrow> (nat \<Rightarrow> char) \<Rightarrow> db_oCallKey \<Rightarrow> 'd \<Rightarrow> oCallRecord
   \<Rightarrow> (int \<times> 'd) res" where
  "db_add_openCall ops env rec_pad pad key0 db r =
     bind_r (db_openCall_genKey key0 r) (\<lambda>oCallKey.
       let m_obj = m_object_init m_empty in
       bind_r (db_openCall_marshall rec_pad env m_obj r) (\<lambda>(_, m_obj).
         bind_r (deref (m_buffer m_obj)) (\<lambda>b.
           Inr (bdb_put_open ops db (oCallKey_bytes pad oCallKey) (take (m_size m_obj) b)))))"

section \<open>Finding the records of a path\<close>

text \<open>
  What the surroundings do while one item is handled. \<open>re_memory\<close> and \<open>re_tmp_memory\<close> are what
  the requested records hold before they are filled in.
\<close>

record retrieve_env =
  re_record :: alloc_env
  re_vector :: alloc_env
  re_open :: "nat \<Rightarrow> alloc_env"
  re_tmp :: "nat \<Rightarrow> alloc_env"
  re_exec :: "nat \<Rightarrow> nat \<Rightarrow> alloc_env"
  re_append :: "nat \<Rightarrow> alloc_env"
  re_list :: alloc_env
  re_pad :: "nat \<Rightarrow> char"
  re_memory :: db_full_Record
  re_tmp_memory :: eCallRecord

definition sizeof_eCallRecord :: nat where
  "sizeof_eCallRecord = 72"

definition sizeof_full_Record :: nat where
  "sizeof_full_Record = 88"

text \<open>The key of the parent is not stored, so a record read keeps the one it was reset to.\<close>

lemma unmarshall_parent:
  "db_execCall_unmarshall mem e m = Inr (ret, e') \<Longrightarrow> er_parentEcall e' = er_parentEcall e"
  unfolding db_execCall_unmarshall_def Let_def
  by (elim bind_r_InrE, clarify) (elim bind_r_InrE | simp split: if_splits prod.splits | clarify)+

lemma get_execCall_parent:
  "db_get_execCall_by_key ops mem pad db e key = Inr (ret, e') \<Longrightarrow> er_parentEcall e' = er_parentEcall e"
  by (auto simp: db_get_execCall_by_key_def split: prod.splits if_splits dest: unmarshall_parent)

text \<open>The loop over the chain of processes: from round \<open>k\<close> on, with the code and the list so far.\<close>

function retrieve_chain ::
  "'d bdb \<Rightarrow> 'd \<Rightarrow> retrieve_env \<Rightarrow> nat \<Rightarrow> db_eCallKey \<Rightarrow> int \<Rightarrow> eCallRecord vector
   \<Rightarrow> (int \<times> eCallRecord vector) res" where
  "retrieve_chain ops db env k next_eCallKey ret execCalls =
     (if ek_pid next_eCallKey = 0 then Inr (ret, execCalls)
      else if \<not> can_alloc (re_tmp env k) sizeof_eCallRecord then Inl NullDeref
      else bind_r (db_get_execCall_by_key ops (re_exec env k) (re_pad env) db
                     (db_execCall_init (re_tmp_memory env)) next_eCallKey) (\<lambda>p.
        if fst p \<noteq> 0
        then retrieve_chain ops db env (k + 1) (next_eCallKey\<lparr>ek_pid := 0\<rparr>) (fst p) execCalls
        else bind_r (vector_append (re_append env k) execCalls (Some (snd p))) (\<lambda>q.
          retrieve_chain ops db env (k + 1) (er_parentEcall (snd p)) (fst q) (snd q))))"
  by pat_completeness auto
termination
proof (relation "measure (\<lambda>(ops, db, env, k, key, ret, v). if ek_pid key = 0 then 0 else 1)",
    goal_cases)
  case 1
  show ?case by simp
next
  case (2 ops db env k key ret v p)
  then show ?case by simp
next
  case (3 ops db env k key ret v p q)
  have "er_parentEcall (snd p) = er_parentEcall (db_execCall_init (re_tmp_memory env))"
    using 3(3) get_execCall_parent by (metis prod.collapse)
  with 3(1) show ?case
    by (simp add: db_execCall_init_def eCallKey_zero_def)
qed

declare retrieve_chain.simps [simp del]

fun retrieve_items ::
  "'d bdb \<Rightarrow> 'd \<Rightarrow> (nat \<Rightarrow> retrieve_env) \<Rightarrow> nat \<Rightarrow> char list list \<Rightarrow> int \<Rightarrow> db_full_Record vector
   \<Rightarrow> (int \<times> db_full_Record vector) res" where
  "retrieve_items ops db env k [] ret recordList = Inr (ret, recordList)"
| "retrieve_items ops db env k (data # items) ret recordList =
     (if \<not> can_alloc (re_record (env k)) sizeof_full_Record then Inl NullDeref
      else case db_full_Record_init (re_vector (env k)) (re_memory (env k)) of (_, fullRecord) \<Rightarrow>
        bind_r (db_openCall_unmarshall (re_open (env k)) (fr_openCall fullRecord)
                  \<lparr>m_buffer = Some data, m_size = length data\<rparr>) (\<lambda>(_, oc).
          bind_r (retrieve_chain ops db (env k) 0 (or_eCallKey oc) ret (fr_execCalls fullRecord))
            (\<lambda>(ret, v).
              bind_r (vector_append (re_list (env k)) recordList
                        (Some (fullRecord\<lparr>fr_openCall := oc, fr_execCalls := v\<rparr>)))
                (\<lambda>(ret, recordList). retrieve_items ops db env (k + 1) items ret recordList))))"

definition retrieveRecords_Path ::
  "'d bdb \<Rightarrow> (nat \<Rightarrow> retrieve_env) \<Rightarrow> db_full_Record vector \<Rightarrow> 'd \<Rightarrow> char list
   \<Rightarrow> (int \<times> db_full_Record vector) res" where
  "retrieveRecords_Path ops env recordList db path =
     bind_r (c_str path) (\<lambda>p.
       case bdb_find_path ops db (p @ [NUL]) of (ret, items) \<Rightarrow>
         if ret \<noteq> 0 then Inr (ret, recordList)
         else retrieve_items ops db env 0 items ret recordList)"

section \<open>Storing a finished process\<close>

text \<open>The surroundings: allocators of the two kinds of add, padding, and the key on the stack.\<close>

record dispatch_env =
  de_exec :: alloc_env
  de_open :: "nat \<Rightarrow> alloc_env"
  de_pad :: "nat \<Rightarrow> char"
  de_key_pad :: "nat \<Rightarrow> char"
  de_key :: "nat \<Rightarrow> db_oCallKey"

definition dispatch_record :: "int \<Rightarrow> execCall \<Rightarrow> eCallRecord" where
  "dispatch_record boot_time e =
     \<lparr>er_pid = ec_pid e, er_ppid = ec_ppid e,
      er_parentEcall = \<lparr>ek_time_stamp = ec_ptime_stamp e, ek_pid = ec_ppid e\<rparr>,
      er_time_stamp = (ec_time_stamp e)\<lparr>tv_sec := tv_sec (ec_time_stamp e) + boot_time\<rparr>,
      er_cmd_name = ec_cmdName e, er_args = ec_args e, er_env_args = Some []\<rparr>"

definition dispatch_open_record :: "int \<Rightarrow> eCallRecord \<Rightarrow> openCall \<Rightarrow> oCallRecord" where
  "dispatch_open_record boot_time record oc =
     \<lparr>or_flag = oc_flag oc,
      or_time_stamp = (oc_time_stamp oc)\<lparr>tv_sec := tv_sec (oc_time_stamp oc) + boot_time\<rparr>,
      or_eCallKey = db_execCall_genKey record, or_filepath = oc_filepath oc\<rparr>"

fun dispatch_opens ::
  "'d bdb \<Rightarrow> dispatch_env \<Rightarrow> int \<Rightarrow> eCallRecord \<Rightarrow> openCall option list \<Rightarrow> nat \<Rightarrow> nat \<Rightarrow> int \<Rightarrow> 'd
   \<Rightarrow> (int \<times> 'd) res" where
  "dispatch_opens ops env boot_time record buf i 0 ret db = Inr (ret, db)"
| "dispatch_opens ops env boot_time record buf i (Suc n) ret db =
     bind_r (slot buf (int i)) (\<lambda>p. bind_r (deref p) (\<lambda>oc.
       bind_r (db_add_openCall ops (de_open env i) (de_pad env) (de_key_pad env) (de_key env i) db
                 (dispatch_open_record boot_time record oc)) (\<lambda>(ret, db).
         dispatch_opens ops env boot_time record buf (i + 1) n ret db)))"

definition surv_database_dispatch ::
  "'d bdb \<Rightarrow> dispatch_env \<Rightarrow> int \<Rightarrow> 'd \<Rightarrow> execCall \<Rightarrow> (int \<times> 'd) res" where
  "surv_database_dispatch ops env boot_time db eCall =
     (let record = dispatch_record boot_time eCall in
      bind_r (db_add_execCall ops (de_exec env) (de_pad env) db record) (\<lambda>(ret, db).
        dispatch_opens ops env boot_time record (ec_callBuff eCall) 0 (nat (ec_call_num eCall)) ret db))"

section \<open>The secondary index\<close>

lemma filepathCallback_image:
  assumes "oCall_ok r"
  shows "db_openCalls_filepathCallback (oCall_image pad r) = Inr (the (or_filepath r) @ [NUL])"
proof -
  obtain path where s: "or_filepath r = Some path" "NUL \<notin> set path"
    using assms by (auto simp: oCall_ok_def str_ok_def)
  have "drop 44 (oCall_image pad r) = path @ [NUL]"
    by (simp add: oCall_image_def s c_block_def)
  then show ?thesis
    using s by (simp add: db_openCalls_filepathCallback_def Let_def read_at_def oCall_image_def
        c_block_def)
qed

lemma createDatabase_spec:
  "fst (createDatabase rc man) = (if \<forall>c \<in> {Env_create, Env_open, Open_create, Path_create,
       Path_flags, Path_open, Path_associate, Watch_create, Watch_open, Exec_create}. rc c = 0
     then 0 else -1)"
  by (auto simp: createDatabase_def Let_def)

lemma createDatabase_handles:
  assumes "createDatabase rc man = (0, man')"
  shows "dm_dbenv man' \<and> dm_openCallDBp man' \<and> dm_openCallFilePathDBp man' \<and> dm_execCallDBp man'
     \<and> dm_watchlistDBp man'"
  using assms by (auto simp: createDatabase_def Let_def split: if_splits)

section \<open>What is stored and found\<close>

lemma m_object_init_empty [simp]: "m_object_init m_empty = m_empty"
  by (simp add: m_object_init_def m_empty_def)

lemma add_execCall_puts:
  assumes "eCall_ok e" "can_alloc env (length (eCall_image e))"
  shows "db_add_execCall ops env pad db e
     = Inr (bdb_put_exec ops db (eCallKey_bytes pad (db_execCall_genKey e)) (eCall_image e))"
  using ecodec.marshall_image [OF assms] by (simp add: db_add_execCall_def Let_def)

lemma genKey_ok: "eCall_ok e \<Longrightarrow> eCallKey_ok (db_execCall_genKey e)"
  by (simp add: eCall_ok_def eCallKey_ok_def db_execCall_genKey_def)

lemma KeyComp_same:
  assumes "eCallKey_ok k"
  shows "db_execCall_KeyComp (eCallKey_bytes p k) (eCallKey_bytes q k) = Inr 0"
  using KeyComp_eq [OF assms assms, of p q] by (simp add: timercmp_def to_int32_def)

lemma add_then_get:
  assumes law: "exec_store_law ops" and ok: "eCall_ok e"
    and mem: "can_alloc env (length (eCall_image e))" "\<forall>k n. grants (mem k) n"
    and put: "db_add_execCall ops env pad db e = Inr (0, db')"
  shows "db_get_execCall_by_key ops mem pad' db' old (db_execCall_genKey e) = Inr (0, eCall_fill old e)"
proof -
  let ?k = "db_execCall_genKey e"
  have "bdb_put_exec ops db (eCallKey_bytes pad ?k) (eCall_image e) = (0, db')"
    using put by (simp add: add_execCall_puts [OF ok mem(1)])
  then have get: "bdb_get_exec ops db' (eCallKey_bytes pad' ?k) = (0, Some (eCall_image e))"
    using law KeyComp_same [OF genKey_ok [OF ok]] unfolding exec_store_law_def by blast
  have len: "length (eCall_image e) < 2 ^ 63"
    using mem(1) by (simp add: can_alloc_def)
  from ecodec.unmarshall_image [OF ok mem(2) len, of old "[]"] get show ?thesis
    by (simp add: db_get_execCall_by_key_def)
qed

definition oCallKey_of :: "(nat \<Rightarrow> char) \<Rightarrow> db_oCallKey \<Rightarrow> oCallRecord \<Rightarrow> char list" where
  "oCallKey_of pad key0 r = put_timeval (or_time_stamp r)
     @ drop (length (the (or_filepath r)) - 99) (the (or_filepath r)) @ NUL
     # drop (min (length (the (or_filepath r))) 99 + 1) (ok_filepath_suffix key0) @ map pad [0..<4]"

lemma add_openCall_puts:
  assumes "oCall_ok r" "can_alloc env (length (oCall_image rpad r))"
    "length (ok_filepath_suffix key0) = 100"
  shows "db_add_openCall ops env rpad pad key0 db r
     = Inr (bdb_put_open ops db (oCallKey_of pad key0 r) (oCall_image rpad r))"
proof -
  obtain path where s: "or_filepath r = Some path"
    using assms(1) by (auto simp: oCall_ok_def str_ok_def)
  show ?thesis
    using ocodec.marshall_image [OF assms(1,2)] gen_filepath_suffix_eq [OF assms(3), of path] s
    by (simp add: db_add_openCall_def db_openCall_genKey_def oCallKey_bytes_def oCallKey_of_def Let_def)
qed

text \<open>A process and its open calls, one after the other, and all under the key of the process.\<close>

fun put_opens :: "'d bdb \<Rightarrow> dispatch_env \<Rightarrow> nat \<Rightarrow> oCallRecord list \<Rightarrow> int \<times> 'd \<Rightarrow> int \<times> 'd" where
  "put_opens ops env i [] st = st"
| "put_opens ops env i (r # rs) st =
     put_opens ops env (i + 1) rs
       (bdb_put_open ops (snd st) (oCallKey_of (de_key_pad env) (de_key env i) r)
          (oCall_image (de_pad env) r))"

definition good_dispatch :: "dispatch_env \<Rightarrow> bool" where
  "good_dispatch env \<longleftrightarrow> (\<forall>n. grants (de_exec env) n) \<and> (\<forall>i n. grants (de_open env i) n)
     \<and> (\<forall>i. length (ok_filepath_suffix (de_key env i)) = 100)"

lemma dispatch_opens_puts:
  assumes "good_dispatch env" "i + n \<le> length buf"
    "\<forall>k. i \<le> k \<and> k < i + n \<longrightarrow> (\<exists>oc. buf ! k = Some oc
       \<and> oCall_ok (dispatch_open_record boot rec oc)
       \<and> length (oCall_image (de_pad env) (dispatch_open_record boot rec oc)) < 2 ^ 63)"
  shows "dispatch_opens ops env boot rec buf i n ret db
     = Inr (put_opens ops env i
         (map (\<lambda>p. dispatch_open_record boot rec (the p)) (take n (drop i buf))) (ret, db))"
  using assms(2,3)
proof (induction n arbitrary: i ret db)
  case 0
  then show ?case by simp
next
  case (Suc n)
  have i: "i < length buf" using Suc.prems(1) by simp
  obtain oc where oc: "buf ! i = Some oc" "oCall_ok (dispatch_open_record boot rec oc)"
    "length (oCall_image (de_pad env) (dispatch_open_record boot rec oc)) < 2 ^ 63"
    using Suc.prems(2) by (auto dest!: spec [of _ i])
  have mem: "can_alloc (de_open env i)
      (length (oCall_image (de_pad env) (dispatch_open_record boot rec oc)))"
    "length (ok_filepath_suffix (de_key env i)) = 100"
    using assms(1) oc(3) by (simp_all add: good_dispatch_def can_alloc_def)
  have rest: "\<forall>k. Suc i \<le> k \<and> k < Suc i + n \<longrightarrow> (\<exists>oc. buf ! k = Some oc
       \<and> oCall_ok (dispatch_open_record boot rec oc)
       \<and> length (oCall_image (de_pad env) (dispatch_open_record boot rec oc)) < 2 ^ 63)"
    using Suc.prems(2) by auto
  show ?case
    using add_openCall_puts [OF oc(2) mem, of ops "de_key_pad env" db] oc(1) i Suc.prems(1)
      Suc.IH [OF _ rest] take_Suc_drop [OF i, of n]
    by (simp add: case_prod_beta)
qed

lemma dispatch_puts:
  assumes "good_dispatch env" "calls_wf e" "eCall_ok (dispatch_record boot e)"
    "length (eCall_image (dispatch_record boot e)) < 2 ^ 63"
    "\<forall>oc \<in> set (calls_of e). oCall_ok (dispatch_open_record boot (dispatch_record boot e) oc)
       \<and> length (oCall_image (de_pad env) (dispatch_open_record boot (dispatch_record boot e) oc))
          < 2 ^ 63"
  shows "surv_database_dispatch ops env boot db e
     = Inr (put_opens ops env 0
         (map (dispatch_open_record boot (dispatch_record boot e)) (calls_of e))
         (bdb_put_exec ops db (eCallKey_bytes (de_pad env) (db_execCall_genKey (dispatch_record boot e)))
            (eCall_image (dispatch_record boot e))))"
proof -
  let ?r = "dispatch_record boot e" and ?n = "nat (ec_call_num e)"
  have n: "?n \<le> length (ec_callBuff e)"
    using assms(2) by (auto simp: calls_wf_def)
  have "can_alloc (de_exec env) (length (eCall_image ?r))"
    using assms(1,4) by (simp add: good_dispatch_def can_alloc_def)
  note add = add_execCall_puts [OF assms(3) this, of ops "de_pad env" db]
  have "\<exists>oc. ec_callBuff e ! k = Some oc \<and> oc \<in> set (calls_of e)" if k: "k < ?n" for k
  proof -
    obtain oc where oc: "ec_callBuff e ! k = Some oc"
      using assms(2) k unfolding calls_wf_def by blast
    have "calls_of e ! k = oc" "k < length (calls_of e)"
      using k n oc by (simp_all add: calls_of_def)
    then have "oc \<in> set (calls_of e)"
      by (metis nth_mem)
    with oc show ?thesis by blast
  qed
  then have "\<forall>k. 0 \<le> k \<and> k < 0 + ?n \<longrightarrow> (\<exists>oc. ec_callBuff e ! k = Some oc
       \<and> oCall_ok (dispatch_open_record boot ?r oc)
       \<and> length (oCall_image (de_pad env) (dispatch_open_record boot ?r oc)) < 2 ^ 63)"
    using assms(5) by fastforce
  from dispatch_opens_puts [where ops = ops, OF assms(1) _ this] n add show ?thesis
    by (simp add: surv_database_dispatch_def Let_def calls_of_def comp_def case_prod_beta)
qed


section \<open>What is retrieved\<close>

text \<open>
  \<open>look\<close> is the content of the database of processes, as far as \<open>get\<close> tells: a record that was
  stored, or nothing.
\<close>

definition finds :: "'d bdb \<Rightarrow> 'd \<Rightarrow> (nat \<Rightarrow> char) \<Rightarrow> (db_eCallKey \<Rightarrow> eCallRecord option) \<Rightarrow> bool" where
  "finds ops db pad look \<longleftrightarrow> (\<forall>k. case look k of
       None \<Rightarrow> fst (bdb_get_exec ops db (eCallKey_bytes pad k)) \<noteq> 0
     | Some e \<Rightarrow> bdb_get_exec ops db (eCallKey_bytes pad k) = (0, Some (eCall_image e))
         \<and> eCall_ok e \<and> length (eCall_image e) < 2 ^ 63)"

definition good_retrieve :: "retrieve_env \<Rightarrow> bool" where
  "good_retrieve env \<longleftrightarrow> (\<forall>n. grants (re_record env) n \<and> grants (re_vector env) n
     \<and> grants (re_list env) n) \<and> (\<forall>k n. grants (re_open env k) n \<and> grants (re_tmp env k) n
     \<and> grants (re_append env k) n) \<and> (\<forall>k i n. grants (re_exec env k i) n)"

text \<open>The processes listed with an open call: its own, if it is known, and never a parent.\<close>

definition chain_of :: "(db_eCallKey \<Rightarrow> eCallRecord option) \<Rightarrow> db_eCallKey \<Rightarrow> eCallRecord list" where
  "chain_of look k =
     (if ek_pid k = 0 then []
      else case look k of None \<Rightarrow> [] | Some e \<Rightarrow> [e\<lparr>er_parentEcall := eCallKey_zero\<rparr>])"

lemma retrieve_chain_spec:
  assumes env: "good_retrieve env" and look: "finds ops db (re_pad env) look" and v: "vec_wf v"
    "vec_list v = []"
  shows "\<exists>r v'. retrieve_chain ops db env 0 key ret v = Inr (r, v') \<and> vec_wf v'
           \<and> vec_list v' = map Some (chain_of look key)"
proof (cases "ek_pid key = 0")
  case True
  with v show ?thesis by (simp add: retrieve_chain.simps chain_of_def)
next
  case False
  let ?tmp = "db_execCall_init (re_tmp_memory env)"
  have tmp: "can_alloc (re_tmp env 0) sizeof_eCallRecord"
    using env by (simp add: good_retrieve_def can_alloc_def sizeof_eCallRecord_def)
  have zero: "er_parentEcall ?tmp = eCallKey_zero"
    by (simp add: db_execCall_init_def)
  show ?thesis
  proof (cases "look key")
    case None
    obtain c data where get: "bdb_get_exec ops db (eCallKey_bytes (re_pad env) key) = (c, data)"
      by (cases "bdb_get_exec ops db (eCallKey_bytes (re_pad env) key)")
    have "c \<noteq> 0"
      using look None get by (auto simp: finds_def dest!: spec [of _ key])
    then have "retrieve_chain ops db env 0 key ret v
        = retrieve_chain ops db env 1 (key\<lparr>ek_pid := 0\<rparr>) c v"
      using False tmp get
      by (simp add: retrieve_chain.simps [of ops db env 0 key] db_get_execCall_by_key_def)
    with None v show ?thesis
      by (simp add: retrieve_chain.simps [of ops db env "Suc 0"] chain_of_def)
  next
    case (Some e)
    have e: "bdb_get_exec ops db (eCallKey_bytes (re_pad env) key) = (0, Some (eCall_image e))"
      "eCall_ok e" "length (eCall_image e) < 2 ^ 63"
      using look Some by (auto simp: finds_def dest!: spec [of _ key])
    let ?e = "e\<lparr>er_parentEcall := eCallKey_zero\<rparr>"
    have "\<forall>k n. grants (re_exec env 0 k) n"
      using env by (simp add: good_retrieve_def)
    from ecodec.unmarshall_image [OF e(2) this e(3), of ?tmp "[]"]
    have get: "db_get_execCall_by_key ops (re_exec env 0) (re_pad env) db ?tmp key = Inr (0, ?e)"
      using e(1) zero by (simp add: db_get_execCall_by_key_def eCall_fill_def)
    have "can_alloc (re_append env 0) n" if "n \<le> 12 * length (vec_list v)" for n
      using env v(2) that by (simp add: good_retrieve_def can_alloc_def)
    then obtain v1 where v1: "vector_append (re_append env 0) v (Some ?e) = Inr (0, v1)" "vec_wf v1"
      "vec_list v1 = [Some ?e]"
      using vector_append_total [OF v(1), of "re_append env 0" "Some ?e"] v(2) by auto
    have "retrieve_chain ops db env 0 key ret v = retrieve_chain ops db env 1 eCallKey_zero 0 v1"
      using False tmp get v1(1) by (simp add: retrieve_chain.simps [of ops db env 0 key])
    also have "\<dots> = Inr (0, v1)"
      by (simp add: retrieve_chain.simps eCallKey_zero_def)
    finally show ?thesis
      using v1 Some False by (simp add: chain_of_def)
  qed
qed

definition full_of :: "(db_eCallKey \<Rightarrow> eCallRecord option) \<Rightarrow> oCallRecord \<Rightarrow> db_full_Record \<Rightarrow> bool"
  where
  "full_of look r f \<longleftrightarrow> fr_openCall f = r \<and> vec_wf (fr_execCalls f)
     \<and> vec_list (fr_execCalls f) = map Some (chain_of look (or_eCallKey r))"

text \<open>The bytes of a record, whatever its padding.\<close>

definition image_of :: "oCallRecord \<Rightarrow> char list \<Rightarrow> bool" where
  "image_of r v \<longleftrightarrow> oCall_ok r \<and> length v < 2 ^ 63 \<and> (\<exists>pad. v = oCall_image pad r)"

lemma retrieve_images:
  assumes "\<forall>k. good_retrieve (env k)" "\<forall>k. finds ops db (re_pad (env k)) look"
    "list_all2 image_of rs items" "vec_wf recordList"
    "length (vec_list recordList) + length rs < 2 ^ 58"
  shows "\<exists>ret' list' fs. retrieve_items ops db env k items ret recordList
            = Inr (ret', list') \<and> vec_wf list' \<and> (ret = 0 \<longrightarrow> ret' = 0)
          \<and> vec_list list' = vec_list recordList @ map Some fs \<and> list_all2 (full_of look) rs fs"
  using assms(3-)
proof (induction rs items arbitrary: k ret recordList rule: list_all2_induct)
  case Nil
  then show ?case by simp
next
  case (Cons r rs v items)
  let ?env = "env k"
  obtain pad where pad: "v = oCall_image pad r" using Cons.hyps(1) by (auto simp: image_of_def)
  have g: "good_retrieve ?env" using assms(1) by simp
  have mem: "can_alloc (re_record ?env) sizeof_full_Record" "can_alloc (re_vector ?env) (8 * ptr_size)"
    "\<forall>k n. grants (re_open ?env k) n"
    using g by (simp_all add: good_retrieve_def can_alloc_def sizeof_full_Record_def ptr_size_def)
  obtain v0 where v0: "vector_init (re_vector ?env) (fr_execCalls (re_memory ?env)) 8 8 = (0, v0)"
    "vec_wf v0" "vec_list v0 = []"
    using vector_init_total [OF mem(2), of "fr_execCalls (re_memory ?env)"]
    by (auto simp: ptr_size_def)
  let ?f = "(re_memory ?env)\<lparr>fr_openCall := (fr_openCall (re_memory ?env))\<lparr>or_filepath := None\<rparr>,
               fr_execCalls := v0\<rparr>"
  have r: "oCall_ok r" "length v < 2 ^ 63"
    using Cons.hyps(1) by (simp_all add: image_of_def)
  have un: "db_openCall_unmarshall (re_open ?env) (fr_openCall ?f)
      \<lparr>m_buffer = Some v, m_size = length v\<rparr> = Inr (0, r)"
    using ocodec.unmarshall_image [OF r(1) mem(3), of pad "fr_openCall ?f" "[]"] r(2) pad
    by (simp add: oCall_fill_def)
  obtain c v1 where chain: "retrieve_chain ops db ?env 0 (or_eCallKey r) ret v0 = Inr (c, v1)"
    "vec_wf v1" "vec_list v1 = map Some (chain_of look (or_eCallKey r))"
    using retrieve_chain_spec [OF g _ v0(2,3), of ops db look "or_eCallKey r" ret] assms(2) by blast
  let ?full = "?f\<lparr>fr_openCall := r, fr_execCalls := v1\<rparr>"
  have "can_alloc (re_list ?env) n" if "n \<le> 12 * length (vec_list recordList)" for n
    using g Cons.prems(2) that by (simp add: good_retrieve_def can_alloc_def)
  then obtain list1 where l1: "vector_append (re_list ?env) recordList (Some ?full) = Inr (0, list1)"
    "vec_wf list1" "vec_list list1 = vec_list recordList @ [Some ?full]"
    using vector_append_total [OF Cons.prems(1), of "re_list ?env" "Some ?full"] by blast
  obtain ret' list' fs where IH: "retrieve_items ops db env (k + 1) items 0 list1
      = Inr (ret', list')" "vec_wf list'" "ret' = 0"
    "vec_list list' = vec_list list1 @ map Some fs" "list_all2 (full_of look) rs fs"
    using Cons.IH [OF l1(2), of "k + 1" 0] Cons.prems(2) l1(3) by auto
  have full: "full_of look r ?full"
    using chain(2,3) by (simp add: full_of_def)
  have eq: "retrieve_items ops db env k (v # items) ret recordList
      = retrieve_items ops db env (k + 1) items 0 list1"
    using mem(1) v0(1) un chain(1) l1(1) by (simp add: db_full_Record_init_def)
  show ?case
    using IH eq full l1(3) by (intro exI [of _ ret'] exI [of _ list'] exI [of _ "?full # fs"]) simp
qed

lemma retrieve_items_spec:
  assumes "\<forall>k. good_retrieve (env k)" "\<forall>k. finds ops db (re_pad (env k)) look"
    "\<forall>r \<in> set rs. oCall_ok r \<and> length (oCall_image pad r) < 2 ^ 63" "vec_wf recordList"
    "length (vec_list recordList) + length rs < 2 ^ 58"
  shows "\<exists>ret' list' fs. retrieve_items ops db env k (map (oCall_image pad) rs) ret recordList
            = Inr (ret', list') \<and> vec_wf list' \<and> (ret = 0 \<longrightarrow> ret' = 0)
          \<and> vec_list list' = vec_list recordList @ map Some fs \<and> list_all2 (full_of look) rs fs"
proof (rule retrieve_images [OF assms(1,2) _ assms(4,5)])
  show "list_all2 image_of rs (map (oCall_image pad) rs)"
    using assms(3) by (auto simp: list_all2_conv_all_nth image_of_def)
qed

text \<open>
  C20: A search by path appends one record for each item of the index, in order: the stored open
  call with its own process, if the database has it, and never a parent process, because the key
  of the parent is not stored.
\<close>

lemma retrieve_spec:
  assumes "\<forall>k. good_retrieve (env k)" "\<forall>k. finds ops db (re_pad (env k)) look"
    "\<forall>r \<in> set rs. oCall_ok r \<and> length (oCall_image pad r) < 2 ^ 63" "vec_wf recordList"
    "length (vec_list recordList) + length rs < 2 ^ 58"
    "c_str path = Inr p" "bdb_find_path ops db (p @ [NUL]) = (0, map (oCall_image pad) rs)"
  shows "\<exists>list' fs. retrieveRecords_Path ops env recordList db path = Inr (0, list') \<and> vec_wf list'
          \<and> vec_list list' = vec_list recordList @ map Some fs \<and> list_all2 (full_of look) rs fs"
  using retrieve_items_spec [OF assms(1-5), of 0 0] assms(6,7)
  by (auto simp: retrieveRecords_Path_def)

section \<open>What the constructors build can be stored\<close>

text \<open>A process and an open call whose fields are values of their C types.\<close>

definition openCall_typed :: "openCall \<Rightarrow> bool" where
  "openCall_typed oc \<longleftrightarrow> timeval_ok (oc_time_stamp oc) \<and> int32_ok (oc_pid oc) \<and> int32_ok (oc_flag oc)
     \<and> str_ok (oc_cmdName oc) \<and> str_ok (oc_filepath oc)"

definition execCall_typed :: "execCall \<Rightarrow> bool" where
  "execCall_typed e \<longleftrightarrow> timeval_ok (ec_time_stamp e) \<and> int32_ok (ec_pid e) \<and> int32_ok (ec_ppid e)
     \<and> str_ok (ec_cmdName e) \<and> str_ok (ec_args e)"

lemma atoi_typed [simp]: "int32_ok (atoi s)"
  using atoi_range [of s] by (simp add: int32_ok_def)

lemma split_stamp_typed: "split_stamp ts = Inr (Some tv, ts') \<Longrightarrow> timeval_ok tv"
  using atol_range by (auto simp: split_stamp_def res_simps timeval_ok_def int64_ok_def split: if_splits)

lemma stringCpy_typed:
  assumes "sb_stringCpy env b = Inr (r, s)"
  shows "r = 0" "NUL \<notin> set s"
  using assms by (auto simp: sb_stringCpy_def res_simps split: if_splits dest: c_str_no_NUL)

lemma openCall_init_typed:
  assumes "openCall_init mem stat this ts cmd pid rv path = Inr (ret, oc, ts')" "ret \<noteq> 2"
  shows "openCall_typed oc"
proof -
  note init = assms(1) [unfolded openCall_init_def Let_def]
  from init obtain st b where s: "split_stamp ts = Inr (st, b)"
    by (cases "split_stamp ts") auto
  from init assms(2) obtain tv where st: "st = Some tv"
    by (cases st) (auto simp: s)
  from init obtain r1 n where n: "sb_stringCpy (mem 0) cmd = Inr (r1, n)"
    by (cases "sb_stringCpy (mem 0) cmd") (auto simp: s st)
  note n0 = stringCpy_typed [OF n]
  from init obtain r2 f where f: "sb_stringCpy (mem (Suc 0)) path = Inr (r2, f)"
    by (cases "sb_stringCpy (mem (Suc 0)) path") (auto simp: s st n n0)
  note f0 = stringCpy_typed [OF f]
  from init obtain v p g where "c_str (sb_string rv) = Inr v" "c_str (sb_string pid) = Inr p"
    "c_str (sb_string path) = Inr g"
    by (cases "c_str (sb_string rv)"; cases "c_str (sb_string pid)"; cases "c_str (sb_string path)")
       (auto simp: s st n n0 f f0)
  with init show ?thesis
    using n0(2) f0(2) split_stamp_typed [OF s [unfolded st]]
    by (auto simp: s st n n0 f f0 openCall_typed_def str_ok_def split: option.splits)
qed

lemma execCall_init_typed:
  assumes "execCall_init mem this ts cmd pid ppid args = Inr (0, e, ts')"
  shows "execCall_typed e"
proof -
  note init = assms [unfolded execCall_init_def Let_def]
  from init obtain st b where s: "split_stamp ts = Inr (st, b)"
    by (cases "split_stamp ts") auto
  from init obtain tv where st: "st = Some tv"
    by (cases st) (auto simp: s)
  from init obtain r1 n where n: "sb_stringCpy (mem 0) cmd = Inr (r1, n)"
    by (cases "sb_stringCpy (mem 0) cmd") (auto simp: s st)
  note n0 = stringCpy_typed [OF n]
  from init obtain r2 g where g: "sb_stringCpy (mem (Suc 0)) args = Inr (r2, g)"
    by (cases "sb_stringCpy (mem (Suc 0)) args") (auto simp: s st n n0)
  note g0 = stringCpy_typed [OF g]
  from init obtain q p where "c_str (sb_string ppid) = Inr q" "c_str (sb_string pid) = Inr p"
    by (cases "c_str (sb_string ppid)"; cases "c_str (sb_string pid)") (auto simp: s st n n0 g g0)
  with init show ?thesis
    using n0(2) g0(2) split_stamp_typed [OF s [unfolded st]]
    by (auto simp: s st n n0 g g0 execCall_typed_def str_ok_def MEMORY_ALLOCATION_ERROR_def split: if_splits)
qed

section \<open>Properties\<close>

text \<open>
  A store kept in two lists, which behaves as the library documents: a key is stored once, and a
  search by path gives the records with that path in the order of their insertion.
\<close>

type_synonym list_db = "(char list \<times> char list) list \<times> (char list \<times> char list) list"

definition list_store :: "list_db bdb" where
  "list_store = \<lparr>
     bdb_put_exec = (\<lambda>db k v.
       if \<exists>e \<in> set (fst db). db_execCall_KeyComp k (fst e) = Inr 0 then (-30994, db)
       else (0, ((k, v) # fst db, snd db))),
     bdb_get_exec = (\<lambda>db k.
       case filter (\<lambda>e. db_execCall_KeyComp k (fst e) = Inr 0) (fst db) of
         [] \<Rightarrow> (-30988, None) | e # _ \<Rightarrow> (0, Some (snd e))),
     bdb_put_open = (\<lambda>db k v.
       if k \<in> fst ` set (snd db) then (-30994, db) else (0, (fst db, snd db @ [(k, v)]))),
     bdb_find_path = (\<lambda>db p.
       case filter (\<lambda>e. db_openCalls_filepathCallback (snd e) = Inr p) (snd db) of
         [] \<Rightarrow> (-30988, []) | es \<Rightarrow> (0, map snd es))\<rparr>"

lemma list_store_law: "exec_store_law list_store"
  by (auto simp: exec_store_law_def list_store_def split: if_splits)

lemma list_store_put [simp]: "bdb_put_exec list_store ([], os) k v = (0, ([(k, v)], os))"
  by (simp add: list_store_def)

definition demo_db :: list_db where
  "demo_db = ([(eCallKey_bytes (\<lambda>_. NUL) (db_execCall_genKey demo_exec_record), eCall_image demo_exec_record)],
     [([], oCall_image (\<lambda>_. NUL) demo_open_record)])"

lemma demo_image_lengths:
  "length (eCall_image demo_exec_record) < 100" "length (oCall_image pad demo_open_record) < 100"
  by (simp_all add: eCall_image_def oCall_image_def demo_exec_record_def demo_open_record_def)

theorem add_then_get_witness:
  "db_get_execCall_by_key list_store (\<lambda>_. roomy) (\<lambda>_. TAB) demo_db (db_execCall_init demo_exec_record)
      (db_execCall_genKey demo_exec_record)
     = Inr (0, eCall_fill (db_execCall_init demo_exec_record) demo_exec_record)"
proof (rule add_then_get [OF list_store_law demo_records_ok(1), where env = roomy and pad = "\<lambda>_. NUL"])
  show "db_add_execCall list_store roomy (\<lambda>_. NUL) ([], snd demo_db) demo_exec_record
      = Inr (0, demo_db)"
    using demo_image_lengths(1)
    by (subst add_execCall_puts [OF demo_records_ok(1)]) (simp_all add: demo_db_def)
qed (use demo_image_lengths(1) in simp_all)

definition demo_retrieve :: retrieve_env where
  "demo_retrieve = \<lparr>re_record = roomy, re_vector = roomy, re_open = (\<lambda>_. roomy), re_tmp = (\<lambda>_. roomy),
     re_exec = (\<lambda>_ _. roomy), re_append = (\<lambda>_. roomy), re_list = roomy, re_pad = (\<lambda>_. TAB),
     re_memory = demo_full, re_tmp_memory = demo_exec_record\<rparr>"

lemma demo_retrieve_good: "good_retrieve demo_retrieve"
  by (simp add: demo_retrieve_def good_retrieve_def)

definition demo_list :: "db_full_Record vector" where
  "demo_list = \<lparr>elems = [None, None], size_elem = ptr_size, capacity = 2, vlength = 0\<rparr>"

lemma demo_list_wf: "vec_wf demo_list" "vec_list demo_list = []"
  by (simp_all add: demo_list_def vec_wf_def vec_list_def)

text \<open>A process under \<open>eCallKey_zero\<close> would not be listed; no other key finds anything here.\<close>

theorem retrieve_spec_witness:
  "\<exists>list' fs. retrieveRecords_Path list_store (\<lambda>_. demo_retrieve) demo_list ([], snd demo_db)
        (c_block ''/tmp/a'') = Inr (0, list') \<and> vec_wf list'
     \<and> vec_list list' = vec_list demo_list @ map Some fs
     \<and> list_all2 (full_of (\<lambda>_. None)) [demo_open_record] fs"
proof (rule retrieve_spec [where pad = "\<lambda>_. NUL" and p = "''/tmp/a''"])
  show "\<forall>k :: nat. finds list_store ([], snd demo_db) (re_pad demo_retrieve) (\<lambda>_. None)"
    by (simp add: finds_def list_store_def)
  have "db_openCalls_filepathCallback (oCall_image (\<lambda>_. NUL) demo_open_record) = Inr (''/tmp/a'' @ [NUL])"
    using filepathCallback_image [OF demo_records_ok(2)] by (simp add: demo_open_record_def)
  then show "bdb_find_path list_store ([], snd demo_db) (''/tmp/a'' @ [NUL])
      = (0, map (oCall_image (\<lambda>_. NUL)) [demo_open_record])"
    by (simp add: list_store_def demo_db_def)
qed (use demo_retrieve_good demo_list_wf demo_records_ok demo_image_lengths(2) [of "\<lambda>_. NUL"] in
    \<open>simp_all add: NUL_def\<close>)

definition demo_finished :: execCall where
  "demo_finished = execCall_zero\<lparr>ec_pid := 77, ec_ppid := 1, ec_cmdName := Some ''vi'',
     ec_args := Some ''vi a'', ec_time_stamp := demo_stamp_tv 12, ec_call_num := 1,
     ec_callBuff_size := 8,
     ec_callBuff := Some (openCall_zero\<lparr>oc_pid := 77, oc_flag := 3, oc_cmdName := Some ''vi'',
         oc_filepath := Some ''/tmp/a'', oc_time_stamp := demo_stamp_tv 13\<rparr>) # replicate 7 None\<rparr>"

definition demo_dispatch :: dispatch_env where
  "demo_dispatch = \<lparr>de_exec = roomy, de_open = (\<lambda>_. roomy), de_pad = (\<lambda>_. NUL), de_key_pad = (\<lambda>_. NUL),
     de_key = (\<lambda>_. \<lparr>ok_time_stamp = timeval_zero, ok_filepath_suffix = replicate 100 TAB\<rparr>)\<rparr>"

lemma demo_dispatch_good: "good_dispatch demo_dispatch"
  by (simp add: demo_dispatch_def good_dispatch_def)

lemma demo_finished_wf: "calls_wf demo_finished"
  by (simp add: demo_finished_def calls_wf_def execCall_zero_def)

lemma demo_finished_calls:
  "calls_of demo_finished = [openCall_zero\<lparr>oc_pid := 77, oc_flag := 3, oc_cmdName := Some ''vi'',
     oc_filepath := Some ''/tmp/a'', oc_time_stamp := demo_stamp_tv 13\<rparr>]"
  by (simp add: demo_finished_def calls_of_def)

lemma demo_dispatch_records:
  "dispatch_record 100 demo_finished = demo_exec_record\<lparr>er_time_stamp := demo_stamp_tv 112,
     er_parentEcall := \<lparr>ek_time_stamp = timeval_zero, ek_pid = 1\<rparr>\<rparr>"
  "eCall_ok (dispatch_record 100 demo_finished)"
  "length (eCall_image (dispatch_record 100 demo_finished)) < 2 ^ 63"
  by (simp_all add: dispatch_record_def demo_finished_def execCall_zero_def demo_exec_record_def
      demo_stamp_tv_def eCall_ok_def timeval_ok_def int64_ok_def int32_ok_def str_ok_def NUL_def
      eCall_image_def)

lemma demo_dispatch_opens:
  "\<forall>oc \<in> set (calls_of demo_finished).
     oCall_ok (dispatch_open_record 100 (dispatch_record 100 demo_finished) oc)
     \<and> length (oCall_image (de_pad demo_dispatch)
         (dispatch_open_record 100 (dispatch_record 100 demo_finished) oc)) < 2 ^ 63"
  using demo_dispatch_records(2)
  by (simp add: demo_finished_calls dispatch_open_record_def oCall_ok_def openCall_zero_def
      demo_stamp_tv_def timeval_ok_def int64_ok_def int32_ok_def str_ok_def NUL_def genKey_ok
      oCall_image_def)


theorem path_index_key:
  assumes "oCall_ok r" "or_filepath r = Some path" "can_alloc env (length (oCall_image pad r))"
  shows "bind_r (db_openCall_marshall pad env m_empty r)
     (\<lambda>(_, m). bind_r (deref (m_buffer m)) db_openCalls_filepathCallback) = Inr (c_block path)"
  using ocodec.marshall_image [OF assms(1,3)] filepathCallback_image [OF assms(1), of pad] assms(2)
  by (simp add: c_block_def)

theorem path_index_key_witness:
  "bind_r (db_openCall_marshall (\<lambda>_. TAB) roomy m_empty demo_open_record)
     (\<lambda>(_, m). bind_r (deref (m_buffer m)) db_openCalls_filepathCallback) = Inr (c_block ''/tmp/a'')"
  by (rule path_index_key [OF demo_records_ok(2)])
     (use demo_image_lengths(2) [of "\<lambda>_. TAB"] in \<open>simp_all add: demo_open_record_def\<close>)

theorem createDatabase_outcome:
  assumes "createDatabase rc man = (ret, man')"
  shows "ret = (if \<forall>c \<in> {Env_create, Env_open, Open_create, Path_create, Path_flags, Path_open,
                  Path_associate, Watch_create, Watch_open, Exec_create}. rc c = 0 then 0 else -1)
     \<and> (ret = 0 \<longrightarrow> dm_dbenv man' \<and> dm_openCallDBp man' \<and> dm_openCallFilePathDBp man'
           \<and> dm_execCallDBp man' \<and> dm_watchlistDBp man')"
  using createDatabase_spec [of rc man] createDatabase_handles [of rc man man'] assms by simp

definition demo_man :: db_manager where
  "demo_man = \<lparr>dm_dbenv = False, dm_openCallDBp = False, dm_openCallFilePathDBp = False,
     dm_execCallDBp = False, dm_watchlistDBp = False\<rparr>"

theorem createDatabase_outcome_witness:
  "createDatabase (\<lambda>c. if c = Exec_open then 2 else 0) demo_man
     = (0, \<lparr>dm_dbenv = True, dm_openCallDBp = True, dm_openCallFilePathDBp = True,
            dm_execCallDBp = True, dm_watchlistDBp = True\<rparr>)"
proof -
  obtain ret man' where c: "createDatabase (\<lambda>c. if c = Exec_open then 2 else 0) demo_man = (ret, man')"
    by (cases "createDatabase (\<lambda>c. if c = Exec_open then 2 else 0) demo_man")
  have "ret = 0" using createDatabase_outcome [OF c] by simp
  with createDatabase_outcome [OF c] c show ?thesis by (cases man') simp
qed

text \<open>
  The open calls: what \<open>put\<close> accepted is found under its path, among what was found there before,
  and the processes are not affected.
\<close>

definition open_store_law :: "'d bdb \<Rightarrow> bool" where
  "open_store_law ops \<longleftrightarrow> (\<forall>db k v db'. bdb_put_open ops db k v = (0, db') \<longrightarrow>
     (\<forall>p. db_openCalls_filepathCallback v = Inr p \<longrightarrow>
        (\<exists>items. bdb_find_path ops db' p = (0, items) \<and> mset items
           = add_mset v (mset (case bdb_find_path ops db p of (c, old) \<Rightarrow> if c = 0 then old else []))))
     \<and> (\<forall>k. bdb_get_exec ops db' k = bdb_get_exec ops db k))"

text \<open>The item of the index is in the list that a search gives, if all items are well-formed.\<close>

definition all_images :: "(nat \<Rightarrow> char) \<Rightarrow> char list list \<Rightarrow> bool" where
  "all_images pad items \<longleftrightarrow> (\<forall>v \<in> set items. \<exists>r. v = oCall_image pad r \<and> oCall_ok r
     \<and> length (oCall_image pad r) < 2 ^ 63)"

lemma all_images_map:
  assumes "all_images pad items"
  shows "\<exists>rs. items = map (oCall_image pad) rs
     \<and> (\<forall>r \<in> set rs. oCall_ok r \<and> length (oCall_image pad r) < 2 ^ 63)"
  using assms
proof (induction items)
  case Nil
  then show ?case by simp
next
  case (Cons v items)
  then obtain rs where "items = map (oCall_image pad) rs"
    "\<forall>r \<in> set rs. oCall_ok r \<and> length (oCall_image pad r) < 2 ^ 63"
    by (auto simp: all_images_def)
  moreover obtain r where "v = oCall_image pad r" "oCall_ok r" "length (oCall_image pad r) < 2 ^ 63"
    using Cons.prems by (auto simp: all_images_def)
  ultimately show ?case
    by (intro exI [of _ "r # rs"]) simp
qed

lemma chain_of_stored:
  assumes "finds ops db pad look" "eCall_ok e" "length (eCall_image e) < 2 ^ 63" "er_pid e \<noteq> 0"
    "bdb_get_exec ops db (eCallKey_bytes pad (db_execCall_genKey e)) = (0, Some (eCall_image e))"
  shows "chain_of look (db_execCall_genKey e) = [e\<lparr>er_parentEcall := eCallKey_zero\<rparr>]"
proof -
  let ?k = "db_execCall_genKey e" and ?old = "e\<lparr>er_parentEcall := eCallKey_zero\<rparr>"
  have "case look ?k of None \<Rightarrow> False | Some e' \<Rightarrow> eCall_image e' = eCall_image e \<and> eCall_ok e'
      \<and> length (eCall_image e') < 2 ^ 63"
    using assms(1,5) unfolding finds_def by (auto dest!: spec [of _ ?k] split: option.splits)
  then obtain e' where e': "look ?k = Some e'" "eCall_image e' = eCall_image e" "eCall_ok e'"
    "length (eCall_image e') < 2 ^ 63"
    by (auto split: option.splits)
  have "eCall_fill ?old e' = eCall_fill ?old e"
    using ecodec.image_prefix [OF e'(3) assms(2) _ e'(4) assms(3), of "[]" "[]" ?old] e'(2) by simp
  then show ?thesis
    using e'(1) assms(4) by (simp add: chain_of_def db_execCall_genKey_def eCall_fill_def)
qed

theorem stored_open_found:
  assumes laws: "exec_store_law ops" "open_store_law ops"
    and rec: "eCall_ok e" "can_alloc env (length (eCall_image e))" "er_pid e \<noteq> 0"
      "oCall_ok r" "can_alloc env' (length (oCall_image pad r))" "length (ok_filepath_suffix key0) = 100"
      "or_eCallKey r = db_execCall_genKey e" "or_filepath r = Some path"
    and put: "db_add_execCall ops env epad db e = Inr (0, db1)"
      "db_add_openCall ops env' pad kpad key0 db1 r = Inr (0, db2)"
    and db: "\<forall>k. finds ops db2 (re_pad (renv k)) look"
      "all_images pad (snd (bdb_find_path ops db1 (path @ [NUL])))"
    and ret: "\<forall>k. good_retrieve (renv k)" "vec_wf recordList" "vec_list recordList = []"
      "length (snd (bdb_find_path ops db1 (path @ [NUL]))) < 2 ^ 57"
  shows "\<exists>list' f. retrieveRecords_Path ops renv recordList db2 (c_block path) = Inr (0, list')
     \<and> Some f \<in> set (vec_list list') \<and> fr_openCall f = r
     \<and> vec_list (fr_execCalls f) = [Some (e\<lparr>er_parentEcall := eCallKey_zero\<rparr>)]"
proof -
  let ?v = "oCall_image pad r" and ?k = "db_execCall_genKey e" and ?p = "path @ [NUL]"
  have len: "length (eCall_image e) < 2 ^ 63" "length ?v < 2 ^ 63"
    using rec(2,5) by (auto simp: can_alloc_def)
  have path: "NUL \<notin> set path"
    using rec(4,8) by (simp add: oCall_ok_def str_ok_def)
  have p1: "bdb_put_exec ops db (eCallKey_bytes epad ?k) (eCall_image e) = (0, db1)"
    using put(1) add_execCall_puts [OF rec(1,2), of ops epad db] by simp
  have p2: "bdb_put_open ops db1 (oCallKey_of kpad key0 r) ?v = (0, db2)"
    using put(2) add_openCall_puts [OF rec(4,5,6), of ops kpad db1] by simp
  have cb: "db_openCalls_filepathCallback ?v = Inr ?p"
    using filepathCallback_image [OF rec(4), of pad] rec(8) by simp
  have old: "mset (case bdb_find_path ops db1 ?p of (c, old) \<Rightarrow> if c = 0 then old else [])
      \<subseteq># mset (snd (bdb_find_path ops db1 ?p))"
    by (simp split: prod.splits)
  obtain items where items: "bdb_find_path ops db2 ?p = (0, items)"
    "mset items = add_mset ?v (mset (case bdb_find_path ops db1 ?p of (c, old) \<Rightarrow> if c = 0 then old else []))"
    using laws(2) p2 cb unfolding open_store_law_def by blast
  have "set items \<subseteq> insert ?v (set (snd (bdb_find_path ops db1 ?p)))" "?v \<in> set items"
    using arg_cong [OF items(2), of set_mset] set_mset_mono [OF old] by auto
  moreover have "size (mset items) \<le> Suc (length (snd (bdb_find_path ops db1 ?p)))"
    using size_mset_mono [OF old] unfolding items(2) by simp
  ultimately have "all_images pad items" "length items < 2 ^ 58"
    using db(2) rec(4) len(2) ret(4) by (auto simp: all_images_def)
  then obtain rs where rs: "items = map (oCall_image pad) rs"
    "\<forall>r \<in> set rs. oCall_ok r \<and> length (oCall_image pad r) < 2 ^ 63" "length rs < 2 ^ 58"
    using all_images_map [of pad items] by auto
  obtain r' where r': "r' \<in> set rs" "oCall_image pad r' = ?v"
    using \<open>?v \<in> set items\<close> rs(1) by auto
  have "r' = r"
    using ocodec.image_prefix [where pad = pad and x = r' and y = r and r = "[]" and s = "[]"]
      rs(2) r' rec(4) len(2) by (auto simp: oCall_fill_def)
  obtain list' fs where l: "retrieve_items ops db2 renv 0 items 0 recordList = Inr (0, list')"
    "vec_list list' = map Some fs" "list_all2 (full_of look) rs fs"
    using retrieve_items_spec [OF ret(1) db(1) rs(2) ret(2), of 0 0] rs(1,3) ret(3) by auto
  then obtain f where f: "f \<in> set fs" "full_of look r f"
    using r'(1) \<open>r' = r\<close> by (metis in_set_conv_nth list_all2_conv_all_nth)
  have "bdb_get_exec ops db2 (eCallKey_bytes (re_pad (renv 0)) ?k) = (0, Some (eCall_image e))"
    using laws p1 p2 KeyComp_same [OF genKey_ok [OF rec(1)]]
    unfolding exec_store_law_def open_store_law_def by metis
  from chain_of_stored [OF spec [OF db(1), of 0] rec(1) len(1) rec(3) this]
  have "vec_list (fr_execCalls f) = [Some (e\<lparr>er_parentEcall := eCallKey_zero\<rparr>)]" "fr_openCall f = r"
    using f(2) rec(7) by (auto simp: full_of_def)
  moreover have "retrieveRecords_Path ops renv recordList db2 (c_block path) = Inr (0, list')"
    using l(1) items(1) path by (simp add: retrieveRecords_Path_def)
  ultimately show ?thesis
    using f(1) l(2) by auto
qed

lemma list_store_find:
  "bdb_find_path list_store db p =
     (let es = filter (\<lambda>e. db_openCalls_filepathCallback (snd e) = Inr p) (snd db) in
      if es = [] then (-30988, []) else (0, map snd es))"
  by (simp add: list_store_def split: list.splits)

lemma list_store_open_law: "open_store_law list_store"
  unfolding open_store_law_def list_store_find
  by (auto simp: list_store_def Let_def filter_empty_conv split: if_splits)

definition demo_look :: "db_eCallKey \<Rightarrow> eCallRecord option" where
  "demo_look k = (if db_execCall_KeyComp (eCallKey_bytes (\<lambda>_. TAB) k)
       (eCallKey_bytes (\<lambda>_. NUL) (db_execCall_genKey demo_exec_record)) = Inr 0
     then Some demo_exec_record else None)"

lemma demo_finds:
  "finds list_store ([(eCallKey_bytes (\<lambda>_. NUL) (db_execCall_genKey demo_exec_record),
      eCall_image demo_exec_record)], os) (\<lambda>_. TAB) demo_look"
  using demo_records_ok(1) demo_image_lengths(1)
  by (simp add: finds_def demo_look_def list_store_def)

theorem stored_open_found_witness:
  "\<exists>db2 list' f. retrieveRecords_Path list_store (\<lambda>_. demo_retrieve) demo_list db2 (c_block ''/tmp/a'')
        = Inr (0, list')
     \<and> Some f \<in> set (vec_list list') \<and> fr_openCall f = demo_open_record
     \<and> vec_list (fr_execCalls f) = [Some (demo_exec_record\<lparr>er_parentEcall := eCallKey_zero\<rparr>)]"
proof -
  let ?k = "eCallKey_bytes (\<lambda>_. NUL) (db_execCall_genKey demo_exec_record)"
  let ?db1 = "([(?k, eCall_image demo_exec_record)], []) :: list_db"
  let ?key0 = "\<lparr>ok_time_stamp = timeval_zero, ok_filepath_suffix = replicate 100 TAB\<rparr>"
  let ?o = "(oCallKey_of (\<lambda>_. NUL) ?key0 demo_open_record, oCall_image (\<lambda>_. NUL) demo_open_record)"
  let ?db2 = "([(?k, eCall_image demo_exec_record)], [?o]) :: list_db"
  have mem: "can_alloc roomy (length (eCall_image demo_exec_record))"
    "can_alloc roomy (length (oCall_image (\<lambda>_. NUL) demo_open_record))"
    using demo_image_lengths(1) demo_image_lengths(2) [of "\<lambda>_. NUL"] by simp_all
  have put: "db_add_execCall list_store roomy (\<lambda>_. NUL) ([], []) demo_exec_record = Inr (0, ?db1)"
    by (subst add_execCall_puts [OF demo_records_ok(1) mem(1)]) simp
  have puto: "db_add_openCall list_store roomy (\<lambda>_. NUL) (\<lambda>_. NUL) ?key0 ?db1 demo_open_record
      = Inr (0, ?db2)"
    by (subst add_openCall_puts [OF demo_records_ok(2) mem(2)]) (simp_all add: list_store_def)
  have "\<exists>list' f. retrieveRecords_Path list_store (\<lambda>_. demo_retrieve) demo_list ?db2 (c_block ''/tmp/a'')
        = Inr (0, list')
     \<and> Some f \<in> set (vec_list list') \<and> fr_openCall f = demo_open_record
     \<and> vec_list (fr_execCalls f) = [Some (demo_exec_record\<lparr>er_parentEcall := eCallKey_zero\<rparr>)]"
  proof (rule stored_open_found [OF list_store_law list_store_open_law demo_records_ok(1) mem(1) _
        demo_records_ok(2) mem(2) _ _ _ put puto])
    show "\<forall>k :: nat. finds list_store ?db2 (re_pad demo_retrieve) demo_look"
      using demo_finds by (simp add: demo_retrieve_def)
  qed (use demo_retrieve_good demo_list_wf in \<open>simp_all add: list_store_find all_images_def
      demo_exec_record_def demo_open_record_def\<close>)
  then show ?thesis by blast
qed




end
