(* ===== verification/Surveiller.thy ===== *)
theory Surveiller
  imports ProcIndex RingBuffer Bytes
begin

text \<open>
  The state of the daemon, \<open>struct surveiller\<close> of \<open>src/src/watchdog/include/watchdog.h\<close>, and
  the operations on it in \<open>src/src/watchdog/src/watchdog.c\<close>: lines 35-63, 434-537, 923-992.

  Log files, the database handle, the sockets and the pipe are outside the model, except for
  whether they could be opened. A flag is a boolean. \<open>boot_time\<close> is a 32-bit unsigned integer.
\<close>

section \<open>State\<close>

record surveiller =
  sv_restart :: bool
  sv_shutting_down :: bool
  sv_processing_execcall_socket :: bool
  sv_processing_opencall_socket :: bool
  sv_ownPID :: int
  sv_boot_time :: int
  sv_status_msg :: string
  sv_procs :: procindex
  sv_dispatchQueue :: "execCall g_ringBuffer"
  sv_commandQueue :: "execCall g_ringBuffer"
  sv_openQueue :: "openCall g_ringBuffer"

section \<open>Operations\<close>

text \<open>
  The boot time from the lines of \<open>/proc/stat\<close>; \<open>None\<close> when the file cannot be opened.
\<close>

definition get_boot_time :: "string option \<Rightarrow> int" where
  "get_boot_time stat_fp =
     (case stat_fp of None \<Rightarrow> -2
      | Some contents \<Rightarrow>
          (case find (\<lambda>line. take 5 line = ''btime'') (fgets_all 199 contents) of
             None \<Rightarrow> -1
           | Some line \<Rightarrow>
               (case strtok_step (\<lambda>c. c = CHR '' '') line of (_, rest) \<Rightarrow>
                  case strtok_step (\<lambda>c. c = CHR '' '') rest of (boot_time, _) \<Rightarrow>
                    (case boot_time of None \<Rightarrow> -1 | Some b \<Rightarrow> atol b))))"

text \<open>
  What \<open>surv_init\<close> finds: which of the four log files open, in the order main, open calls,
  processes, control; the two files of the \<open>proc\<close> file system; the codes of the filter and of
  the database; the allocator at each site; and whether a pipe is granted.
\<close>

record init_env =
  ie_log :: "nat \<Rightarrow> bool"
  ie_stat :: "string option"
  ie_pid_max :: "string option option"
  ie_filter :: int
  ie_procs :: alloc_env
  ie_commandQueue :: alloc_env
  ie_openQueue :: alloc_env
  ie_dispatchQueue :: alloc_env
  ie_pipe :: bool

text \<open>
  The codes of the other queues and of the database are overwritten by the call that follows;
  a log file that does not open ends the function with the code it has, which is 0 at the
  first, and then the rest of the struct is not initialised.
\<close>

definition surv_init :: "init_env \<Rightarrow> int \<Rightarrow> surveiller \<Rightarrow> (int \<times> surveiller) res" where
  "surv_init env ownPID this =
     (let this = this\<lparr>sv_status_msg := ''starting up...'' @ [NL], sv_ownPID := ownPID,
                      sv_shutting_down := False, sv_restart := False,
                      sv_processing_execcall_socket := False,
                      sv_processing_opencall_socket := False\<rparr> in
      if \<not> ie_log env 0 then Inr (NOMINAL, this)
      else let tmp_boot_time = get_boot_time (ie_stat env) in
      if tmp_boot_time < 0 then Inr (-1, this)
      else let this = this\<lparr>sv_boot_time := tmp_boot_time mod 2 ^ 32\<rparr> in
      if \<not> ie_log env 1 \<or> \<not> ie_log env 2 \<or> \<not> ie_log env 3 then Inr (NOMINAL, this)
      else if ie_filter env \<noteq> 0 then Inr (ie_filter env, this)
      else case procindex_init (ie_procs env) (ie_pid_max env) (sv_procs this) ownPID of
        (ret, ix) \<Rightarrow>
          let this = this\<lparr>sv_procs := ix\<rparr> in
          if ret \<noteq> 0 then Inr (ret, this)
          else case g_ringBuffer_init (ie_commandQueue env) (sv_commandQueue this) 8 of
            (ret, q) \<Rightarrow>
              let this = this\<lparr>sv_commandQueue := q\<rparr> in
              if ret \<noteq> 0
              then bind_r (procindex_destroy (sv_procs this)) (\<lambda>(_, ix).
                     Inr (ret, this\<lparr>sv_procs := ix\<rparr>))
              else case g_ringBuffer_init (ie_openQueue env) (sv_openQueue this) 8 of
                (_, oq) \<Rightarrow>
                  case g_ringBuffer_init (ie_dispatchQueue env) (sv_dispatchQueue this) 8 of
                    (ret, dq) \<Rightarrow>
                      Inr (if ie_pipe env then ret else -1,
                           this\<lparr>sv_openQueue := oq, sv_dispatchQueue := dq\<rparr>))"

text \<open>The records that are destroyed, by queue, and those of the index.\<close>

definition surv_destroy ::
  "surveiller \<Rightarrow> (execCall option list \<times> openCall option list \<times> execCall option list
     \<times> execCall list) res" where
  "surv_destroy this =
     bind_r (g_ringBuffer_destroyd (sv_commandQueue this)) (\<lambda>(cs, _).
       bind_r (g_ringBuffer_destroyd (sv_openQueue this)) (\<lambda>(os, _).
         bind_r (g_ringBuffer_destroyd (sv_dispatchQueue this)) (\<lambda>(ds, _).
           bind_r (procindex_destroy (sv_procs this)) (\<lambda>(es, _). Inr (cs, os, ds, es)))))"

definition surv_shutdown :: "surveiller \<Rightarrow> surveiller" where
  "surv_shutdown this = this\<lparr>sv_shutting_down := True\<rparr>"

text \<open>
  A process whose id is taken replaces the one that has it, which goes to the dispatch queue;
  the code of that write is overwritten. \<open>mem\<close> is the allocator at either insertion.
\<close>

definition surv_addExecCall ::
  "(nat \<Rightarrow> alloc_env) \<Rightarrow> surveiller \<Rightarrow> execCall \<Rightarrow> (int \<times> surveiller) res" where
  "surv_addExecCall mem this ecall =
     bind_r (procindex_add (mem 0) (sv_procs this) ecall) (\<lambda>(ret, ix, ecall).
       let this = this\<lparr>sv_procs := ix\<rparr> in
       if ret = ALREADY_EXISTS_IN_CONTAINER
       then bind_r (procindex_retrieve (sv_procs this) (ec_pid ecall)) (\<lambda>(retrieved, ix).
              bind_r (g_ringBuffer_write (sv_dispatchQueue this) retrieved) (\<lambda>(_, dq).
                bind_r (procindex_add (mem 1) ix ecall) (\<lambda>(ret, ix, _).
                  Inr (ret, this\<lparr>sv_procs := ix, sv_dispatchQueue := dq\<rparr>))))
       else Inr (ret, this))"

text \<open>
  The loop of \<open>surv_flush_procindex\<close>, \<open>n\<close> rounds from process id \<open>i\<close> on. Its bound \<open>size - 1\<close> is
  formed in \<open>size_t\<close>; with a size below 1 the loop would leave the table.
\<close>

fun flush_loop :: "nat \<Rightarrow> nat \<Rightarrow> surveiller \<Rightarrow> surveiller res" where
  "flush_loop i 0 this = Inr this"
| "flush_loop i (Suc n) this =
     bind_r (procindex_retrieve (sv_procs this) (int i)) (\<lambda>(currProc, ix).
       let this = this\<lparr>sv_procs := ix\<rparr> in
       case currProc of
         None \<Rightarrow> flush_loop (i + 1) n this
       | Some e \<Rightarrow>
           if ec_tracked e \<noteq> 0
           then bind_r (g_ringBuffer_write (sv_dispatchQueue this) currProc) (\<lambda>(_, dq).
                  flush_loop (i + 1) n (this\<lparr>sv_dispatchQueue := dq\<rparr>))
           else bind_r (execCall_destroy e) (\<lambda>_. flush_loop (i + 1) n this))"

definition surv_flush_procindex :: "surveiller \<Rightarrow> surveiller res" where
  "surv_flush_procindex this =
     (if psize (sv_procs this) < 1 then Inl OutOfBounds
      else flush_loop 0 (nat (psize (sv_procs this) - 1)) this)"

text \<open>\<open>gone pid\<close>: there is no process \<open>pid\<close> (\<open>kill\<close> fails with \<open>ESRCH\<close>).\<close>

fun vitals_loop :: "(int \<Rightarrow> bool) \<Rightarrow> nat \<Rightarrow> nat \<Rightarrow> surveiller \<Rightarrow> surveiller res" where
  "vitals_loop gone i 0 this = Inr this"
| "vitals_loop gone i (Suc n) this =
     bind_r (slot (procs (sv_procs this)) (int i)) (\<lambda>currProc.
       case currProc of
         None \<Rightarrow> vitals_loop gone (i + 1) n this
       | Some e \<Rightarrow>
           let needsDispatch = gone (ec_pid e);
               put = (\<lambda>p. bind_r (set_slot (procs (sv_procs this)) (int i) p) (\<lambda>ps.
                  Inr (this\<lparr>sv_procs := (sv_procs this)\<lparr>procs := ps\<rparr>\<rparr>))) in
           if needsDispatch \<and> ec_tracked e \<noteq> 0
           then bind_r (g_ringBuffer_write (sv_dispatchQueue this) currProc) (\<lambda>(_, dq).
                  bind_r (put None) (\<lambda>this.
                    vitals_loop gone (i + 1) n (this\<lparr>sv_dispatchQueue := dq\<rparr>)))
           else if needsDispatch \<and> ec_deadness e > 2
           then bind_r (execCall_destroy e) (\<lambda>_. bind_r (put None) (vitals_loop gone (i + 1) n))
           else if needsDispatch
           then bind_r (put (Some (e\<lparr>ec_deadness := ec_deadness e + 1\<rparr>))) (vitals_loop gone (i + 1) n)
           else vitals_loop gone (i + 1) n this)"

definition surv_check_proc_vitals :: "(int \<Rightarrow> bool) \<Rightarrow> surveiller \<Rightarrow> surveiller res" where
  "surv_check_proc_vitals gone this = vitals_loop gone 0 (nat (psize (sv_procs this))) this"

section \<open>Invariant\<close>

definition call_ptr :: "execCall option \<Rightarrow> bool" where
  "call_ptr p \<longleftrightarrow> (\<exists>e. p = Some e \<and> calls_wf e)"

definition surv_wf :: "surveiller \<Rightarrow> bool" where
  "surv_wf sv \<longleftrightarrow> pi_wf (sv_procs sv) \<and> ring_inv (sv_dispatchQueue sv)
     \<and> ring_inv (sv_commandQueue sv) \<and> ring_inv (sv_openQueue sv)
     \<and> (\<forall>p \<in> set (ring_list (sv_dispatchQueue sv)). call_ptr p)"

section \<open>The boot time\<close>

lemma get_boot_time_line:
  assumes ls: "\<forall>l \<in> set (pre @ [''btime '' @ show_int t] @ post). NL \<notin> set l \<and> length l < 199"
    and pre: "\<forall>l \<in> set pre. take 5 l \<noteq> ''btime''" and t: "int64_ok t"
  shows "get_boot_time (Some (concat (map (\<lambda>l. l @ [NL]) (pre @ [''btime '' @ show_int t] @ post)))) = t"
proof -
  let ?l = "''btime '' @ show_int t" and ?sp = "\<lambda>c. c = CHR '' ''"
  have no: "take 5 (x @ [NL]) \<noteq> ''btime''" if "take 5 x \<noteq> ''btime''" for x
  proof (cases "5 \<le> length x")
    case True
    with that show ?thesis by simp
  next
    case False
    then have "take 5 (x @ [NL]) = x @ [NL]" by simp
    moreover have "last ''btime'' \<noteq> NL" by (simp add: NL_def)
    ultimately show ?thesis by (metis last_snoc)
  qed
  have "find (\<lambda>line. take 5 line = ''btime'') (map (\<lambda>l. l @ [NL]) (pre @ [?l] @ post)) = Some (?l @ [NL])"
    using pre
  proof (induction pre)
    case Nil
    then show ?case by simp
  next
    case (Cons x xs)
    with no [of x] show ?case by simp
  qed
  then have f: "find (\<lambda>line. take 5 line = ''btime'')
      (fgets_all 199 (concat (map (\<lambda>l. l @ [NL]) (pre @ [?l] @ post)))) = Some (?l @ [NL])"
    using fgets_all_lines [OF ls] by simp
  have no_sp: "\<forall>c \<in> set (show_int t @ [NL]). c \<noteq> CHR '' ''"
    using show_int_chars [of "CHR '' ''" t] by (auto simp: is_digit_def NL_def)
  have "show_int t @ [NL] \<noteq> []" by simp
  then obtain c cs where c: "show_int t @ [NL] = c # cs" by (cases "show_int t @ [NL]") auto
  have "strtok_step ?sp (?l @ [NL]) = (Some ''btime'', show_int t @ [NL])"
    by (simp add: strtok_step_def)
  moreover have "takeWhile (\<lambda>c. \<not> ?sp c) (c # cs) = c # cs" "\<not> ?sp c"
    "dropWhile (\<lambda>c. \<not> ?sp c) (c # cs) = []"
    using no_sp unfolding c by (auto simp: takeWhile_eq_all_conv dropWhile_eq_Nil_conv)
  then have "strtok_step ?sp (show_int t @ [NL]) = (Some (show_int t @ [NL]), [])"
    unfolding c strtok_step_def by (simp only: dropWhile.simps if_False list.case drop_Nil)
  moreover have "atol (show_int t @ [NL]) = t"
    using t by (intro atol_show_int) (simp_all add: is_digit_def NL_def)
  ultimately show ?thesis
    using f by (simp add: get_boot_time_def split: prod.splits)
qed

section \<open>Creation and destruction\<close>

definition good_init :: "init_env \<Rightarrow> bool" where
  "good_init env \<longleftrightarrow> (\<forall>i < 4. ie_log env i) \<and> 0 \<le> get_boot_time (ie_stat env) \<and> ie_filter env = 0
     \<and> 0 \<le> get_max_PID (ie_pid_max env) \<and> get_max_PID (ie_pid_max env) < 2 ^ 31
     \<and> (\<forall>n. grants (ie_procs env) n \<and> grants (ie_commandQueue env) n
          \<and> grants (ie_openQueue env) n \<and> grants (ie_dispatchQueue env) n) \<and> ie_pipe env"

lemma surv_init_ok:
  assumes "good_init env"
  shows "\<exists>sv. surv_init env pid sv0 = Inr (0, sv) \<and> surv_wf sv \<and> \<not> sv_shutting_down sv
     \<and> sv_boot_time sv = get_boot_time (ie_stat env) mod 2 ^ 32
     \<and> pi_lookup (sv_procs sv) = (\<lambda>_. None) \<and> ring_list (sv_dispatchQueue sv) = []
     \<and> ring_list (sv_commandQueue sv) = [] \<and> ring_list (sv_openQueue sv) = []"
proof -
  have logs: "ie_log env 0" "ie_log env 1" "ie_log env 2" "ie_log env 3"
    "\<not> get_boot_time (ie_stat env) < 0"
    using assms by (simp_all add: good_init_def)
  obtain ix where ix: "procindex_init (ie_procs env) (ie_pid_max env) (sv_procs sv0) pid = (0, ix)"
    "pi_wf ix" "pi_lookup ix = (\<lambda>_. None)"
    using procindex_init_spec [of "ie_pid_max env" "ie_procs env" "sv_procs sv0" pid] assms
    by (auto simp: good_init_def)
  have mem: "can_alloc (ie_commandQueue env) (8 * SIZE_RING)"
    "can_alloc (ie_openQueue env) (8 * SIZE_RING)" "can_alloc (ie_dispatchQueue env) (8 * SIZE_RING)"
    using assms by (simp_all add: good_init_def can_alloc_def SIZE_RING_def)
  obtain cq oq dq where q:
    "g_ringBuffer_init (ie_commandQueue env) (sv_commandQueue sv0) 8 = (0, cq)"
    "g_ringBuffer_init (ie_openQueue env) (sv_openQueue sv0) 8 = (0, oq)"
    "g_ringBuffer_init (ie_dispatchQueue env) (sv_dispatchQueue sv0) 8 = (0, dq)"
    "ring_inv cq" "ring_inv oq" "ring_inv dq" "ring_list cq = []" "ring_list oq = []"
    "ring_list dq = []"
    using g_init_spec [OF mem(1)] g_init_spec [OF mem(2)] g_init_spec [OF mem(3)] by metis
  show ?thesis
    using assms logs ix q by (simp add: surv_init_def Let_def good_init_def surv_wf_def)
qed

text \<open>When the first log file does not open, the code is 0 and the queues are whatever they were.\<close>

lemma surv_init_no_log:
  assumes "\<not> ie_log env 0"
  shows "\<exists>sv. surv_init env pid sv0 = Inr (0, sv) \<and> sv_procs sv = sv_procs sv0
     \<and> sv_commandQueue sv = sv_commandQueue sv0 \<and> sv_openQueue sv = sv_openQueue sv0
     \<and> sv_dispatchQueue sv = sv_dispatchQueue sv0"
  using assms by (simp add: surv_init_def)

lemma surv_destroy_all:
  assumes "surv_wf sv"
  shows "surv_destroy sv = Inr (ring_list (sv_commandQueue sv), ring_list (sv_openQueue sv),
     ring_list (sv_dispatchQueue sv), List.map_filter id (procs (sv_procs sv)))"
proof -
  have inv: "ring_inv (sv_commandQueue sv)" "ring_inv (sv_openQueue sv)"
    "ring_inv (sv_dispatchQueue sv)" "pi_wf (sv_procs sv)"
    using assms by (simp_all add: surv_wf_def)
  show ?thesis
    using g_destroyd_spec [OF inv(1)] g_destroyd_spec [OF inv(2)] g_destroyd_spec [OF inv(3)]
      procindex_destroy_spec [OF inv(4)]
    by (auto simp: surv_destroy_def)
qed

section \<open>A process is added\<close>

lemma dispatch_write:
  assumes "ring_inv q" "\<forall>p \<in> set (ring_list q). call_ptr p" "call_ptr x"
  shows "\<exists>ret q'. g_ringBuffer_write q x = Inr (ret, q') \<and> ring_inv q'
     \<and> ring_list q' = take SIZE_RING (ring_list q @ [x])
     \<and> (\<forall>p \<in> set (ring_list q'). call_ptr p)"
  using gq.wr_cases [OF assms(1), of x] gq.bounded [OF assms(1)] assms(2,3)
  by (auto split: if_splits)

text \<open>The old record, if there is one, is taken out and queued, and the process is added a second time.\<close>

lemma addExecCall_runs:
  assumes wf: "surv_wf sv" and slot: "has_slot (sv_procs sv) (ec_pid e)" and e: "calls_wf e"
    and orphan: "-1 \<le> ec_ppid e" "ec_ppid e + 1 \<noteq> psize (sv_procs sv)"
      "pi_lookup (sv_procs sv) (ec_ppid e) = None"
  shows "\<exists>sv'. surv_addExecCall mem sv e = Inr (0, sv') \<and> surv_wf sv'
     \<and> pi_lookup (sv_procs sv') = (pi_lookup (sv_procs sv))(ec_pid e := Some (stored e))
     \<and> psize (sv_procs sv') = psize (sv_procs sv)
     \<and> ring_list (sv_dispatchQueue sv')
         = (case pi_lookup (sv_procs sv) (ec_pid e) of None \<Rightarrow> ring_list (sv_dispatchQueue sv)
            | Some old \<Rightarrow> take SIZE_RING (ring_list (sv_dispatchQueue sv) @ [Some old]))
     \<and> sv_commandQueue sv' = sv_commandQueue sv \<and> sv_openQueue sv' = sv_openQueue sv"
proof -
  let ?ix = "sv_procs sv" and ?pid = "ec_pid e"
  have ix: "pi_wf ?ix" and dq: "ring_inv (sv_dispatchQueue sv)"
    "\<forall>p \<in> set (ring_list (sv_dispatchQueue sv)). call_ptr p"
    using wf by (simp_all add: surv_wf_def)
  have st: "calls_wf (stored e) \<and> ec_ppid (stored e) = 0 \<and> ec_pid (stored e) = ?pid"
    by (rule stored_wf [OF e])
  have wf': "pi_wf (pi_set ?ix ?pid (Some (stored e)))"
    using st by (intro pi_wf_set ix slot) auto
  show ?thesis
  proof (cases "pi_lookup ?ix ?pid")
    case None
    have "procindex_add (mem 0) ?ix e = Inr (0, pi_set ?ix ?pid (Some (stored e)), stored e)"
      by (rule procindex_add_stores [OF ix slot None orphan])
    then show ?thesis
      using None wf wf' pi_lookup_set [OF ix slot]
      by (auto simp: surv_addExecCall_def surv_wf_def Let_def pi_set_def)
  next
    case (Some old)
    have pid: "0 \<le> ?pid" "?pid \<le> maxPid ?ix" "?pid + 1 \<le> psize ?ix" "psize ?ix \<noteq> ?pid + 1"
      using ix slot by (auto simp: has_slot_def pi_wf_def)
    have first: "procindex_add (mem 0) ?ix e = Inr (2, ?ix, e)"
      using procindex_add_cases [OF ix pid(1,2) grow_no_need(1) [OF pid(3)], of "mem 0"] pid(4) Some
      by simp
    let ?ix1 = "pi_set ?ix ?pid None"
    have retr: "procindex_retrieve ?ix ?pid = Inr (Some old, ?ix1)"
      using procindex_retrieve_spec [OF ix slot] Some by simp
    have "calls_wf old"
      using pi_lookup_wf [OF ix Some] by simp
    then have ptr: "call_ptr (Some old)" by (simp add: call_ptr_def)
    obtain r q where q: "g_ringBuffer_write (sv_dispatchQueue sv) (Some old) = Inr (r, q)"
      "ring_inv q" "ring_list q = take SIZE_RING (ring_list (sv_dispatchQueue sv) @ [Some old])"
      "\<forall>p \<in> set (ring_list q). call_ptr p"
      using dispatch_write [OF dq ptr] by blast
    have ix1: "pi_wf ?ix1" "has_slot ?ix1 ?pid" "pi_lookup ?ix1 ?pid = None"
      "pi_lookup ?ix1 (ec_ppid e) = None" "psize ?ix1 = psize ?ix"
      using pi_wf_set [OF ix slot, of None] slot pi_lookup_set [OF ix slot] orphan(3)
      by (auto simp: pi_set_def has_slot_def)
    have second: "procindex_add (mem 1) ?ix1 e = Inr (0, pi_set ?ix1 ?pid (Some (stored e)), stored e)"
      using orphan ix1 by (intro procindex_add_stores) auto
    have twice: "pi_set ?ix1 ?pid (Some (stored e)) = pi_set ?ix ?pid (Some (stored e))"
      by (simp add: pi_set_def)
    show ?thesis
      using Some wf wf' pi_lookup_set [OF ix slot] first retr q second
      by (auto simp: surv_addExecCall_def surv_wf_def Let_def twice pi_set_def)
  qed
qed

theorem addExecCall_spec:
  assumes wf: "surv_wf sv" and slot: "has_slot (sv_procs sv) (ec_pid e)" and e: "calls_wf e"
    and orphan: "-1 \<le> ec_ppid e" "ec_ppid e + 1 \<noteq> psize (sv_procs sv)"
      "pi_lookup (sv_procs sv) (ec_ppid e) = None"
  shows "\<exists>sv'. surv_addExecCall mem sv e = Inr (0, sv') \<and> surv_wf sv'
     \<and> pi_lookup (sv_procs sv') = (pi_lookup (sv_procs sv))(ec_pid e := Some (stored e))
     \<and> psize (sv_procs sv') = psize (sv_procs sv)
     \<and> ring_list (sv_dispatchQueue sv')
         = (case pi_lookup (sv_procs sv) (ec_pid e) of None \<Rightarrow> ring_list (sv_dispatchQueue sv)
            | Some old \<Rightarrow> take SIZE_RING (ring_list (sv_dispatchQueue sv) @ [Some old]))
     \<and> sv_commandQueue sv' = sv_commandQueue sv \<and> sv_openQueue sv' = sv_openQueue sv"
  by (rule addExecCall_runs [OF assms])

section \<open>The index is flushed\<close>

definition tracked_ptr :: "execCall option \<Rightarrow> bool" where
  "tracked_ptr p \<longleftrightarrow> (case p of None \<Rightarrow> False | Some e \<Rightarrow> ec_tracked e \<noteq> 0)"

lemma take_take_append: "take c (take c a @ b) = take c (a @ b)"
  by (cases "length a \<le> c") simp_all

lemma pi_wf_update:
  assumes "pi_wf ix" "i < length (procs ix)" "\<And>e. p = Some e \<Longrightarrow> entry_wf i e"
  shows "pi_wf (ix\<lparr>procs := (procs ix)[i := p]\<rparr>)"
  using assms by (auto simp: pi_wf_def nth_list_update split: if_splits)

lemma write_tracked:
  assumes "surv_wf sv" "call_ptr x"
  shows "\<exists>ret q. g_ringBuffer_write (sv_dispatchQueue sv) x = Inr (ret, q)
     \<and> surv_wf (sv\<lparr>sv_dispatchQueue := q\<rparr>)
     \<and> ring_list q = take SIZE_RING (ring_list (sv_dispatchQueue sv) @ [x])"
  using dispatch_write [of "sv_dispatchQueue sv" x] assms by (auto simp: surv_wf_def)

lemma surv_wf_procs: "surv_wf sv \<Longrightarrow> pi_wf ix \<Longrightarrow> surv_wf (sv\<lparr>sv_procs := ix\<rparr>)"
  by (simp add: surv_wf_def)

lemma flush_loop_spec:
  assumes "surv_wf sv" "Suc i + n = length (procs (sv_procs sv))"
  shows "\<exists>sv'. flush_loop i n sv = Inr sv' \<and> surv_wf sv'
     \<and> sv_procs sv' = (sv_procs sv)\<lparr>procs := take (Suc i) (procs (sv_procs sv)) @ replicate n None\<rparr>
     \<and> ring_list (sv_dispatchQueue sv') = take SIZE_RING (ring_list (sv_dispatchQueue sv)
         @ filter tracked_ptr (drop (Suc i) (procs (sv_procs sv))))
     \<and> sv_commandQueue sv' = sv_commandQueue sv \<and> sv_openQueue sv' = sv_openQueue sv"
  using assms
proof (induction n arbitrary: i sv)
  case 0
  then show ?case
    using gq.bounded [of "sv_dispatchQueue sv"] by (simp add: surv_wf_def)
next
  case (Suc n)
  let ?ix = "sv_procs sv" and ?ps = "procs (sv_procs sv)"
  have ix: "pi_wf ?ix" using Suc.prems(1) by (simp add: surv_wf_def)
  have slot: "has_slot ?ix (int i)"
    using pi_wfD(1) [OF ix] Suc.prems(2) by (simp add: has_slot_def)
  have i: "Suc i < length ?ps" using Suc.prems(2) by simp
  have look: "pi_lookup ?ix (int i) = ?ps ! Suc i"
    using pi_wfD(1) [OF ix] i by (simp add: pi_lookup_def nat_add_distrib)
  let ?ix1 = "?ix\<lparr>procs := ?ps[Suc i := None]\<rparr>"
  have set: "pi_set ?ix (int i) None = ?ix1"
    by (simp add: pi_set_def nat_add_distrib)
  have retr: "procindex_retrieve ?ix (int i) = Inr (?ps ! Suc i, ?ix1)"
    using procindex_retrieve_spec [OF ix slot] by (simp add: look set)
  have wf1: "surv_wf (sv\<lparr>sv_procs := ?ix1\<rparr>)"
    using Suc.prems(1) ix i by (intro surv_wf_procs pi_wf_update) auto
  have take1: "take (Suc (Suc i)) (?ps[Suc i := None]) @ replicate n None
      = take (Suc i) ?ps @ replicate (Suc n) None"
    using i by (simp add: take_Suc_conv_app_nth)
  have drop1: "drop (Suc i) ?ps = ?ps ! Suc i # drop (Suc (Suc i)) ?ps"
    using i by (simp add: Cons_nth_drop_Suc)
  have len: "Suc (Suc i) + n = length (procs (sv_procs (sv\<lparr>sv_procs := ?ix1\<rparr>)))"
    using Suc.prems(2) by simp
  consider e where "?ps ! Suc i = Some e" "ec_tracked e \<noteq> 0"
    | e where "?ps ! Suc i = Some e" "ec_tracked e = 0" | "?ps ! Suc i = None"
    by (cases "?ps ! Suc i") auto
  then show ?case
  proof cases
    case (1 e)
    have "calls_wf e"
      using pi_lookup_wf [OF ix] look 1(1) by metis
    then obtain r q where q: "g_ringBuffer_write (sv_dispatchQueue (sv\<lparr>sv_procs := ?ix1\<rparr>)) (Some e)
        = Inr (r, q)" "surv_wf (sv\<lparr>sv_procs := ?ix1, sv_dispatchQueue := q\<rparr>)"
      "ring_list q = take SIZE_RING (ring_list (sv_dispatchQueue sv) @ [Some e])"
      using write_tracked [OF wf1, of "Some e"] by (simp add: call_ptr_def del: take_append) blast
    from Suc.IH [OF q(2), of "Suc i"] len retr 1 q(1,3) take1 drop1 show ?thesis
      by (auto simp: tracked_ptr_def take_take_append simp del: take_append)
  next
    case (2 e)
    have "calls_wf e"
      using pi_lookup_wf [OF ix] look 2(1) by metis
    from Suc.IH [OF wf1 len] retr 2 execCall_destroy_total [OF this] take1 drop1 show ?thesis
      by (auto simp: tracked_ptr_def)
  next
    case 3
    from Suc.IH [OF wf1 len] retr 3 take1 drop1 show ?thesis
      by (auto simp: tracked_ptr_def)
  qed
qed

lemma flush_spec:
  assumes wf: "surv_wf sv"
  shows "\<exists>sv'. surv_flush_procindex sv = Inr sv' \<and> surv_wf sv'
     \<and> pi_lookup (sv_procs sv') = (\<lambda>_. None)
     \<and> ring_list (sv_dispatchQueue sv') = take SIZE_RING (ring_list (sv_dispatchQueue sv)
         @ filter tracked_ptr (procs (sv_procs sv)))
     \<and> sv_commandQueue sv' = sv_commandQueue sv \<and> sv_openQueue sv' = sv_openQueue sv"
proof -
  let ?ix = "sv_procs sv"
  have ix: "pi_wf ?ix" using wf by (simp add: surv_wf_def)
  note size = pi_wfD(1,2) [OF ix]
  have len: "Suc 0 + nat (psize ?ix - 1) = length (procs ?ix)"
    using size by linarith
  obtain sv' where sv': "flush_loop 0 (nat (psize ?ix - 1)) sv = Inr sv'" "surv_wf sv'"
    "sv_procs sv' = ?ix\<lparr>procs := take (Suc 0) (procs ?ix) @ replicate (nat (psize ?ix - 1)) None\<rparr>"
    "ring_list (sv_dispatchQueue sv') = take SIZE_RING (ring_list (sv_dispatchQueue sv)
         @ filter tracked_ptr (drop (Suc 0) (procs ?ix)))"
    "sv_commandQueue sv' = sv_commandQueue sv" "sv_openQueue sv' = sv_openQueue sv"
    using flush_loop_spec [OF wf len] by blast
  obtain ps where ps: "procs ?ix = None # ps"
    using slot0_empty [OF ix] len by (cases "procs ?ix") auto
  have "pi_lookup (sv_procs sv') pid = None" for pid
    using sv'(3) ps size by (auto simp: pi_lookup_def nth_Cons' split: if_splits)
  then show ?thesis
    using sv' ps size by (auto simp: surv_flush_procindex_def tracked_ptr_def)
qed

lemma flush_loop_boot: "flush_loop i n sv = Inr sv' \<Longrightarrow> sv_boot_time sv' = sv_boot_time sv"
proof (induction n arbitrary: i sv)
  case 0
  then show ?case by simp
next
  case (Suc n)
  from Suc.prems show ?case
    by (auto simp: bind_r_Inr_iff Let_def split: option.splits if_splits dest!: Suc.IH)
qed

lemma flush_boot: "surv_flush_procindex sv = Inr sv' \<Longrightarrow> sv_boot_time sv' = sv_boot_time sv"
  using flush_loop_boot by (auto simp: surv_flush_procindex_def split: if_splits)

section \<open>Processes that are gone\<close>

text \<open>What a sweep does to a slot, and what it hands to the dispatch queue.\<close>

definition vit :: "(int \<Rightarrow> bool) \<Rightarrow> execCall option \<Rightarrow> execCall option" where
  "vit gone p = (case p of None \<Rightarrow> None
     | Some e \<Rightarrow> if \<not> gone (ec_pid e) then Some e
                else if ec_tracked e \<noteq> 0 \<or> ec_deadness e > 2 then None
                else Some (e\<lparr>ec_deadness := ec_deadness e + 1\<rparr>))"

definition gone_tracked :: "(int \<Rightarrow> bool) \<Rightarrow> execCall option \<Rightarrow> bool" where
  "gone_tracked gone p \<longleftrightarrow> (case p of None \<Rightarrow> False
     | Some e \<Rightarrow> gone (ec_pid e) \<and> ec_tracked e \<noteq> 0)"

lemma vit_wf: "entry_wf i e \<Longrightarrow> vit gone (Some e) = Some e' \<Longrightarrow> entry_wf i e'"
  by (auto simp: vit_def entry_wf_def calls_wf_def split: if_splits)

lemma vitals_loop_spec:
  assumes "surv_wf sv" "i + n = length (procs (sv_procs sv))"
  shows "\<exists>sv'. vitals_loop gone i n sv = Inr sv' \<and> surv_wf sv'
     \<and> sv_procs sv' = (sv_procs sv)\<lparr>procs := take i (procs (sv_procs sv))
         @ map (vit gone) (drop i (procs (sv_procs sv)))\<rparr>
     \<and> ring_list (sv_dispatchQueue sv') = take SIZE_RING (ring_list (sv_dispatchQueue sv)
         @ filter (gone_tracked gone) (drop i (procs (sv_procs sv))))
     \<and> sv_commandQueue sv' = sv_commandQueue sv \<and> sv_openQueue sv' = sv_openQueue sv"
  using assms
proof (induction n arbitrary: i sv)
  case 0
  then show ?case
    using gq.bounded [of "sv_dispatchQueue sv"] by (simp add: surv_wf_def)
next
  case (Suc n)
  let ?ix = "sv_procs sv" and ?ps = "procs (sv_procs sv)"
  have ix: "pi_wf ?ix" using Suc.prems(1) by (simp add: surv_wf_def)
  have i: "i < length ?ps" using Suc.prems(2) by simp
  let ?ix1 = "?ix\<lparr>procs := ?ps[i := vit gone (?ps ! i)]\<rparr>"
  have entry: "entry_wf i e" if "?ps ! i = Some e" for e
    using pi_wfD(4) [OF ix i that] .
  have wf1: "surv_wf (sv\<lparr>sv_procs := ?ix1\<rparr>)"
  proof (intro surv_wf_procs Suc.prems(1) pi_wf_update ix i)
    fix e assume "vit gone (?ps ! i) = Some e"
    then show "entry_wf i e"
      using entry vit_wf by (cases "?ps ! i") (auto simp: vit_def)
  qed
  have take1: "take (Suc i) (?ps[i := vit gone (?ps ! i)]) = take i ?ps @ [vit gone (?ps ! i)]"
    using i by (simp add: take_Suc_conv_app_nth)
  have drop1: "drop i ?ps = ?ps ! i # drop (Suc i) ?ps"
    using i by (simp add: Cons_nth_drop_Suc)
  have len: "Suc i + n = length (procs (sv_procs (sv\<lparr>sv_procs := ?ix1\<rparr>)))"
    using Suc.prems(2) by simp
  have same: "?ps[i := Some e] = ?ps" if "?ps ! i = Some e" for e
    using that by (metis list_update_id)
  consider e where "?ps ! i = Some e" "gone (ec_pid e)" "ec_tracked e \<noteq> 0"
    | e where "?ps ! i = Some e" "\<not> (gone (ec_pid e) \<and> ec_tracked e \<noteq> 0)" | "?ps ! i = None"
    by (cases "?ps ! i") auto
  then show ?case
  proof cases
    case (1 e)
    have "call_ptr (Some e)"
      using entry [OF 1(1)] by (simp add: call_ptr_def entry_wf_def)
    then obtain r q where q: "g_ringBuffer_write (sv_dispatchQueue (sv\<lparr>sv_procs := ?ix1\<rparr>)) (Some e)
        = Inr (r, q)" "surv_wf (sv\<lparr>sv_procs := ?ix1, sv_dispatchQueue := q\<rparr>)"
      "ring_list q = take SIZE_RING (ring_list (sv_dispatchQueue sv) @ [Some e])"
      using write_tracked [OF wf1, of "Some e"] by (simp del: take_append) blast
    have v: "vit gone (Some e) = None" "gone_tracked gone (Some e)"
      using 1 by (simp_all add: vit_def gone_tracked_def)
    from Suc.IH [OF q(2), of "Suc i"] len i 1 q(1,3) take1 drop1 v show ?thesis
      by (auto simp: take_take_append simp del: take_append)
  next
    case (2 e)
    have d: "execCall_destroy e = Inr (calls_of e, e\<lparr>ec_args := None, ec_cmdName := None, ec_callBuff := []\<rparr>)"
      using entry [OF 2(1)] by (intro execCall_destroy_total) (simp add: entry_wf_def)
    have step: "vitals_loop gone i (Suc n) sv = vitals_loop gone (Suc i) n (sv\<lparr>sv_procs := ?ix1\<rparr>)"
      using 2 i d by (auto simp: vit_def same)
    have v: "\<not> gone_tracked gone (?ps ! i)"
      using 2 by (simp add: gone_tracked_def)
    from Suc.IH [OF wf1 len] step take1 drop1 v show ?thesis
      by auto
  next
    case 3
    have step: "vitals_loop gone i (Suc n) sv = vitals_loop gone (Suc i) n (sv\<lparr>sv_procs := ?ix1\<rparr>)"
      using 3 i by (simp add: vit_def list_update_same_conv [THEN iffD2])
    have v: "\<not> gone_tracked gone (?ps ! i)"
      using 3 by (simp add: gone_tracked_def)
    from Suc.IH [OF wf1 len] step take1 drop1 v show ?thesis
      by auto
  qed
qed

lemma vitals_sweep:
  assumes wf: "surv_wf sv"
  shows "\<exists>sv'. surv_check_proc_vitals gone sv = Inr sv' \<and> surv_wf sv'
     \<and> sv_procs sv' = (sv_procs sv)\<lparr>procs := map (vit gone) (procs (sv_procs sv))\<rparr>
     \<and> ring_list (sv_dispatchQueue sv') = take SIZE_RING (ring_list (sv_dispatchQueue sv)
         @ filter (gone_tracked gone) (procs (sv_procs sv)))
     \<and> sv_commandQueue sv' = sv_commandQueue sv \<and> sv_openQueue sv' = sv_openQueue sv"
proof -
  have "0 + nat (psize (sv_procs sv)) = length (procs (sv_procs sv))"
    using wf pi_wfD(1) [of "sv_procs sv"] by (simp add: surv_wf_def)
  from vitals_loop_spec [OF wf this, of gone] show ?thesis
    by (simp add: surv_check_proc_vitals_def)
qed

text \<open>An untracked process that is gone leaves the index at the fourth sweep that finds it gone.\<close>

lemma vit_four_sweeps:
  assumes "gone (ec_pid e)" "ec_tracked e = 0" "ec_deadness e = 0"
  shows "(vit gone ^^ n) (Some e) = (if n < 4 then Some (e\<lparr>ec_deadness := int n\<rparr>) else None)"
proof (induction n)
  case 0
  then show ?case using assms(3) by simp
next
  case (Suc n)
  then show ?case using assms by (auto simp: vit_def)
qed

text \<open>Several sweeps, one after the other.\<close>

fun sweeps :: "(int \<Rightarrow> bool) \<Rightarrow> nat \<Rightarrow> surveiller \<Rightarrow> surveiller res" where
  "sweeps gone 0 sv = Inr sv"
| "sweeps gone (Suc n) sv = bind_r (surv_check_proc_vitals gone sv) (sweeps gone n)"

lemma sweep_lookup:
  assumes "surv_wf sv" "surv_check_proc_vitals gone sv = Inr sv'"
  shows "surv_wf sv' \<and> pi_lookup (sv_procs sv') pid = vit gone (pi_lookup (sv_procs sv) pid)"
proof -
  let ?ix = "sv_procs sv"
  have s: "surv_wf sv'" "sv_procs sv' = ?ix\<lparr>procs := map (vit gone) (procs ?ix)\<rparr>"
    using vitals_sweep [OF assms(1), of gone] assms(2) by auto
  have "psize ?ix = int (length (procs ?ix))"
    using assms(1) pi_wfD(1) by (simp add: surv_wf_def)
  with s show ?thesis
    by (auto simp: pi_lookup_def nth_map vit_def [of gone None])
qed

lemma sweeps_spec:
  assumes "surv_wf sv"
  shows "\<exists>sv'. sweeps gone n sv = Inr sv' \<and> surv_wf sv'
     \<and> pi_lookup (sv_procs sv') pid = (vit gone ^^ n) (pi_lookup (sv_procs sv) pid)"
  using assms
proof (induction n arbitrary: sv)
  case 0
  then show ?case by simp
next
  case (Suc n)
  obtain sv1 where sv1: "surv_check_proc_vitals gone sv = Inr sv1"
    using vitals_sweep [OF Suc.prems, of gone] by blast
  note look = sweep_lookup [OF Suc.prems sv1]
  from Suc.IH [OF conjunct1 [OF look]] sv1 look show ?case
    by (auto simp: funpow_swap1)
qed

section \<open>Properties\<close>

definition demo_surv :: surveiller where
  "demo_surv = \<lparr>sv_restart = False, sv_shutting_down = True, sv_processing_execcall_socket = False,
     sv_processing_opencall_socket = False, sv_ownPID = 1, sv_boot_time = 100, sv_status_msg = [],
     sv_procs = demo_index, sv_dispatchQueue = ring_at (-1), sv_commandQueue = ring_at 0,
     sv_openQueue = ring_at 5\<rparr>"

lemma demo_surv_wf: "surv_wf demo_surv"
  by (simp add: demo_surv_def surv_wf_def demo_index_wf ring_at_ok)

definition demo_init :: init_env where
  "demo_init = \<lparr>ie_log = (\<lambda>_. True), ie_stat = Some (''btime 5'' @ [NL]),
     ie_pid_max = Some (Some ''9''), ie_filter = 0, ie_procs = roomy, ie_commandQueue = roomy,
     ie_openQueue = roomy, ie_dispatchQueue = roomy, ie_pipe = True\<rparr>"

lemma demo_init_good: "good_init demo_init"
proof -
  have nl: "\<forall>l \<in> set ([] @ [''btime '' @ show_int 5] @ []). NL \<notin> set l \<and> length l < 199"
    by (simp add: show_int_def show_nat.simps) (simp add: NL_def)
  have five: "show_int 5 = ''5''"
    by (simp add: show_int_def show_nat.simps digit_def char_of_def bit_iff_odd)
  have "get_boot_time (Some (''btime 5'' @ [NL])) = 5"
    using get_boot_time_line [OF nl] five by (simp add: int64_ok_def)
  moreover have "get_max_PID (Some (Some ''9'')) = 9"
    by (simp add: get_max_PID_def atoi_def atol_def strtol_val_def is_space_def is_digit_def to_int32_def)
  ultimately show ?thesis
    by (simp add: demo_init_def good_init_def)
qed

theorem get_boot_time_reads:
  assumes "\<forall>l \<in> set (pre @ [''btime '' @ show_int t] @ post). NL \<notin> set l \<and> length l < 199"
    and "\<forall>l \<in> set pre. take 5 l \<noteq> ''btime''" and "int64_ok t"
  shows "get_boot_time (Some (concat (map (\<lambda>l. l @ [NL]) (pre @ [''btime '' @ show_int t] @ post)))) = t"
  by (rule get_boot_time_line [OF assms])

theorem get_boot_time_reads_witness:
  "get_boot_time (Some (concat (map (\<lambda>l. l @ [NL]) ([''cpu 1''] @ [''btime '' @ show_int 5] @ [''x''])))) = 5"
  by (rule get_boot_time_reads)
     (simp_all add: int64_ok_def show_int_def show_nat.simps, simp add: NL_def)

theorem surv_init_ok_witness:
  "\<exists>sv. surv_init demo_init 7 demo_surv = Inr (0, sv) \<and> surv_wf sv \<and> \<not> sv_shutting_down sv
     \<and> sv_boot_time sv = get_boot_time (ie_stat demo_init) mod 2 ^ 32
     \<and> pi_lookup (sv_procs sv) = (\<lambda>_. None) \<and> ring_list (sv_dispatchQueue sv) = []
     \<and> ring_list (sv_commandQueue sv) = [] \<and> ring_list (sv_openQueue sv) = []"
  by (rule surv_init_ok [OF demo_init_good])

theorem surv_init_no_log_witness:
  "\<exists>sv. surv_init (demo_init\<lparr>ie_log := (\<lambda>_. False)\<rparr>) 7 demo_surv = Inr (0, sv)
     \<and> sv_procs sv = sv_procs demo_surv \<and> sv_commandQueue sv = sv_commandQueue demo_surv
     \<and> sv_openQueue sv = sv_openQueue demo_surv \<and> sv_dispatchQueue sv = sv_dispatchQueue demo_surv"
  by (rule surv_init_no_log) simp

theorem addExecCall_spec_witness:
  "\<exists>sv'. surv_addExecCall (\<lambda>_. roomy) demo_surv (demo_call 2 0) = Inr (0, sv') \<and> surv_wf sv'
     \<and> pi_lookup (sv_procs sv') = (pi_lookup (sv_procs demo_surv))
         (ec_pid (demo_call 2 0) := Some (stored (demo_call 2 0)))
     \<and> psize (sv_procs sv') = psize (sv_procs demo_surv)
     \<and> ring_list (sv_dispatchQueue sv')
         = (case pi_lookup (sv_procs demo_surv) (ec_pid (demo_call 2 0)) of
              None \<Rightarrow> ring_list (sv_dispatchQueue demo_surv)
            | Some old \<Rightarrow> take SIZE_RING (ring_list (sv_dispatchQueue demo_surv) @ [Some old]))
     \<and> sv_commandQueue sv' = sv_commandQueue demo_surv \<and> sv_openQueue sv' = sv_openQueue demo_surv"
  by (rule addExecCall_spec [OF demo_surv_wf])
     (simp_all add: demo_call_wf, simp_all add: demo_surv_def demo_index_def demo_call_def
        execCall_zero_def has_slot_def pi_lookup_def)

theorem vitals_spec:
  assumes "surv_wf sv"
  shows "\<exists>sv'. surv_check_proc_vitals gone sv = Inr sv' \<and> surv_wf sv'
     \<and> sv_procs sv' = (sv_procs sv)\<lparr>procs := map (vit gone) (procs (sv_procs sv))\<rparr>
     \<and> ring_list (sv_dispatchQueue sv') = take SIZE_RING (ring_list (sv_dispatchQueue sv)
         @ filter (gone_tracked gone) (procs (sv_procs sv)))
     \<and> sv_commandQueue sv' = sv_commandQueue sv \<and> sv_openQueue sv' = sv_openQueue sv"
  by (rule vitals_sweep [OF assms])

theorem vitals_spec_witness:
  "\<exists>sv'. surv_check_proc_vitals (\<lambda>pid. pid = 2) demo_surv = Inr sv' \<and> surv_wf sv'
     \<and> sv_procs sv' = (sv_procs demo_surv)\<lparr>procs := map (vit (\<lambda>pid. pid = 2)) (procs (sv_procs demo_surv))\<rparr>
     \<and> ring_list (sv_dispatchQueue sv') = take SIZE_RING (ring_list (sv_dispatchQueue demo_surv)
         @ filter (gone_tracked (\<lambda>pid. pid = 2)) (procs (sv_procs demo_surv)))
     \<and> sv_commandQueue sv' = sv_commandQueue demo_surv \<and> sv_openQueue sv' = sv_openQueue demo_surv"
  by (rule vitals_spec [OF demo_surv_wf])

text \<open>
  C25: An untracked process that is gone is kept for three sweeps, its counter rising by one in
  each, and has left the index after the fourth.
\<close>

theorem gone_process_leaves:
  assumes "surv_wf sv" "pi_lookup (sv_procs sv) pid = Some e" "gone pid" "ec_tracked e = 0"
    "ec_deadness e = 0"
  shows "\<exists>sv'. sweeps gone n sv = Inr sv' \<and> surv_wf sv' \<and> pi_lookup (sv_procs sv') pid
     = (if n < 4 then Some (e\<lparr>ec_deadness := int n\<rparr>) else None)"
proof -
  obtain sv' where sv': "sweeps gone n sv = Inr sv'" "surv_wf sv'"
    "pi_lookup (sv_procs sv') pid = (vit gone ^^ n) (pi_lookup (sv_procs sv) pid)"
    using sweeps_spec [OF assms(1), of gone n] by blast
  have "ec_pid e = pid"
    using pi_lookup_wf(1) [OF _ assms(2)] assms(1) by (simp add: surv_wf_def)
  with sv' vit_four_sweeps [of gone e n] assms(2-) show ?thesis by simp
qed

theorem gone_process_leaves_witness:
  "\<exists>sv'. sweeps (\<lambda>_. True) 4 demo_surv = Inr sv' \<and> surv_wf sv' \<and> pi_lookup (sv_procs sv') 2
     = (if 4 < (4 :: nat) then Some ((demo_call 2 0)\<lparr>ec_deadness := int 4\<rparr>) else None)"
  by (rule gone_process_leaves [OF demo_surv_wf])
     (simp_all add: demo_surv_def demo_index_def pi_lookup_def demo_call_def execCall_zero_def)

theorem surv_destroy_all_witness:
  "surv_destroy demo_surv = Inr (ring_list (sv_commandQueue demo_surv),
     ring_list (sv_openQueue demo_surv), ring_list (sv_dispatchQueue demo_surv),
     List.map_filter id (procs (sv_procs demo_surv)))"
  by (rule surv_destroy_all [OF demo_surv_wf])

end
