(* ===== verification/MainLoop.thy ===== *)
theory MainLoop
  imports Surveiller Database
begin

text \<open>
  The main loop of the daemon, \<open>main\<close> in \<open>src/src/watchdog/src/watchdog.c\<close>, lines 1282-1415.

  A round sweeps the index now and then, moves one or two calls from the queues into the index
  (the older of the two first, as long as both queues have calls), finds out whether it is the
  last round, and now and then stores what the dispatch queue holds. The part that moves calls
  is \<open>main_merge\<close>. What the other threads do between two rounds is the parameter \<open>world\<close>.
\<close>

section \<open>State\<close>

text \<open>
  The local variables of the loop, with the database it writes to. \<open>m_done\<close> counts the calls
  moved so far, so that each of them meets an allocator of its own.
\<close>

record 'd main_state =
  m_surv :: surveiller
  m_db :: 'd
  m_tempEcall :: "execCall option"
  m_tempOcall :: "openCall option"
  m_compMode :: bool
  m_ready_calls :: bool
  m_counter :: nat
  m_done :: nat

record 'd main_env =
  me_add :: "nat \<Rightarrow> nat \<Rightarrow> alloc_env"
  me_gone :: "nat \<Rightarrow> int \<Rightarrow> bool"
  me_ops :: "'d bdb"
  me_dispatch :: "nat \<Rightarrow> nat \<Rightarrow> dispatch_env"

section \<open>Moving calls\<close>

definition main_addExec :: "'d main_env \<Rightarrow> 'd main_state \<Rightarrow> 'd main_state res" where
  "main_addExec env st =
     bind_r (deref (m_tempEcall st)) (\<lambda>e.
       bind_r (surv_addExecCall (me_add env (m_done st)) (m_surv st) e) (\<lambda>(_, sv).
         Inr (st\<lparr>m_surv := sv, m_done := m_done st + 1\<rparr>)))"

definition main_putExec :: "'d main_env \<Rightarrow> 'd main_state \<Rightarrow> 'd main_state res" where
  "main_putExec env st =
     bind_r (deref (m_tempEcall st)) (\<lambda>e.
       bind_r (procindex_add (me_add env (m_done st) 0) (sv_procs (m_surv st)) e) (\<lambda>(_, ix, _).
         Inr (st\<lparr>m_surv := (m_surv st)\<lparr>sv_procs := ix\<rparr>, m_done := m_done st + 1\<rparr>)))"

definition main_addOpen :: "'d main_env \<Rightarrow> 'd main_state \<Rightarrow> 'd main_state res" where
  "main_addOpen env st =
     bind_r (deref (m_tempOcall st)) (\<lambda>oc.
       bind_r (procindex_opencall_add (me_add env (m_done st)) (sv_procs (m_surv st)) oc) (\<lambda>(_, ix).
         Inr (st\<lparr>m_surv := (m_surv st)\<lparr>sv_procs := ix\<rparr>, m_done := m_done st + 1\<rparr>)))"

definition main_readExec :: "'d main_state \<Rightarrow> 'd main_state res" where
  "main_readExec st =
     bind_r (g_ringBuffer_read (sv_commandQueue (m_surv st)) (m_tempEcall st)) (\<lambda>(_, q, p).
       Inr (st\<lparr>m_surv := (m_surv st)\<lparr>sv_commandQueue := q\<rparr>, m_tempEcall := p\<rparr>))"

definition main_readOpen :: "'d main_state \<Rightarrow> 'd main_state res" where
  "main_readOpen st =
     bind_r (g_ringBuffer_read (sv_openQueue (m_surv st)) (m_tempOcall st)) (\<lambda>(_, q, p).
       Inr (st\<lparr>m_surv := (m_surv st)\<lparr>sv_openQueue := q\<rparr>, m_tempOcall := p\<rparr>))"

definition main_compare :: "'d main_env \<Rightarrow> 'd main_state \<Rightarrow> 'd main_state res" where
  "main_compare env st =
     bind_r (deref (m_tempEcall st)) (\<lambda>e. bind_r (deref (m_tempOcall st)) (\<lambda>oc.
       let ecall_first = timercmp (ec_time_stamp e) (oc_time_stamp oc) (\<le>) in
       bind_r (if ecall_first then main_addExec env st else main_addOpen env st) (\<lambda>st.
         let has_next = (ecall_first \<and> g_ringBuffer_size (sv_commandQueue (m_surv st)) \<noteq> 0
               \<or> \<not> ecall_first \<and> g_ringBuffer_size (sv_openQueue (m_surv st)) \<noteq> 0) in
         if has_next then (if ecall_first then main_readExec st else main_readOpen st)
         else bind_r (if \<not> ecall_first then main_addExec env st else main_addOpen env st) (\<lambda>st.
           Inr (st\<lparr>m_ready_calls := False, m_compMode := False\<rparr>)))))"

text \<open>The boolean tells whether the round is cut short by \<open>continue\<close>.\<close>

definition main_collect :: "'d main_env \<Rightarrow> 'd main_state \<Rightarrow> (bool \<times> 'd main_state) res" where
  "main_collect env st =
     (let st = (if g_ringBuffer_size (sv_commandQueue (m_surv st)) \<noteq> 0
                then st\<lparr>m_ready_calls := True\<rparr> else st) in
      if g_ringBuffer_size (sv_openQueue (m_surv st)) \<noteq> 0 \<and> m_ready_calls st
      then bind_r (main_readExec st) (\<lambda>st. bind_r (main_readOpen st) (\<lambda>st.
             Inr (True, st\<lparr>m_compMode := True\<rparr>)))
      else bind_r (if g_ringBuffer_size (sv_openQueue (m_surv st)) \<noteq> 0
                   then bind_r (main_readOpen st) (\<lambda>st. bind_r (main_addOpen env st) (\<lambda>st.
                          Inr (st\<lparr>m_ready_calls := False\<rparr>)))
                   else Inr st) (\<lambda>st.
        if m_ready_calls st
        then bind_r (main_readExec st) (\<lambda>st. bind_r (main_putExec env st) (\<lambda>st.
               Inr (False, st\<lparr>m_ready_calls := False\<rparr>)))
        else Inr (False, st)))"

definition main_merge :: "'d main_env \<Rightarrow> 'd main_state \<Rightarrow> (bool \<times> 'd main_state) res" where
  "main_merge env st =
     (if m_compMode st then bind_r (main_compare env st) (\<lambda>st. Inr (False, st))
      else main_collect env st)"

section \<open>Storing what is finished\<close>

text \<open>
  \<open>n\<close> rounds of the loop over the batch, from index \<open>i\<close> on. A null pointer in the queue is
  followed after a message.
\<close>

fun dispatch_loop :: "'d main_env \<Rightarrow> nat \<Rightarrow> nat \<Rightarrow> execCall option \<Rightarrow> 'd main_state
    \<Rightarrow> 'd main_state res" where
  "dispatch_loop env i 0 call st = Inr st"
| "dispatch_loop env i (Suc n) call st =
     bind_r (g_ringBuffer_read (sv_dispatchQueue (m_surv st)) call) (\<lambda>(_, q, call).
       let st = st\<lparr>m_surv := (m_surv st)\<lparr>sv_dispatchQueue := q\<rparr>\<rparr> in
       bind_r (deref call) (\<lambda>e.
         bind_r (surv_database_dispatch (me_ops env) (me_dispatch env (m_counter st) i)
                   (sv_boot_time (m_surv st)) (m_db st) e) (\<lambda>(_, db).
           bind_r (execCall_destroy e) (\<lambda>_.
             dispatch_loop env (i + 1) n None (st\<lparr>m_db := db\<rparr>)))))"

definition status_text :: "nat \<Rightarrow> surveiller \<Rightarrow> string" where
  "status_text batch sv =
     [NL] @ ''last_dispatch:'' @ show_int (int batch)
     @ '';oQueue:'' @ show_int (sint (g_ringBuffer_size (sv_openQueue sv)))
     @ '';eQueue:'' @ show_int (sint (g_ringBuffer_size (sv_commandQueue sv))) @ [NL]
     @ ''openSockethandler:'' @ (if sv_processing_opencall_socket sv then ''running'' else ''exited'') @ [NL]
     @ ''execSockethandler:'' @ (if sv_processing_execcall_socket sv then ''running'' else ''exited'') @ [NL]
     @ (if \<not> (sv_processing_execcall_socket sv \<and> sv_processing_opencall_socket sv)
        then [NL] @ ''If you are sure that the server is running,'' @ [NL]
             @ ''try restarting the watchdog daemon daemon'' else []) @ [NL]"

text \<open>\<open>sprintf\<close> into the 200 bytes of \<open>status_msg\<close>.\<close>

definition set_status :: "string \<Rightarrow> surveiller \<Rightarrow> surveiller res" where
  "set_status s sv = (if length s < 200 then Inr (sv\<lparr>sv_status_msg := s\<rparr>) else Inl OutOfBounds)"

definition main_dispatch :: "'d main_env \<Rightarrow> 'd main_state \<Rightarrow> 'd main_state res" where
  "main_dispatch env st =
     (let dispatch_batch = nat (sint (g_ringBuffer_size (sv_dispatchQueue (m_surv st)))) in
      bind_r (dispatch_loop env 0 dispatch_batch None st) (\<lambda>st.
        bind_r (set_status (status_text dispatch_batch (m_surv st)) (m_surv st)) (\<lambda>sv.
          Inr (st\<lparr>m_surv := sv\<rparr>))))"

section \<open>A round and the loop\<close>

definition main_dead :: "surveiller \<Rightarrow> bool" where
  "main_dead sv \<longleftrightarrow> sv_shutting_down sv \<and> \<not> sv_processing_opencall_socket sv
     \<and> \<not> sv_processing_execcall_socket sv \<and> g_ringBuffer_empty (sv_openQueue sv)
     \<and> g_ringBuffer_empty (sv_commandQueue sv)"

definition main_finish :: "'d main_env \<Rightarrow> 'd main_state \<Rightarrow> (bool \<times> 'd main_state) res" where
  "main_finish env st =
     (let dead = main_dead (m_surv st) in
      bind_r (if dead then bind_r (surv_flush_procindex (m_surv st)) (\<lambda>sv. Inr (st\<lparr>m_surv := sv\<rparr>))
              else Inr st) (\<lambda>st.
        bind_r (if dead \<or> m_counter st mod 512 = 0 then main_dispatch env st else Inr st) (\<lambda>st.
          Inr (dead, st\<lparr>m_counter := m_counter st + 1\<rparr>))))"

definition main_round :: "'d main_env \<Rightarrow> 'd main_state \<Rightarrow> (bool \<times> 'd main_state) res" where
  "main_round env st =
     (let st = (if m_counter st \<ge> 424242
                then st\<lparr>m_surv := (m_surv st)\<lparr>sv_shutting_down := True\<rparr>\<rparr> else st) in
      bind_r (if m_counter st mod 1024 = 0
              then bind_r (surv_check_proc_vitals (me_gone env (m_counter st)) (m_surv st)) (\<lambda>sv.
                     Inr (st\<lparr>m_surv := sv\<rparr>))
              else Inr st) (\<lambda>st.
        bind_r (main_merge env st) (\<lambda>(cont, st).
          if cont then Inr (False, st) else main_finish env st)))"

text \<open>The first \<open>n\<close> rounds; the boolean tells whether the loop has ended by then.\<close>

fun main_loop :: "'d main_env \<Rightarrow> (nat \<Rightarrow> surveiller \<Rightarrow> surveiller) \<Rightarrow> nat \<Rightarrow> nat \<Rightarrow> 'd main_state
    \<Rightarrow> (bool \<times> 'd main_state) res" where
  "main_loop env world k 0 st = Inr (False, st)"
| "main_loop env world k (Suc n) st =
     bind_r (main_round env (st\<lparr>m_surv := world k (m_surv st)\<rparr>)) (\<lambda>(dead, st).
       if dead then Inr (True, st) else main_loop env world (k + 1) n st)"

section \<open>The calls of two closed queues, in order\<close>

datatype call_action = AddExec execCall | PutExec execCall | AddOpen openCall

fun action_stamp :: "call_action \<Rightarrow> timeval" where
  "action_stamp (AddExec e) = ec_time_stamp e"
| "action_stamp (PutExec e) = ec_time_stamp e"
| "action_stamp (AddOpen oc) = oc_time_stamp oc"

text \<open>
  The order in which the loop moves the calls of two queues that nobody writes to any more. The
  second function is the mode in which two calls are compared.
\<close>

function (sequential) schedule :: "execCall list \<Rightarrow> openCall list \<Rightarrow> call_action list"
  and schedule2 :: "execCall \<Rightarrow> execCall list \<Rightarrow> openCall \<Rightarrow> openCall list \<Rightarrow> call_action list"
  where
  "schedule [] [] = []"
| "schedule [] (oc # ocs) = AddOpen oc # schedule [] ocs"
| "schedule (e # es) [] = PutExec e # schedule es []"
| "schedule (e # es) (oc # ocs) = schedule2 e es oc ocs"
| "schedule2 e es oc ocs =
     (if timercmp (ec_time_stamp e) (oc_time_stamp oc) (\<le>)
      then AddExec e # (case es of e' # es' \<Rightarrow> schedule2 e' es' oc ocs
                        | [] \<Rightarrow> AddOpen oc # schedule [] ocs)
      else AddOpen oc # (case ocs of oc' # ocs' \<Rightarrow> schedule2 e es oc' ocs'
                         | [] \<Rightarrow> AddExec e # schedule es []))"
  by pat_completeness auto
termination
  by (relation "measure (\<lambda>x. case x of Inl (es, ocs) \<Rightarrow> 2 * (length es + length ocs)
      | Inr (e, es, oc, ocs) \<Rightarrow> 2 * (length es + length ocs) + 3)") auto

declare schedule2.simps [simp del]

text \<open>What a call does to the index and the dispatch queue.\<close>

fun act_on :: "(nat \<Rightarrow> alloc_env) \<Rightarrow> call_action \<Rightarrow> surveiller \<Rightarrow> surveiller res" where
  "act_on mem (AddExec e) sv = bind_r (surv_addExecCall mem sv e) (\<lambda>(_, sv). Inr sv)"
| "act_on mem (PutExec e) sv =
     bind_r (procindex_add (mem 0) (sv_procs sv) e) (\<lambda>(_, ix, _). Inr (sv\<lparr>sv_procs := ix\<rparr>))"
| "act_on mem (AddOpen oc) sv =
     bind_r (procindex_opencall_add mem (sv_procs sv) oc) (\<lambda>(_, ix). Inr (sv\<lparr>sv_procs := ix\<rparr>))"

fun act_all :: "'d main_env \<Rightarrow> nat \<Rightarrow> call_action list \<Rightarrow> surveiller \<Rightarrow> surveiller res" where
  "act_all env k [] sv = Inr sv"
| "act_all env k (a # as) sv =
     bind_r (act_on (me_add env k) a sv) (\<lambda>sv. act_all env (k + 1) as sv)"

text \<open>The first \<open>n\<close> rounds of the part that moves calls.\<close>

fun merge_rounds :: "'d main_env \<Rightarrow> nat \<Rightarrow> 'd main_state \<Rightarrow> 'd main_state res" where
  "merge_rounds env 0 st = Inr st"
| "merge_rounds env (Suc n) st = bind_r (main_merge env st) (\<lambda>(_, st). merge_rounds env n st)"

section \<open>The rounds follow the schedule\<close>

text \<open>A state of the loop with its queues, its two calls, its mode and its count spelt out.\<close>

definition at_mode ::
  "'d main_state \<Rightarrow> execCall g_ringBuffer \<Rightarrow> openCall g_ringBuffer \<Rightarrow> execCall option \<Rightarrow> openCall option
   \<Rightarrow> bool \<Rightarrow> bool \<Rightarrow> nat \<Rightarrow> surveiller \<Rightarrow> 'd main_state" where
  "at_mode st c oq te toc md rd k sv =
     st\<lparr>m_surv := sv\<lparr>sv_commandQueue := c, sv_openQueue := oq\<rparr>, m_tempEcall := te,
        m_tempOcall := toc, m_compMode := md, m_ready_calls := rd, m_done := k\<rparr>"

definition holds_list :: "'a g_ringBuffer \<Rightarrow> 'a list \<Rightarrow> bool" where
  "holds_list q xs \<longleftrightarrow> ring_inv q \<and> ring_list q = map Some xs"

lemma holds_size: "holds_list q xs \<Longrightarrow> g_ringBuffer_size q = 0 \<longleftrightarrow> xs = []"
  using ring_list_empty_iff [of q]
  by (auto simp: holds_list_def g_ringBuffer_empty_def g_ringBuffer_size_def)

lemma holds_read:
  assumes "holds_list q (x # xs)"
  shows "\<exists>q'. holds_list q' xs \<and> (\<forall>c. g_ringBuffer_read q c = Inr (0, q', Some x))"
proof -
  have q: "ring_inv q" "ring_list q = Some x # map Some xs"
    using assms by (simp_all add: holds_list_def)
  obtain q' where q': "g_ringBuffer_read q None = Inr (0, q', Some x)" "ring_inv q'"
    "ring_list q' = map Some xs"
    using gq.rd_ok [OF q, of None] by blast
  have "g_ringBuffer_read q c = g_ringBuffer_read q None" for c
    using q(2) ring_list_empty_iff [of q] by (simp add: g_ringBuffer_read_def)
  with q' show ?thesis
    by (auto simp: holds_list_def)
qed

text \<open>Moving a call leaves the other two queues alone, and does not look at them.\<close>

lemma addExecCall_queues:
  "surv_addExecCall mem (sv\<lparr>sv_commandQueue := c, sv_openQueue := oq\<rparr>) e
     = bind_r (surv_addExecCall mem sv e) (\<lambda>(r, sv).
         Inr (r, sv\<lparr>sv_commandQueue := c, sv_openQueue := oq\<rparr>))"
  by (auto simp: surv_addExecCall_def bind_r_def Let_def split: sum.splits prod.splits)

lemma main_addExec_mode:
  "main_addExec env (at_mode st c oq (Some e) toc md rd k sv)
     = bind_r (act_on (me_add env k) (AddExec e) sv) (\<lambda>sv.
         Inr (at_mode st c oq (Some e) toc md rd (k + 1) sv))"
  by (auto simp: main_addExec_def at_mode_def addExecCall_queues bind_r_def
      split: sum.splits prod.splits)

lemma main_putExec_mode:
  "main_putExec env (at_mode st c oq (Some e) toc md rd k sv)
     = bind_r (act_on (me_add env k) (PutExec e) sv) (\<lambda>sv.
         Inr (at_mode st c oq (Some e) toc md rd (k + 1) sv))"
  by (auto simp: main_putExec_def at_mode_def bind_r_def split: sum.splits prod.splits)

lemma main_addOpen_mode:
  "main_addOpen env (at_mode st c oq te (Some oc) md rd k sv)
     = bind_r (act_on (me_add env k) (AddOpen oc) sv) (\<lambda>sv.
         Inr (at_mode st c oq te (Some oc) md rd (k + 1) sv))"
  by (auto simp: main_addOpen_def at_mode_def bind_r_def split: sum.splits prod.splits)

lemma main_readExec_mode:
  assumes "\<forall>p. g_ringBuffer_read c p = Inr (0, c', Some e)"
  shows "main_readExec (at_mode st c oq te toc md rd k sv) = Inr (at_mode st c' oq (Some e) toc md rd k sv)"
  using assms by (simp add: main_readExec_def at_mode_def)

lemma main_readOpen_mode:
  assumes "\<forall>p. g_ringBuffer_read oq p = Inr (0, oq', Some oc)"
  shows "main_readOpen (at_mode st c oq te toc md rd k sv) = Inr (at_mode st c oq' te (Some oc) md rd k sv)"
  using assms by (simp add: main_readOpen_def at_mode_def)

lemma at_mode_simps [simp]:
  "m_tempEcall (at_mode st c oq te toc md rd k sv) = te"
  "m_tempOcall (at_mode st c oq te toc md rd k sv) = toc"
  "m_compMode (at_mode st c oq te toc md rd k sv) = md"
  "m_ready_calls (at_mode st c oq te toc md rd k sv) = rd"
  "sv_commandQueue (m_surv (at_mode st c oq te toc md rd k sv)) = c"
  "sv_openQueue (m_surv (at_mode st c oq te toc md rd k sv)) = oq"
  "(at_mode st c oq te toc md rd k sv)\<lparr>m_ready_calls := b, m_compMode := b\<rparr>
     = at_mode st c oq te toc b b k sv"
  "(at_mode st c oq te toc md rd k sv)\<lparr>m_ready_calls := b\<rparr> = at_mode st c oq te toc md b k sv"
  "(at_mode st c oq te toc md rd k sv)\<lparr>m_compMode := b\<rparr> = at_mode st c oq te toc b rd k sv"
  by (simp_all add: at_mode_def)

text \<open>\<open>runs\<close>: some number of rounds does just these actions and leaves both queues empty.\<close>

definition runs ::
  "'d main_env \<Rightarrow> 'd main_state \<Rightarrow> nat \<Rightarrow> execCall g_ringBuffer \<Rightarrow> openCall g_ringBuffer
   \<Rightarrow> execCall option \<Rightarrow> openCall option \<Rightarrow> bool \<Rightarrow> call_action list \<Rightarrow> bool" where
  "runs env st n c oq te toc md acts \<longleftrightarrow>
     (\<exists>c' oq' te' toc'. holds_list c' [] \<and> holds_list oq' [] \<and>
        (\<forall>k sv. merge_rounds env n (at_mode st c oq te toc md md k sv)
           = bind_r (act_all env k acts sv) (\<lambda>sv.
               Inr (at_mode st c' oq' te' toc' False False (k + length acts) sv))))"

lemma runs_step:
  assumes "\<And>k sv. main_merge env (at_mode st c oq te toc md md k sv)
      = bind_r (act_on (me_add env k) a sv) (\<lambda>sv. Inr (b, at_mode st c1 oq1 te1 toc1 md1 md1 (k + 1) sv))"
    and "runs env st n c1 oq1 te1 toc1 md1 acts"
  shows "runs env st (Suc n) c oq te toc md (a # acts)"
proof -
  obtain c' oq' te' toc' where r: "holds_list c' []" "holds_list oq' []"
    "\<And>k sv. merge_rounds env n (at_mode st c1 oq1 te1 toc1 md1 md1 k sv)
       = bind_r (act_all env k acts sv) (\<lambda>sv. Inr (at_mode st c' oq' te' toc' False False (k + length acts) sv))"
    using assms(2) by (auto simp: runs_def)
  have "merge_rounds env (Suc n) (at_mode st c oq te toc md md k sv)
      = bind_r (act_all env k (a # acts) sv) (\<lambda>sv.
          Inr (at_mode st c' oq' te' toc' False False (k + length (a # acts)) sv))" for k sv
    by (simp add: assms(1) bind_r_assoc r(3))
  with r(1,2) show ?thesis
    unfolding runs_def by blast
qed

lemma runs_skip:
  assumes "\<And>k sv. main_merge env (at_mode st c oq te toc md md k sv)
      = Inr (b, at_mode st c1 oq1 te1 toc1 md1 md1 k sv)"
    and "runs env st n c1 oq1 te1 toc1 md1 acts"
  shows "runs env st (Suc n) c oq te toc md acts"
  using assms by (simp add: runs_def)

text \<open>The last comparison moves both calls.\<close>

lemma runs_step2:
  assumes "\<And>k sv. main_merge env (at_mode st c oq te toc md md k sv)
      = bind_r (act_on (me_add env k) a sv) (\<lambda>sv. bind_r (act_on (me_add env (k + 1)) a' sv) (\<lambda>sv.
          Inr (b, at_mode st c1 oq1 te1 toc1 md1 md1 (k + 2) sv)))"
    and "runs env st n c1 oq1 te1 toc1 md1 acts"
  shows "runs env st (Suc n) c oq te toc md (a # a' # acts)"
proof -
  obtain c' oq' te' toc' where r: "holds_list c' []" "holds_list oq' []"
    "\<And>k sv. merge_rounds env n (at_mode st c1 oq1 te1 toc1 md1 md1 k sv)
       = bind_r (act_all env k acts sv) (\<lambda>sv. Inr (at_mode st c' oq' te' toc' False False (k + length acts) sv))"
    using assms(2) by (auto simp: runs_def)
  have "merge_rounds env (Suc n) (at_mode st c oq te toc md md k sv)
      = bind_r (act_all env k (a # a' # acts) sv) (\<lambda>sv.
          Inr (at_mode st c' oq' te' toc' False False (k + length (a # a' # acts)) sv))" for k sv
    using r(3) [of "Suc (Suc k)"] by (simp add: assms(1) bind_r_assoc numeral_2_eq_2)
  with r(1,2) show ?thesis
    unfolding runs_def by blast
qed

lemma runs_done:
  "holds_list c [] \<Longrightarrow> holds_list oq [] \<Longrightarrow> runs env st 0 c oq te toc False []"
  unfolding runs_def by (intro exI conjI) auto

text \<open>The rounds that collect calls, and those that compare two.\<close>

lemma runs_open:
  assumes "holds_list c []" "holds_list oq (oc # ocs)"
  obtains oq' where "holds_list oq' ocs"
    "\<And>n acts. runs env st n c oq' te (Some oc) False acts \<Longrightarrow> runs env st (Suc n) c oq te toc False (AddOpen oc # acts)"
proof -
  obtain oq' where q: "holds_list oq' ocs" "\<forall>p. g_ringBuffer_read oq p = Inr (0, oq', Some oc)"
    using holds_read [OF assms(2)] by blast
  have "main_merge env (at_mode st c oq te toc False False k sv)
      = bind_r (act_on (me_add env k) (AddOpen oc) sv) (\<lambda>sv.
          Inr (False, at_mode st c oq' te (Some oc) False False (k + 1) sv))" for k sv
    using holds_size [OF assms(1)] holds_size [OF assms(2)]
    by (simp add: main_merge_def main_collect_def main_readOpen_mode [OF q(2)] main_addOpen_mode bind_r_assoc Let_def)
  from runs_step [OF this] q(1) that show ?thesis by blast
qed

lemma runs_exec:
  assumes "holds_list c (e # es)" "holds_list oq []"
  obtains c' where "holds_list c' es"
    "\<And>n acts. runs env st n c' oq (Some e) toc False acts \<Longrightarrow> runs env st (Suc n) c oq te toc False (PutExec e # acts)"
proof -
  obtain c' where q: "holds_list c' es" "\<forall>p. g_ringBuffer_read c p = Inr (0, c', Some e)"
    using holds_read [OF assms(1)] by blast
  have "main_merge env (at_mode st c oq te toc False False k sv)
      = bind_r (act_on (me_add env k) (PutExec e) sv) (\<lambda>sv.
          Inr (False, at_mode st c' oq (Some e) toc False False (k + 1) sv))" for k sv
    using holds_size [OF assms(1)] holds_size [OF assms(2)]
    by (simp add: main_merge_def main_collect_def main_readExec_mode [OF q(2)] main_putExec_mode bind_r_assoc Let_def)
  from runs_step [OF this] q(1) that show ?thesis by blast
qed

lemma runs_both:
  assumes "holds_list c (e # es)" "holds_list oq (oc # ocs)"
  obtains c' oq' where "holds_list c' es" "holds_list oq' ocs"
    "\<And>n acts. runs env st n c' oq' (Some e) (Some oc) True acts \<Longrightarrow> runs env st (Suc n) c oq te toc False acts"
proof -
  obtain c' where c: "holds_list c' es" "\<forall>p. g_ringBuffer_read c p = Inr (0, c', Some e)"
    using holds_read [OF assms(1)] by blast
  obtain oq' where oq: "holds_list oq' ocs" "\<forall>p. g_ringBuffer_read oq p = Inr (0, oq', Some oc)"
    using holds_read [OF assms(2)] by blast
  have "main_merge env (at_mode st c oq te toc False False k sv)
      = Inr (True, at_mode st c' oq' (Some e) (Some oc) True True k sv)" for k sv
    using holds_size [OF assms(1)] holds_size [OF assms(2)]
    by (simp add: main_merge_def main_collect_def main_readExec_mode [OF c(2)] main_readOpen_mode [OF oq(2)] Let_def)
  from runs_skip [OF this] c(1) oq(1) that show ?thesis by blast
qed

lemma compare_mode:
  "main_merge env (at_mode st c oq te toc True True k sv)
     = bind_r (main_compare env (at_mode st c oq te toc True True k sv)) (\<lambda>st. Inr (False, st))"
  by (simp add: main_merge_def)

lemma runs_last_pair:
  assumes "if timercmp (ec_time_stamp e) (oc_time_stamp oc) (\<le>) then holds_list c [] \<and> pair = [AddExec e, AddOpen oc]
      else holds_list oq [] \<and> pair = [AddOpen oc, AddExec e]"
    and "runs env st n c oq (Some e) (Some oc) False acts"
  shows "runs env st (Suc n) c oq (Some e) (Some oc) True (pair @ acts)"
proof -
  obtain a b where pair: "pair = [a, b]" using assms(1) by (auto split: if_splits)
  have "main_merge env (at_mode st c oq (Some e) (Some oc) True True k sv)
      = bind_r (act_on (me_add env k) a sv) (\<lambda>sv. bind_r (act_on (me_add env (k + 1)) b sv) (\<lambda>sv.
          Inr (False, at_mode st c oq (Some e) (Some oc) False False (k + 2) sv)))" for k sv
    unfolding compare_mode using assms(1) pair holds_size [of c "[]"] holds_size [of oq "[]"]
    by (auto simp: main_compare_def main_addExec_mode main_addOpen_mode bind_r_assoc
        numeral_2_eq_2 simp del: act_on.simps split: if_splits)
  from runs_step2 [OF this assms(2)] show ?thesis by (simp add: pair)
qed

lemma runs_older_exec:
  assumes "timercmp (ec_time_stamp e) (oc_time_stamp oc) (\<le>)" "holds_list c (e' # es)"
  obtains c' where "holds_list c' es"
    "\<And>n acts. runs env st n c' oq (Some e') (Some oc) True acts \<Longrightarrow> runs env st (Suc n) c oq (Some e) (Some oc) True (AddExec e # acts)"
proof -
  obtain c' where q: "holds_list c' es" "\<forall>p. g_ringBuffer_read c p = Inr (0, c', Some e')"
    using holds_read [OF assms(2)] by blast
  have "main_merge env (at_mode st c oq (Some e) (Some oc) True True k sv)
      = bind_r (act_on (me_add env k) (AddExec e) sv) (\<lambda>sv.
          Inr (False, at_mode st c' oq (Some e') (Some oc) True True (k + 1) sv))" for k sv
    unfolding compare_mode using assms(1) holds_size [OF assms(2)]
    by (simp add: main_compare_def main_addExec_mode main_readExec_mode [OF q(2)] bind_r_assoc del: act_on.simps)
  from runs_step [OF this] q(1) that show ?thesis by blast
qed

lemma runs_older_open:
  assumes "\<not> timercmp (ec_time_stamp e) (oc_time_stamp oc) (\<le>)" "holds_list oq (oc' # ocs)"
  obtains oq' where "holds_list oq' ocs"
    "\<And>n acts. runs env st n c oq' (Some e) (Some oc') True acts \<Longrightarrow> runs env st (Suc n) c oq (Some e) (Some oc) True (AddOpen oc # acts)"
proof -
  obtain oq' where q: "holds_list oq' ocs" "\<forall>p. g_ringBuffer_read oq p = Inr (0, oq', Some oc')"
    using holds_read [OF assms(2)] by blast
  have "main_merge env (at_mode st c oq (Some e) (Some oc) True True k sv)
      = bind_r (act_on (me_add env k) (AddOpen oc) sv) (\<lambda>sv.
          Inr (False, at_mode st c oq' (Some e) (Some oc') True True (k + 1) sv))" for k sv
    unfolding compare_mode using assms(1) holds_size [OF assms(2)]
    by (simp add: main_compare_def main_addOpen_mode main_readOpen_mode [OF q(2)] bind_r_assoc del: act_on.simps)
  from runs_step [OF this] q(1) that show ?thesis by blast
qed

lemma runs_schedule:
  "\<And>c oq te toc. holds_list c es \<Longrightarrow> holds_list oq ocs \<Longrightarrow>
     \<exists>n \<le> length es + length ocs + 1. runs env st n c oq te toc False (schedule es ocs)"
  "\<And>c oq. holds_list c es2 \<Longrightarrow> holds_list oq ocs2 \<Longrightarrow>
     \<exists>n \<le> length es2 + length ocs2 + 2. runs env st n c oq (Some e2) (Some oc2) True
       (schedule2 e2 es2 oc2 ocs2)"
proof (induction es ocs and e2 es2 oc2 ocs2 rule: schedule_schedule2.induct)
  case 1
  then show ?case
    using runs_done by (intro exI [of _ 0]) simp
next
  case (2 oc ocs)
  obtain oq' where q: "holds_list oq' ocs" "\<And>n acts. runs env st n c oq' te (Some oc) False acts
      \<Longrightarrow> runs env st (Suc n) c oq te toc False (AddOpen oc # acts)"
    using runs_open [OF "2.prems", of env st te toc] by (metis (no_types))
  obtain n where "n \<le> length ocs + 1" "runs env st n c oq' te (Some oc) False (schedule [] ocs)"
    using "2.IH" [OF "2.prems"(1) q(1)] by auto
  with q(2) show ?case by (intro exI [of _ "Suc n"]) simp
next
  case (3 e es)
  obtain c' where q: "holds_list c' es" "\<And>n acts. runs env st n c' oq (Some e) toc False acts
      \<Longrightarrow> runs env st (Suc n) c oq te toc False (PutExec e # acts)"
    using runs_exec [OF "3.prems", of env st toc te] by (metis (no_types))
  obtain n where "n \<le> length es + 1" "runs env st n c' oq (Some e) toc False (schedule es [])"
    using "3.IH" [OF q(1) "3.prems"(2)] by auto
  with q(2) show ?case by (intro exI [of _ "Suc n"]) simp
next
  case (4 e es oc ocs)
  obtain c' oq' where q: "holds_list c' es" "holds_list oq' ocs" "\<And>n acts. runs env st n c' oq' (Some e) (Some oc) True acts
      \<Longrightarrow> runs env st (Suc n) c oq te toc False acts"
    using runs_both [OF "4.prems", of env st te toc] by (metis (no_types))
  obtain n where "n \<le> length es + length ocs + 2" "runs env st n c' oq' (Some e) (Some oc) True (schedule2 e es oc ocs)"
    using "4.IH" [OF q(1,2)] by auto
  with q(3) show ?case by (intro exI [of _ "Suc n"]) simp
next
  case (5 e es oc ocs)
  show ?case
  proof (cases "timercmp (ec_time_stamp e) (oc_time_stamp oc) (\<le>)")
    case first: True
    show ?thesis
    proof (cases es)
      case Nil
      then obtain n where "n \<le> length ocs + 1" "runs env st n c oq (Some e) (Some oc) False (schedule [] ocs)"
        using "5.IH"(1) [OF first Nil _ "5.prems"(2), of c "Some e" "Some oc"] "5.prems"(1) by auto
      with runs_last_pair [of e oc c "[AddExec e, AddOpen oc]" oq] first Nil "5.prems"(1) show ?thesis
        by (intro exI [of _ "Suc n"]) (simp add: schedule2.simps)
    next
      case (Cons e' es')
      obtain c' where c': "holds_list c' es'" "\<And>n acts. runs env st n c' oq (Some e') (Some oc) True acts
          \<Longrightarrow> runs env st (Suc n) c oq (Some e) (Some oc) True (AddExec e # acts)"
        using runs_older_exec [OF first "5.prems"(1) [unfolded Cons], of env st oq] by (metis (no_types))
      obtain n where "n \<le> length es' + length ocs + 2" "runs env st n c' oq (Some e') (Some oc) True (schedule2 e' es' oc ocs)"
        using "5.IH"(2) [OF first Cons c'(1) "5.prems"(2)] by auto
      with c'(2) first Cons show ?thesis
        by (intro exI [of _ "Suc n"]) (simp add: schedule2.simps)
    qed
  next
    case second: False
    show ?thesis
    proof (cases ocs)
      case Nil
      then obtain n where "n \<le> length es + 1" "runs env st n c oq (Some e) (Some oc) False (schedule es [])"
        using "5.IH"(3) [OF second Nil "5.prems"(1), of oq "Some e" "Some oc"] "5.prems"(2) by auto
      with runs_last_pair [of e oc c "[AddOpen oc, AddExec e]" oq] second Nil "5.prems"(2) show ?thesis
        by (intro exI [of _ "Suc n"]) (simp add: schedule2.simps)
    next
      case (Cons oc' ocs')
      obtain oq' where oq': "holds_list oq' ocs'" "\<And>n acts. runs env st n c oq' (Some e) (Some oc') True acts
          \<Longrightarrow> runs env st (Suc n) c oq (Some e) (Some oc) True (AddOpen oc # acts)"
        using runs_older_open [OF second "5.prems"(2) [unfolded Cons], of env st c] by (metis (no_types))
      obtain n where "n \<le> length es + length ocs' + 2" "runs env st n c oq' (Some e) (Some oc') True (schedule2 e es oc' ocs')"
        using "5.IH"(4) [OF second Cons "5.prems"(1) oq'(1)] by auto
      with oq'(2) second Cons show ?thesis
        by (intro exI [of _ "Suc n"]) (simp add: schedule2.simps)
    qed
  qed
qed

lemma merge_follows_schedule:
  assumes "holds_list (sv_commandQueue (m_surv st)) es" "holds_list (sv_openQueue (m_surv st)) ocs"
    "\<not> m_compMode st" "\<not> m_ready_calls st"
    and acts: "act_all env (m_done st) (schedule es ocs) (m_surv st) = Inr sv"
  shows "\<exists>n \<le> length es + length ocs + 1. \<exists>st'. merge_rounds env n st = Inr st'
     \<and> sv_procs (m_surv st') = sv_procs sv \<and> sv_dispatchQueue (m_surv st') = sv_dispatchQueue sv
     \<and> holds_list (sv_commandQueue (m_surv st')) [] \<and> holds_list (sv_openQueue (m_surv st')) []
     \<and> \<not> m_compMode st' \<and> \<not> m_ready_calls st'"
proof -
  let ?c = "sv_commandQueue (m_surv st)" and ?o = "sv_openQueue (m_surv st)"
  have st: "at_mode st ?c ?o (m_tempEcall st) (m_tempOcall st) False False (m_done st) (m_surv st) = st"
    using assms(3,4) by (simp add: at_mode_def)
  obtain n where n: "n \<le> length es + length ocs + 1"
    "runs env st n ?c ?o (m_tempEcall st) (m_tempOcall st) False (schedule es ocs)"
    using runs_schedule(1) [OF assms(1,2)] by blast
  then obtain c' oq' te' toc' where r: "holds_list c' []" "holds_list oq' []"
    "merge_rounds env n st = Inr (at_mode st c' oq' te' toc' False False
        (m_done st + length (schedule es ocs)) sv)"
    using acts st unfolding runs_def by (metis bind_r_simps(1))
  show ?thesis
    by (intro exI [of _ n] conjI n(1) exI, rule r(3)) (simp_all add: at_mode_def r)
qed

section \<open>The schedule is a merge by time stamp\<close>

definition stamp_le :: "timeval \<Rightarrow> timeval \<Rightarrow> bool" where
  "stamp_le a b \<longleftrightarrow> timercmp a b (\<le>)"

lemma stamp_le_refl [simp]: "stamp_le a a"
  by (simp add: stamp_le_def timercmp_def)

lemma stamp_le_trans: "stamp_le a b \<Longrightarrow> stamp_le b c \<Longrightarrow> stamp_le a c"
  using timercmp_le_trans by (auto simp: stamp_le_def)

lemma stamp_le_total: "\<not> stamp_le a b \<Longrightarrow> stamp_le b a"
  using timercmp_le_total by (auto simp: stamp_le_def)

fun action_exec :: "call_action \<Rightarrow> execCall option" where
  "action_exec (AddExec e) = Some e"
| "action_exec (PutExec e) = Some e"
| "action_exec (AddOpen oc) = None"

fun action_open :: "call_action \<Rightarrow> openCall option" where
  "action_open (AddOpen oc) = Some oc"
| "action_open _ = None"

text \<open>Every call is moved once, and the calls of a queue in the order of the queue.\<close>

lemma schedule_complete:
  "List.map_filter action_exec (schedule es ocs) = es
     \<and> List.map_filter action_open (schedule es ocs) = ocs"
  "List.map_filter action_exec (schedule2 e2 es2 oc2 ocs2) = e2 # es2
     \<and> List.map_filter action_open (schedule2 e2 es2 oc2 ocs2) = oc2 # ocs2"
proof (induction es ocs and e2 es2 oc2 ocs2 rule: schedule_schedule2.induct)
  case (5 e es oc ocs)
  then show ?case
    by (cases es; cases ocs) (auto simp: schedule2.simps map_filter_simps)
qed (simp_all add: map_filter_simps)

definition stamps :: "execCall list \<Rightarrow> openCall list \<Rightarrow> timeval set" where
  "stamps es ocs = ec_time_stamp ` set es \<union> oc_time_stamp ` set ocs"

lemma schedule_stamps:
  "action_stamp ` set (schedule es ocs) = stamps es ocs"
  "action_stamp ` set (schedule2 e2 es2 oc2 ocs2) = stamps (e2 # es2) (oc2 # ocs2)"
proof (induction es ocs and e2 es2 oc2 ocs2 rule: schedule_schedule2.induct)
  case (5 e es oc ocs)
  then show ?case
    by (cases es; cases ocs) (auto simp: schedule2.simps stamps_def)
qed (auto simp: stamps_def)

definition in_order :: "timeval list \<Rightarrow> bool" where
  "in_order ts \<longleftrightarrow> sorted_wrt stamp_le ts"

lemma in_order_Cons: "in_order (t # ts) \<longleftrightarrow> (\<forall>u \<in> set ts. stamp_le t u) \<and> in_order ts"
  by (simp add: in_order_def)

lemma in_order_sorted: "in_order ts \<longleftrightarrow> sorted ts"
proof -
  have "stamp_le = (\<le>)"
    by (intro ext) (simp add: stamp_le_def timercmp_le_iff)
  then show ?thesis
    by (simp add: in_order_def)
qed

lemma schedule_sorted:
  "in_order (map ec_time_stamp es) \<Longrightarrow> in_order (map oc_time_stamp ocs) \<Longrightarrow>
     in_order (map action_stamp (schedule es ocs))"
  "in_order (map ec_time_stamp (e2 # es2)) \<Longrightarrow> in_order (map oc_time_stamp (oc2 # ocs2)) \<Longrightarrow>
     in_order (map action_stamp (schedule2 e2 es2 oc2 ocs2))"
proof (induction es ocs and e2 es2 oc2 ocs2 rule: schedule_schedule2.induct)
  case 1
  then show ?case by (simp add: in_order_def)
next
  case (2 oc ocs)
  then show ?case
    using schedule_stamps(1) [of "[]" ocs] by (auto simp: in_order_Cons stamps_def)
next
  case (3 e es)
  then show ?case
    using schedule_stamps(1) [of es "[]"] by (auto simp: in_order_Cons stamps_def)
next
  case (4 e es oc ocs)
  then show ?case by simp
next
  case (5 e es oc ocs)
  let ?e = "ec_time_stamp e" and ?o = "oc_time_stamp oc"
  have es: "\<forall>x \<in> set es. stamp_le ?e (ec_time_stamp x)" "in_order (map ec_time_stamp es)"
    and ocs: "\<forall>x \<in> set ocs. stamp_le ?o (oc_time_stamp x)" "in_order (map oc_time_stamp ocs)"
    using "5.prems" by (auto simp: in_order_Cons)
  show ?case
  proof (cases "timercmp ?e ?o (\<le>)")
    case True
    then have "stamp_le ?e ?o" by (simp add: stamp_le_def)
    then have le: "\<forall>t \<in> stamps es (oc # ocs). stamp_le ?e t"
      using es(1) ocs(1) stamp_le_trans by (auto simp: stamps_def)
    show ?thesis
    proof (cases es)
      case Nil
      have "\<forall>t \<in> stamps [] ocs. stamp_le ?o t"
        using ocs(1) by (auto simp: stamps_def)
      with "5.IH"(1) [OF True Nil] ocs(2) Nil le True schedule_stamps(1) [of "[]" ocs]
      show ?thesis
        by (auto simp: schedule2.simps in_order_Cons stamps_def in_order_def)
    next
      case (Cons e' es')
      with "5.IH"(2) [OF True Cons] es "5.prems"(2) le True
        schedule_stamps(2) [of e' es' oc ocs]
      show ?thesis
        by (simp add: schedule2.simps in_order_Cons)
    qed
  next
    case False
    then have "stamp_le ?o ?e"
      using stamp_le_total by (simp add: stamp_le_def)
    then have le: "\<forall>t \<in> stamps (e # es) ocs. stamp_le ?o t"
      using es(1) ocs(1) stamp_le_trans by (auto simp: stamps_def)
    show ?thesis
    proof (cases ocs)
      case Nil
      have "\<forall>t \<in> stamps es []. stamp_le ?e t"
        using es(1) by (auto simp: stamps_def)
      with "5.IH"(3) [OF False Nil] es(2) Nil le False schedule_stamps(1) [of es "[]"]
      show ?thesis
        by (auto simp: schedule2.simps in_order_Cons stamps_def in_order_def)
    next
      case (Cons oc' ocs')
      with "5.IH"(4) [OF False Cons] ocs "5.prems"(1) le False
        schedule_stamps(2) [of e es oc' ocs']
      show ?thesis
        by (simp add: schedule2.simps in_order_Cons)
    qed
  qed
qed

section \<open>The status message\<close>

text \<open>The numbers have at most four digits, so the message fits its buffer.\<close>

lemma status_fits:
  assumes "surv_wf sv" "batch \<le> SIZE_RING"
  shows "length (status_text batch sv) < 200"
proof -
  have q: "ring_inv (sv_openQueue sv)" "ring_inv (sv_commandQueue sv)"
    using assms(1) by (simp_all add: surv_wf_def)
  have show4: "length (show_int (int n)) \<le> 4" if "n \<le> SIZE_RING" for n
    using length_show_nat [of n 4] that by (simp add: show_int_def SIZE_RING_def)
  have size: "length (show_int (sint (g_ringBuffer_size r))) \<le> 4" if "ring_inv r"
    for r :: "'x g_ringBuffer"
    using show4 [of "unat (g_ringBuffer_size r)"] that by (simp add: ring_inv_def sint_small)
  show ?thesis
    using show4 [OF assms(2)] size [OF q(1)] size [OF q(2)] by (simp add: status_text_def)
qed

section \<open>The dispatch queue is emptied\<close>

text \<open>What storing a batch does to the database, call by call.\<close>

fun store_all :: "'d main_env \<Rightarrow> nat \<Rightarrow> nat \<Rightarrow> int \<Rightarrow> execCall list \<Rightarrow> 'd \<Rightarrow> 'd res" where
  "store_all env ctr i boot [] db = Inr db"
| "store_all env ctr i boot (e # es) db =
     bind_r (surv_database_dispatch (me_ops env) (me_dispatch env ctr i) boot db e) (\<lambda>(_, db).
       store_all env ctr (i + 1) boot es db)"

lemma dispatch_loop_spec:
  assumes "holds_list (sv_dispatchQueue (m_surv st)) es" "\<forall>e \<in> set es. calls_wf e"
    "store_all env (m_counter st) i (sv_boot_time (m_surv st)) es (m_db st) = Inr db"
  shows "\<exists>q. dispatch_loop env i (length es) c st
       = Inr (st\<lparr>m_surv := (m_surv st)\<lparr>sv_dispatchQueue := q\<rparr>, m_db := db\<rparr>) \<and> holds_list q []"
  using assms
proof (induction es arbitrary: i c st)
  case Nil
  then show ?case
    by (intro exI [of _ "sv_dispatchQueue (m_surv st)"]) simp
next
  case (Cons e es)
  obtain q where q: "holds_list q es"
    "\<forall>c. g_ringBuffer_read (sv_dispatchQueue (m_surv st)) c = Inr (0, q, Some e)"
    using holds_read [OF Cons.prems(1)] by blast
  obtain r db1 where d: "surv_database_dispatch (me_ops env) (me_dispatch env (m_counter st) i)
      (sv_boot_time (m_surv st)) (m_db st) e = Inr (r, db1)"
    "store_all env (m_counter st) (i + 1) (sv_boot_time (m_surv st)) es db1 = Inr db"
    using Cons.prems(3) by (auto simp: bind_r_Inr_iff)
  let ?st = "st\<lparr>m_surv := (m_surv st)\<lparr>sv_dispatchQueue := q\<rparr>, m_db := db1\<rparr>"
  obtain q' where q': "dispatch_loop env (i + 1) (length es) None ?st
      = Inr (?st\<lparr>m_surv := (m_surv ?st)\<lparr>sv_dispatchQueue := q'\<rparr>, m_db := db\<rparr>)" "holds_list q' []"
    using Cons.IH [of ?st "i + 1" None] q(1) Cons.prems(2) d(2) by auto
  have "calls_wf e" using Cons.prems(2) by simp
  with q q' d(1) show ?case
    by (auto simp: execCall_destroy_total)
qed

lemma call_ptrs:
  assumes "\<forall>p \<in> set ps. call_ptr p"
  shows "\<exists>es. ps = map Some es \<and> (\<forall>e \<in> set es. calls_wf e)"
  using assms
proof (induction ps)
  case Nil
  then show ?case by simp
next
  case (Cons p ps)
  then obtain e es where "p = Some e" "calls_wf e" "ps = map Some es" "\<forall>e \<in> set es. calls_wf e"
    by (auto simp: call_ptr_def)
  then show ?case
    by (intro exI [of _ "e # es"]) simp
qed

lemma main_dispatch_spec:
  assumes wf: "surv_wf (m_surv st)" and es: "ring_list (sv_dispatchQueue (m_surv st)) = map Some es"
    and db: "store_all env (m_counter st) 0 (sv_boot_time (m_surv st)) es (m_db st) = Inr db"
  shows "\<exists>st'. main_dispatch env st = Inr st' \<and> m_db st' = db \<and> surv_wf (m_surv st')
     \<and> ring_list (sv_dispatchQueue (m_surv st')) = [] \<and> sv_procs (m_surv st') = sv_procs (m_surv st)
     \<and> sv_commandQueue (m_surv st') = sv_commandQueue (m_surv st)
     \<and> sv_openQueue (m_surv st') = sv_openQueue (m_surv st)
     \<and> m_counter st' = m_counter st
     \<and> sv_status_msg (m_surv st') = status_text (length es) (m_surv st)"
proof -
  let ?q = "sv_dispatchQueue (m_surv st)"
  have q: "ring_inv ?q" "holds_list ?q es" "\<forall>e \<in> set es. calls_wf e"
    using wf es by (auto simp: surv_wf_def holds_list_def call_ptr_def)
  have n: "nat (sint (g_ringBuffer_size ?q)) = length es" "length es \<le> SIZE_RING"
    using q(1) gq.count [OF q(1)] gq.bounded [OF q(1)] es
    by (simp_all add: sint_small_size ring_inv_def)
  obtain q' where q': "dispatch_loop env 0 (length es) None st
      = Inr (st\<lparr>m_surv := (m_surv st)\<lparr>sv_dispatchQueue := q'\<rparr>, m_db := db\<rparr>)" "holds_list q' []"
    using dispatch_loop_spec [OF q(2,3) db] by blast
  let ?sv = "(m_surv st)\<lparr>sv_dispatchQueue := q'\<rparr>"
  have wf': "surv_wf ?sv"
    using wf q'(2) by (simp add: surv_wf_def holds_list_def)
  have "status_text (length es) ?sv = status_text (length es) (m_surv st)"
    by (simp add: status_text_def)
  then have "set_status (status_text (length es) ?sv) ?sv
      = Inr (?sv\<lparr>sv_status_msg := status_text (length es) (m_surv st)\<rparr>)"
    using status_fits [OF wf' n(2)] by (simp add: set_status_def)
  then show ?thesis
    using q' wf' n(1) by (simp add: main_dispatch_def Let_def surv_wf_def holds_list_def)
qed

section \<open>The last round\<close>

text \<open>
  At the last round the index is flushed and everything in the dispatch queue is stored: what
  was there, and all tracked processes, as far as the queue has room for them.
\<close>

lemma finish_last:
  assumes wf: "surv_wf (m_surv st)" and dead: "main_dead (m_surv st)"
    and es: "take SIZE_RING (ring_list (sv_dispatchQueue (m_surv st))
        @ filter tracked_ptr (procs (sv_procs (m_surv st)))) = map Some es"
    and db: "store_all env (m_counter st) 0 (sv_boot_time (m_surv st)) es (m_db st) = Inr db"
  shows "\<exists>st'. main_finish env st = Inr (True, st') \<and> m_db st' = db
     \<and> pi_lookup (sv_procs (m_surv st')) = (\<lambda>_. None)
     \<and> ring_list (sv_dispatchQueue (m_surv st')) = []"
proof -
  obtain sv where sv: "surv_flush_procindex (m_surv st) = Inr sv" "surv_wf sv"
    "pi_lookup (sv_procs sv) = (\<lambda>_. None)" "ring_list (sv_dispatchQueue sv) = map Some es"
    using flush_spec [OF wf] es by auto
  let ?st = "st\<lparr>m_surv := sv\<rparr>"
  obtain st' where st': "main_dispatch env ?st = Inr st'" "m_db st' = db"
    "ring_list (sv_dispatchQueue (m_surv st')) = []" "sv_procs (m_surv st') = sv_procs sv"
    using main_dispatch_spec [of ?st es env db] sv db flush_boot [OF sv(1)] by auto
  then show ?thesis
    using dead sv(1,3) by (simp add: main_finish_def)
qed

lemma last_round:
  assumes wf: "surv_wf (m_surv st)" and dead: "main_dead (m_surv st)"
    and es: "take SIZE_RING (ring_list (sv_dispatchQueue (m_surv st))
        @ filter tracked_ptr (procs (sv_procs (m_surv st)))) = map Some es"
    and db: "store_all env (m_counter st) 0 (sv_boot_time (m_surv st)) es (m_db st) = Inr db"
  shows "\<exists>st'. main_finish env st = Inr (True, st') \<and> m_db st' = db
     \<and> pi_lookup (sv_procs (m_surv st')) = (\<lambda>_. None)
     \<and> ring_list (sv_dispatchQueue (m_surv st')) = []"
  using finish_last [OF assms] .

section \<open>Properties\<close>

definition demo_later :: "int \<Rightarrow> timeval" where
  "demo_later s = \<lparr>tv_sec = s, tv_usec = 0\<rparr>"

definition demo_new :: execCall where
  "demo_new = (demo_call 1 0)\<lparr>ec_time_stamp := demo_later 5\<rparr>"

definition demo_touch :: openCall where
  "demo_touch = (demo_open 2)\<lparr>oc_time_stamp := demo_later 4\<rparr>"

definition ring_of :: "'a list \<Rightarrow> 'a g_ringBuffer" where
  "ring_of xs = \<lparr>g_read = 0, g_write = of_nat (length xs),
     g_buffer = map Some xs @ replicate (SIZE_RING - length xs) None\<rparr>"

definition demo_main_env :: "list_db main_env" where
  "demo_main_env = \<lparr>me_add = (\<lambda>_ _. roomy), me_gone = (\<lambda>_ _. False), me_ops = list_store,
     me_dispatch = (\<lambda>_ _. demo_dispatch)\<rparr>"

definition demo_main :: "execCall list \<Rightarrow> openCall list \<Rightarrow> list_db main_state" where
  "demo_main es ocs = \<lparr>m_surv = demo_surv\<lparr>sv_commandQueue := ring_of es, sv_openQueue := ring_of ocs\<rparr>,
     m_db = ([], []), m_tempEcall = None, m_tempOcall = None, m_compMode = False,
     m_ready_calls = False, m_counter = 1, m_done = 0\<rparr>"

lemma ring_of_one: "holds_list (ring_of [x]) [x]" "holds_list (ring_of []) []"
  by (simp_all add: ring_of_def holds_list_def ring_inv_def ring_list_def ring_items_def
      g_ringBuffer_size_def g_ringBuffer_mask_def SIZE_RING_def)

lemma demo_schedule: "schedule [demo_new] [demo_touch] = [AddOpen demo_touch, AddExec demo_new]"
  by (simp add: schedule2.simps demo_new_def demo_touch_def demo_later_def timercmp_def)

lemma demo_acts:
  "\<exists>sv. act_all demo_main_env 0 (schedule [demo_new] [demo_touch]) (m_surv (demo_main [demo_new] [demo_touch]))
     = Inr sv"
  unfolding demo_schedule
  by (simp add: demo_main_env_def demo_main_def demo_surv_def demo_index_def demo_touch_def
      demo_open_def demo_new_def demo_call_def demo_later_def openCall_zero_def execCall_zero_def
      procindex_opencall_add_def opencall_grow.simps opencall_target_def slot_def set_slot_def
      procindex_trackparents.simps surv_addExecCall_def procindex_add_def procindex_grow.simps
      ALREADY_EXISTS_IN_CONTAINER_def NOMINAL_def Let_def nth_Cons')

text \<open>
  C7: The rounds of the main loop merge the two queues by time. From queues with the calls es
  and ocs, each in order of time, at most one round more than there are calls empties both
  queues and leaves the index and the dispatch queue exactly as applying the calls of the
  schedule one by one does; the schedule has every call exactly once, keeps the order of each
  queue, and is in order of time.
\<close>

theorem main_merges_in_order:
  assumes "holds_list (sv_commandQueue (m_surv st)) es" "holds_list (sv_openQueue (m_surv st)) ocs"
    "\<not> m_compMode st" "\<not> m_ready_calls st"
    and "act_all env (m_done st) (schedule es ocs) (m_surv st) = Inr sv"
    and "sorted (map ec_time_stamp es)" "sorted (map oc_time_stamp ocs)"
  shows "(\<exists>n \<le> length es + length ocs + 1. \<exists>st'. merge_rounds env n st = Inr st'
        \<and> sv_procs (m_surv st') = sv_procs sv \<and> sv_dispatchQueue (m_surv st') = sv_dispatchQueue sv
        \<and> holds_list (sv_commandQueue (m_surv st')) [] \<and> holds_list (sv_openQueue (m_surv st')) []
        \<and> \<not> m_compMode st' \<and> \<not> m_ready_calls st')
     \<and> List.map_filter action_exec (schedule es ocs) = es
     \<and> List.map_filter action_open (schedule es ocs) = ocs
     \<and> sorted (map action_stamp (schedule es ocs))"
  using merge_follows_schedule [OF assms(1-5)] schedule_complete(1) [of es ocs]
    schedule_sorted(1) [of es ocs] assms(6,7) unfolding in_order_sorted by blast

theorem main_merges_in_order_witness:
  "\<exists>sv :: surveiller. (\<exists>n \<le> length [demo_new] + length [demo_touch] + 1. \<exists>st'.
        merge_rounds demo_main_env n (demo_main [demo_new] [demo_touch]) = Inr st'
        \<and> sv_procs (m_surv st') = sv_procs sv \<and> sv_dispatchQueue (m_surv st') = sv_dispatchQueue sv
        \<and> holds_list (sv_commandQueue (m_surv st')) [] \<and> holds_list (sv_openQueue (m_surv st')) []
        \<and> \<not> m_compMode st' \<and> \<not> m_ready_calls st')
     \<and> List.map_filter action_exec (schedule [demo_new] [demo_touch]) = [demo_new]
     \<and> List.map_filter action_open (schedule [demo_new] [demo_touch]) = [demo_touch]
     \<and> sorted (map action_stamp (schedule [demo_new] [demo_touch]))"
proof -
  obtain sv where "act_all demo_main_env 0 (schedule [demo_new] [demo_touch])
      (m_surv (demo_main [demo_new] [demo_touch])) = Inr sv"
    using demo_acts by blast
  then show ?thesis
    by (intro exI [of _ sv] main_merges_in_order)
       (simp_all add: demo_main_def ring_of_one)
qed

theorem status_message_fits:
  assumes "surv_wf sv" "batch \<le> SIZE_RING"
  shows "set_status (status_text batch sv) sv = Inr (sv\<lparr>sv_status_msg := status_text batch sv\<rparr>)"
  using status_fits [OF assms] by (simp add: set_status_def)

theorem status_message_fits_witness:
  "set_status (status_text 1024 demo_surv) demo_surv
     = Inr (demo_surv\<lparr>sv_status_msg := status_text 1024 demo_surv\<rparr>)"
  by (rule status_message_fits [OF demo_surv_wf]) (simp add: SIZE_RING_def)

theorem dispatch_empties_queue:
  assumes "surv_wf (m_surv st)" "ring_list (sv_dispatchQueue (m_surv st)) = map Some es"
    and "store_all env (m_counter st) 0 (sv_boot_time (m_surv st)) es (m_db st) = Inr db"
  shows "\<exists>st'. main_dispatch env st = Inr st' \<and> m_db st' = db \<and> surv_wf (m_surv st')
     \<and> ring_list (sv_dispatchQueue (m_surv st')) = [] \<and> sv_procs (m_surv st') = sv_procs (m_surv st)
     \<and> sv_status_msg (m_surv st') = status_text (length es) (m_surv st)"
  using main_dispatch_spec [OF assms] by blast

lemma demo_main_wf: "surv_wf (m_surv (demo_main [] []))"
  using demo_surv_wf ring_of_one(2) by (simp add: demo_main_def surv_wf_def holds_list_def)
     (simp add: ring_of_one(2) [unfolded holds_list_def])

theorem dispatch_empties_queue_witness:
  "\<exists>st'. main_dispatch demo_main_env (demo_main [] []) = Inr st' \<and> m_db st' = ([], [])
     \<and> surv_wf (m_surv st') \<and> ring_list (sv_dispatchQueue (m_surv st')) = []
     \<and> sv_procs (m_surv st') = sv_procs (m_surv (demo_main [] []))
     \<and> sv_status_msg (m_surv st') = status_text (length ([] :: execCall list)) (m_surv (demo_main [] []))"
  by (rule dispatch_empties_queue [OF demo_main_wf])
     (simp_all add: demo_main_def demo_surv_def ring_at_ok)

definition demo_tracked :: execCall where
  "demo_tracked = (demo_call 2 0)\<lparr>ec_tracked := 1\<rparr>"

definition demo_last :: "list_db main_state" where
  "demo_last = (demo_main [] [])\<lparr>m_surv := demo_surv\<lparr>sv_procs :=
     demo_index\<lparr>procs := [None, None, None, Some demo_tracked]\<rparr>\<rparr>\<rparr>"

lemma demo_last_ok: "surv_wf (m_surv demo_last)" "main_dead (m_surv demo_last)"
proof -
  have "calls_wf demo_tracked"
    using demo_call_wf [of 2 0] by (simp add: demo_tracked_def calls_wf_def)
  then have "pi_wf (demo_index\<lparr>procs := [None, None, None, Some demo_tracked]\<rparr>)"
    by (auto simp: demo_index_def pi_wf_def entry_wf_def demo_tracked_def demo_call_def
        execCall_zero_def nth_Cons' split: if_splits)
  then show "surv_wf (m_surv demo_last)"
    using demo_surv_wf by (simp add: demo_last_def surv_wf_def)
  show "main_dead (m_surv demo_last)"
    by (simp add: demo_last_def main_dead_def demo_surv_def ring_at_def g_ringBuffer_empty_def)
qed

lemma demo_last_stored:
  "store_all demo_main_env ctr 0 100 [demo_tracked] ([], [])
     = Inr ([(eCallKey_bytes (\<lambda>_. NUL) (db_execCall_genKey (dispatch_record 100 demo_tracked)),
              eCall_image (dispatch_record 100 demo_tracked))], [])"
proof -
  have "eCall_ok (dispatch_record 100 demo_tracked)"
    "can_alloc roomy (length (eCall_image (dispatch_record 100 demo_tracked)))"
    by (simp_all add: dispatch_record_def demo_tracked_def demo_call_def execCall_zero_def eCall_ok_def
        timeval_zero_def timeval_ok_def int64_ok_def int32_ok_def str_ok_def NUL_def eCall_image_def)
  note put = add_execCall_puts [OF this, of list_store "\<lambda>_. NUL" "([], [])"]
  have "ec_call_num demo_tracked = 0"
    by (simp add: demo_tracked_def demo_call_def execCall_zero_def)
  then show ?thesis
    using put by (simp add: demo_main_env_def demo_dispatch_def surv_database_dispatch_def Let_def)
qed

theorem last_round_witness:
  "\<exists>st'. main_finish demo_main_env demo_last = Inr (True, st')
     \<and> m_db st' = ([(eCallKey_bytes (\<lambda>_. NUL) (db_execCall_genKey (dispatch_record 100 demo_tracked)),
              eCall_image (dispatch_record 100 demo_tracked))], [])
     \<and> pi_lookup (sv_procs (m_surv st')) = (\<lambda>_. None)
     \<and> ring_list (sv_dispatchQueue (m_surv st')) = []"
proof (rule last_round [OF demo_last_ok])
  show "take SIZE_RING (ring_list (sv_dispatchQueue (m_surv demo_last))
      @ filter tracked_ptr (procs (sv_procs (m_surv demo_last)))) = map Some [demo_tracked]"
    by (simp add: demo_last_def demo_surv_def ring_at_ok tracked_ptr_def demo_tracked_def SIZE_RING_def)
  show "store_all demo_main_env (m_counter demo_last) 0 (sv_boot_time (m_surv demo_last))
      [demo_tracked] (m_db demo_last)
    = Inr ([(eCallKey_bytes (\<lambda>_. NUL) (db_execCall_genKey (dispatch_record 100 demo_tracked)),
              eCall_image (dispatch_record 100 demo_tracked))], [])"
    using demo_last_stored by (simp add: demo_last_def demo_main_def demo_surv_def)
qed

end
