(* ===== verification/Shutdown.thy ===== *)
theory Shutdown
  imports MainLoop
begin

text \<open>
  The end of the main loop, \<open>main\<close> in \<open>src/src/watchdog/src/watchdog.c\<close>, lines 1296-1415: once the
  daemon is shutting down and the parser threads have left their loops, the loop ends after at
  most as many rounds as there are calls in the two queues, and two more.
\<close>

section \<open>What a round leaves alone\<close>

text \<open>The part of the daemon that the other threads and the main loop share.\<close>

definition shared :: "surveiller \<Rightarrow> bool \<times> bool \<times> bool \<times> execCall g_ringBuffer \<times> openCall g_ringBuffer" where
  "shared sv = (sv_shutting_down sv, sv_processing_opencall_socket sv, sv_processing_execcall_socket sv,
     sv_commandQueue sv, sv_openQueue sv)"

definition keeps :: "'d main_state \<Rightarrow> 'd main_state \<Rightarrow> bool" where
  "keeps st st' \<longleftrightarrow> shared (m_surv st') = shared (m_surv st) \<and> m_compMode st' = m_compMode st
     \<and> m_ready_calls st' = m_ready_calls st \<and> m_counter st' = m_counter st
     \<and> m_tempEcall st' = m_tempEcall st \<and> m_tempOcall st' = m_tempOcall st"

lemma shared_simps [simp]:
  "shared (sv\<lparr>sv_procs := ix\<rparr>) = shared sv" "shared (sv\<lparr>sv_dispatchQueue := q\<rparr>) = shared sv"
  "shared (sv\<lparr>sv_status_msg := msg\<rparr>) = shared sv"
  by (simp_all add: shared_def)

named_theorems kept "operations that leave the shared part alone"

lemma addExecCall_shared [kept]: "surv_addExecCall mem sv e = Inr (r, sv') \<Longrightarrow> shared sv' = shared sv"
  by (auto simp: surv_addExecCall_def res_simps Let_def split: if_splits)

lemma vitals_loop_shared: "vitals_loop gone i n sv = Inr sv' \<Longrightarrow> shared sv' = shared sv"
proof (induction n arbitrary: i sv)
  case (Suc n)
  then show ?case
    by (auto simp: res_simps Let_def split: option.splits if_splits dest!: Suc.IH)
qed simp

lemma check_vitals_shared [kept]: "surv_check_proc_vitals gone sv = Inr sv' \<Longrightarrow> shared sv' = shared sv"
  unfolding surv_check_proc_vitals_def by (rule vitals_loop_shared)

lemma flush_loop_shared: "flush_loop i n sv = Inr sv' \<Longrightarrow> shared sv' = shared sv"
proof (induction n arbitrary: i sv)
  case (Suc n)
  then show ?case
    by (auto simp: res_simps Let_def split: option.splits if_splits dest!: Suc.IH)
qed simp

lemma flush_shared [kept]: "surv_flush_procindex sv = Inr sv' \<Longrightarrow> shared sv' = shared sv"
  unfolding surv_flush_procindex_def by (auto split: if_splits dest: flush_loop_shared)

lemma main_addExec_keeps [kept]: "main_addExec env st = Inr st' \<Longrightarrow> keeps st st'"
  by (auto simp: main_addExec_def res_simps keeps_def dest: addExecCall_shared)

lemma main_putExec_keeps [kept]: "main_putExec env st = Inr st' \<Longrightarrow> keeps st st'"
  by (auto simp: main_putExec_def res_simps keeps_def)

lemma main_addOpen_keeps [kept]: "main_addOpen env st = Inr st' \<Longrightarrow> keeps st st'"
  by (auto simp: main_addOpen_def res_simps keeps_def)

lemma dispatch_loop_keeps: "dispatch_loop env i n call st = Inr st' \<Longrightarrow> keeps st st'"
proof (induction n arbitrary: i call st)
  case (Suc n)
  then obtain r q e db where "dispatch_loop env (i + 1) n None
      (st\<lparr>m_surv := (m_surv st)\<lparr>sv_dispatchQueue := q\<rparr>, m_db := db\<rparr>) = Inr st'"
    by (auto simp: res_simps Let_def)
  from Suc.IH [OF this] show ?case
    by (simp add: keeps_def)
qed (simp add: keeps_def)

lemma main_dispatch_keeps [kept]: "main_dispatch env st = Inr st' \<Longrightarrow> keeps st st'"
  by (auto simp: main_dispatch_def res_simps set_status_def keeps_def Let_def
      split: if_splits dest!: dispatch_loop_keeps)

section \<open>Rounds make progress\<close>

text \<open>The flags that decide about the end of the loop, and the number of rounds.\<close>

definition flags :: "'d main_state \<Rightarrow> bool \<times> bool \<times> bool \<times> nat" where
  "flags st = (sv_shutting_down (m_surv st), sv_processing_opencall_socket (m_surv st),
     sv_processing_execcall_socket (m_surv st), m_counter st)"

definition queued :: "bool \<times> bool \<times> bool \<times> nat \<Rightarrow> 'd main_state \<Rightarrow> execCall list \<Rightarrow> openCall list \<Rightarrow> bool" where
  "queued fl st es ocs \<longleftrightarrow> flags st = fl \<and> holds_list (sv_commandQueue (m_surv st)) es
     \<and> holds_list (sv_openQueue (m_surv st)) ocs \<and> m_ready_calls st = m_compMode st"

definition waiting :: "bool \<Rightarrow> execCall list \<Rightarrow> openCall list \<Rightarrow> nat" where
  "waiting mode es ocs = length es + length ocs + (if mode then 1 else 0)"

lemma flags_simps [simp]:
  "flags (st\<lparr>m_ready_calls := x\<rparr>) = flags st" "flags (st\<lparr>m_compMode := x\<rparr>) = flags st"
  by (simp_all add: flags_def)

lemma queued_keeps: "keeps st st' \<Longrightarrow> queued fl st es ocs \<Longrightarrow> queued fl st' es ocs"
  by (simp add: keeps_def queued_def shared_def flags_def)

lemma readExec_queued:
  assumes "main_readExec st = Inr st'" "queued fl st es ocs" "g_ringBuffer_size (sv_commandQueue (m_surv st)) \<noteq> 0"
  shows "\<exists>e es'. es = e # es' \<and> queued fl st' es' ocs \<and> m_compMode st' = m_compMode st"
proof -
  have h: "holds_list (sv_commandQueue (m_surv st)) es"
    using assms(2) by (simp add: queued_def)
  obtain e es' where es: "es = e # es'"
    using holds_size [OF h] assms(3) by (cases es) auto
  obtain q where "holds_list q es'" "\<forall>c. g_ringBuffer_read (sv_commandQueue (m_surv st)) c = Inr (0, q, Some e)"
    using holds_read [OF h [unfolded es]] by blast
  with assms(1,2) es show ?thesis
    by (auto simp: main_readExec_def queued_def flags_def)
qed

lemma readOpen_queued:
  assumes "main_readOpen st = Inr st'" "queued fl st es ocs" "g_ringBuffer_size (sv_openQueue (m_surv st)) \<noteq> 0"
  shows "\<exists>oc ocs'. ocs = oc # ocs' \<and> queued fl st' es ocs' \<and> m_compMode st' = m_compMode st"
proof -
  have h: "holds_list (sv_openQueue (m_surv st)) ocs"
    using assms(2) by (simp add: queued_def)
  obtain oc ocs' where ocs: "ocs = oc # ocs'"
    using holds_size [OF h] assms(3) by (cases ocs) auto
  obtain q where "holds_list q ocs'" "\<forall>c. g_ringBuffer_read (sv_openQueue (m_surv st)) c = Inr (0, q, Some oc)"
    using holds_read [OF h [unfolded ocs]] by blast
  with assms(1,2) ocs show ?thesis
    by (auto simp: main_readOpen_def queued_def flags_def)
qed

text \<open>The two halves of a comparison: the older call is entered, and the next one read or the other one entered.\<close>

definition older_exec :: "'d main_state \<Rightarrow> bool" where
  "older_exec st \<longleftrightarrow> (\<forall>e oc. m_tempEcall st = Some e \<longrightarrow> m_tempOcall st = Some oc
     \<longrightarrow> timercmp (ec_time_stamp e) (oc_time_stamp oc) (\<le>))"

lemma compare_parts:
  assumes "main_compare env st = Inr st'"
  obtains st1 where "(if older_exec st then main_addExec env st else main_addOpen env st) = Inr st1"
    "(if older_exec st \<and> g_ringBuffer_size (sv_commandQueue (m_surv st1)) \<noteq> 0
         \<or> \<not> older_exec st \<and> g_ringBuffer_size (sv_openQueue (m_surv st1)) \<noteq> 0
      then (if older_exec st then main_readExec st1 else main_readOpen st1)
      else bind_r (if \<not> older_exec st then main_addExec env st1 else main_addOpen env st1) (\<lambda>st.
        Inr (st\<lparr>m_ready_calls := False, m_compMode := False\<rparr>))) = Inr st'"
proof -
  obtain e oc where t: "m_tempEcall st = Some e" "m_tempOcall st = Some oc"
    using assms by (auto simp: main_compare_def res_simps)
  then have o: "older_exec st \<longleftrightarrow> timercmp (ec_time_stamp e) (oc_time_stamp oc) (\<le>)"
    by (simp add: older_exec_def)
  from assms t show ?thesis
    by (cases "timercmp (ec_time_stamp e) (oc_time_stamp oc) (\<le>)")
       (auto simp: main_compare_def Let_def bind_r_Inr_iff o intro: that cong: if_cong)
qed

lemma compare_progress:
  assumes "main_compare env st = Inr st'" "queued fl st es ocs" "m_compMode st"
  shows "\<exists>es' ocs'. queued fl st' es' ocs' \<and> waiting (m_compMode st') es' ocs' < waiting True es ocs"
proof -
  let ?more = "\<lambda>st1. older_exec st \<and> g_ringBuffer_size (sv_commandQueue (m_surv st1)) \<noteq> 0
    \<or> \<not> older_exec st \<and> g_ringBuffer_size (sv_openQueue (m_surv st1)) \<noteq> 0"
  obtain st1 where st1: "(if older_exec st then main_addExec env st else main_addOpen env st) = Inr st1"
    "(if ?more st1 then (if older_exec st then main_readExec st1 else main_readOpen st1)
      else bind_r (if \<not> older_exec st then main_addExec env st1 else main_addOpen env st1) (\<lambda>st.
        Inr (st\<lparr>m_ready_calls := False, m_compMode := False\<rparr>))) = Inr st'"
    using compare_parts [OF assms(1)] .
  have k: "keeps st st1"
    using st1(1) kept by (auto split: if_splits)
  then have q: "queued fl st1 es ocs" "m_compMode st1"
    using queued_keeps [OF k assms(2)] assms(3) by (simp_all add: keeps_def)
  show ?thesis
  proof (cases "?more st1")
    case True
    then have "older_exec st \<Longrightarrow> \<exists>e es'. es = e # es' \<and> queued fl st' es' ocs \<and> m_compMode st'"
      "\<not> older_exec st \<Longrightarrow> \<exists>oc ocs'. ocs = oc # ocs' \<and> queued fl st' es ocs' \<and> m_compMode st'"
      using st1(2) readExec_queued [OF _ q(1)] readOpen_queued [OF _ q(1)] q(2) by auto
    then show ?thesis
      by (cases "older_exec st") (fastforce simp: waiting_def)+
  next
    case False
    then obtain st2 where st2: "keeps st1 st2" "st' = st2\<lparr>m_ready_calls := False, m_compMode := False\<rparr>"
      using st1(2) by (auto simp: bind_r_Inr_iff split: if_splits dest: kept)
    have "queued fl st' es ocs"
      using queued_keeps [OF st2(1) q(1)] st2(2) by (simp add: queued_def)
    then show ?thesis
      using st2(2) by (intro exI [of _ es] exI [of _ ocs]) (simp add: waiting_def)
  qed
qed

lemma collect_progress:
  assumes "main_collect env st = Inr (cont, st')" "queued fl st es ocs" "\<not> m_compMode st"
  shows "\<exists>es' ocs'. queued fl st' es' ocs' \<and> (waiting (m_compMode st') es' ocs' < waiting False es ocs
     \<or> \<not> cont \<and> es' = [] \<and> ocs' = [] \<and> \<not> m_compMode st') \<and> (cont \<longrightarrow> m_compMode st')"
proof -
  have ready: "\<not> m_ready_calls st"
    and c: "holds_list (sv_commandQueue (m_surv st)) es" and oq: "holds_list (sv_openQueue (m_surv st)) ocs"
    using assms(2,3) by (simp_all add: queued_def)
  note size = holds_size [OF c] holds_size [OF oq]
  show ?thesis
  proof (cases "es = []")
    case True
    show ?thesis
    proof (cases "ocs = []")
      case True
      with \<open>es = []\<close> assms ready size show ?thesis
        by (auto simp: main_collect_def Let_def)
    next
      case False
      then obtain st1 st2 where s: "main_readOpen st = Inr st1" "main_addOpen env st1 = Inr st2"
        "\<not> cont" "st' = st2\<lparr>m_ready_calls := False\<rparr>"
        using \<open>es = []\<close> assms(1) ready size by (auto simp: main_collect_def Let_def bind_r_Inr_iff)
      obtain oc ocs' where r: "ocs = oc # ocs'" "queued fl st1 es ocs'" "\<not> m_compMode st1"
        using readOpen_queued [OF s(1) assms(2)] False size(2) assms(3) by auto
      have k: "keeps st1 st2" using s(2) by (rule kept)
      then have "queued fl st2 es ocs'" "\<not> m_compMode st2"
        using queued_keeps [OF k r(2)] r(3) by (simp_all add: keeps_def)
      then show ?thesis
        using s(3,4) r(1) by (intro exI [of _ es] exI [of _ ocs']) (simp add: queued_def waiting_def)
    qed
  next
    case False
    let ?s = "st\<lparr>m_ready_calls := True\<rparr>"
    have e: "main_readExec ?s = bind_r (main_readExec st) (\<lambda>st. Inr (st\<lparr>m_ready_calls := True\<rparr>))"
      by (cases st) (simp add: main_readExec_def bind_r_assoc split_def)
    show ?thesis
    proof (cases "ocs = []")
      case True
      then obtain st1 st2 where s: "main_readExec st = Inr st1"
        "main_putExec env (st1\<lparr>m_ready_calls := True\<rparr>) = Inr st2" "\<not> cont" "st' = st2\<lparr>m_ready_calls := False\<rparr>"
        using False assms(1) size by (auto simp: main_collect_def Let_def bind_r_Inr_iff e)
      obtain x es' where r: "es = x # es'" "queued fl st1 es' ocs" "\<not> m_compMode st1"
        using readExec_queued [OF s(1) assms(2)] False size(1) assms(3) by auto
      have "keeps (st1\<lparr>m_ready_calls := True\<rparr>) st2" using s(2) by (rule kept)
      then have "queued fl st' es' ocs" "\<not> m_compMode st'"
        using s(4) r(2,3) by (auto simp: keeps_def queued_def shared_def flags_def)
      then show ?thesis
        using r(1) s(3) by (intro exI [of _ es'] exI [of _ ocs]) (simp add: waiting_def)
    next
      case open_calls: False
      have o: "main_readOpen (st\<lparr>m_ready_calls := True\<rparr>)
          = bind_r (main_readOpen st) (\<lambda>st. Inr (st\<lparr>m_ready_calls := True\<rparr>))" for st :: "'a main_state"
        by (cases st) (simp add: main_readOpen_def bind_r_assoc split_def)
      obtain st1 st2 where s: "main_readExec st = Inr st1" "main_readOpen st1 = Inr st2"
        "st' = st2\<lparr>m_ready_calls := True, m_compMode := True\<rparr>"
        using False open_calls assms(1) size by (auto simp: main_collect_def Let_def bind_r_Inr_iff e o)
      obtain x es' where r: "es = x # es'" "queued fl st1 es' ocs"
        using readExec_queued [OF s(1) assms(2)] False size(1) by auto
      moreover have "g_ringBuffer_size (sv_openQueue (m_surv st1)) \<noteq> 0"
        using r(2) open_calls holds_size by (auto simp: queued_def)
      ultimately obtain oc ocs' where "ocs = oc # ocs'" "queued fl st2 es' ocs'"
        using readOpen_queued [OF s(2) r(2)] by auto
      then show ?thesis
        using r(1) s(3) by (intro exI [of _ es'] exI [of _ ocs']) (simp add: queued_def waiting_def)
    qed
  qed
qed

lemma merge_progress:
  assumes "main_merge env st = Inr (cont, st')" "queued fl st es ocs"
  shows "\<exists>es' ocs'. queued fl st' es' ocs'
     \<and> (waiting (m_compMode st') es' ocs' < waiting (m_compMode st) es ocs
          \<or> \<not> cont \<and> es' = [] \<and> ocs' = [] \<and> \<not> m_compMode st')
     \<and> (cont \<longrightarrow> m_compMode st' \<and> \<not> m_compMode st)"
proof (cases "m_compMode st")
  case True
  then have "main_compare env st = Inr st'" "\<not> cont"
    using assms(1) by (auto simp: main_merge_def bind_r_Inr_iff)
  with compare_progress [OF this(1) assms(2) True] True show ?thesis
    by auto
next
  case False
  then show ?thesis
    using assms collect_progress [OF _ assms(2) False] by (simp add: main_merge_def)
qed

lemma queued_dead:
  assumes "queued (d, a, b, n) st es ocs"
  shows "main_dead (m_surv st) \<longleftrightarrow> d \<and> \<not> a \<and> \<not> b \<and> es = [] \<and> ocs = []"
  using holds_size [of "sv_commandQueue (m_surv st)" es] holds_size [of "sv_openQueue (m_surv st)" ocs] assms
  by (auto simp: queued_def main_dead_def flags_def g_ringBuffer_size_def g_ringBuffer_empty_def)

lemma finish_keeps:
  assumes "main_finish env st = Inr (dead, st')"
  shows "dead = main_dead (m_surv st) \<and> m_counter st' = m_counter st + 1
     \<and> keeps st (st'\<lparr>m_counter := m_counter st\<rparr>)"
  using assms unfolding main_finish_def Let_def
  by (auto simp: bind_r_Inr_iff keeps_def split: if_splits dest!: main_dispatch_keeps flush_shared)

lemma finish_queued:
  assumes "main_finish env st = Inr (dead, st')" "queued (d, a, b, n) st es ocs"
  shows "(dead \<longleftrightarrow> d \<and> \<not> a \<and> \<not> b \<and> es = [] \<and> ocs = []) \<and> queued (d, a, b, n + 1) st' es ocs
    \<and> m_compMode st' = m_compMode st"
proof -
  have "dead = main_dead (m_surv st)" "m_counter st' = m_counter st + 1" "keeps st (st'\<lparr>m_counter := m_counter st\<rparr>)"
    using finish_keeps [OF assms(1)] by blast+
  then show ?thesis
    using queued_dead [OF assms(2)] assms(2) by (auto simp: keeps_def queued_def shared_def flags_def)
qed

text \<open>The parts of a round.\<close>

definition begun :: "'d main_state \<Rightarrow> 'd main_state" where
  "begun st = (if m_counter st \<ge> 424242 then st\<lparr>m_surv := (m_surv st)\<lparr>sv_shutting_down := True\<rparr>\<rparr> else st)"

lemma round_parts:
  assumes "main_round env st = Inr (dead, st')"
  obtains st1 cont st2 where "keeps (begun st) st1" "main_merge env st1 = Inr (cont, st2)"
    "(if cont then Inr (False, st2) else main_finish env st2) = Inr (dead, st')"
proof -
  obtain st1 cont st2 where st1: "(if m_counter (begun st) mod 1024 = 0
      then bind_r (surv_check_proc_vitals (me_gone env (m_counter (begun st))) (m_surv (begun st))) (\<lambda>sv.
        Inr ((begun st)\<lparr>m_surv := sv\<rparr>)) else Inr (begun st)) = Inr st1"
    and st2: "main_merge env st1 = Inr (cont, st2)"
    "(if cont then Inr (False, st2) else main_finish env st2) = Inr (dead, st')"
    using assms unfolding main_round_def Let_def begun_def [symmetric] by (auto simp: bind_r_Inr_iff)
  moreover have "keeps (begun st) st1"
    using st1 by (auto simp: keeps_def bind_r_Inr_iff split: if_splits dest: check_vitals_shared)
  ultimately show ?thesis using that by blast
qed

text \<open>One round, on the flags, the number of rounds and the calls in the queues.\<close>

lemma round_queued:
  assumes "main_round env st = Inr (dead, st')" "queued (d, a, b, n) st es ocs"
  defines "d' \<equiv> d \<or> 424242 \<le> n"
  shows "\<exists>cont es' ocs'. queued (d', a, b, if cont then n else n + 1) st' es' ocs'
     \<and> (waiting (m_compMode st') es' ocs' < waiting (m_compMode st) es ocs
          \<or> \<not> cont \<and> es' = [] \<and> ocs' = [] \<and> \<not> m_compMode st')
     \<and> (cont \<longrightarrow> m_compMode st' \<and> \<not> m_compMode st)
     \<and> (dead \<longleftrightarrow> \<not> cont \<and> d' \<and> \<not> a \<and> \<not> b \<and> es' = [] \<and> ocs' = [])"
proof -
  obtain st1 cont st2 where k: "keeps (begun st) st1" and st2: "main_merge env st1 = Inr (cont, st2)"
    "(if cont then Inr (False, st2) else main_finish env st2) = Inr (dead, st')"
    using round_parts [OF assms(1)] .
  have "queued (d', a, b, n) (begun st) es ocs" "m_compMode (begun st) = m_compMode st"
    using assms(2) by (auto simp: begun_def queued_def flags_def d'_def)
  then have q: "queued (d', a, b, n) st1 es ocs" "m_compMode st1 = m_compMode st"
    using queued_keeps [OF k] k by (simp_all add: keeps_def)
  from merge_progress [OF st2(1) q(1)] obtain es' ocs' where m: "queued (d', a, b, n) st2 es' ocs'"
    "waiting (m_compMode st2) es' ocs' < waiting (m_compMode st) es ocs
       \<or> \<not> cont \<and> es' = [] \<and> ocs' = [] \<and> \<not> m_compMode st2"
    "cont \<longrightarrow> m_compMode st2 \<and> \<not> m_compMode st"
    unfolding q(2) by blast
  show ?thesis
  proof (cases cont)
    case True
    with m st2(2) show ?thesis
      by (intro exI [of _ True] exI [of _ es'] exI [of _ ocs']) auto
  next
    case False
    then have f: "main_finish env st2 = Inr (dead, st')" using st2(2) by simp
    show ?thesis
      using finish_queued [OF f m(1)] m(2) False
      by (intro exI [of _ False] exI [of _ es'] exI [of _ ocs']) auto
  qed
qed

lemma round_progress:
  assumes "main_round env st = Inr (False, st')" "queued (True, False, False, n) st es ocs"
  shows "\<exists>n es' ocs'. queued (True, False, False, n) st' es' ocs'
     \<and> waiting (m_compMode st') es' ocs' < waiting (m_compMode st) es ocs"
  using round_queued [OF assms] by auto

section \<open>Properties\<close>




definition demo_lost :: "list_db main_state" where
  "demo_lost = (demo_main [demo_new] [])\<lparr>m_compMode := True, m_ready_calls := True,
     m_tempEcall := Some (demo_call 1 0), m_tempOcall := Some demo_touch\<rparr>"

lemma demo_lost_merge: "\<exists>st. main_merge demo_main_env demo_lost = Inr (False, st)
   \<and> sv_procs (m_surv st) = demo_index\<lparr>procs := [None, None, Some (demo_call 1 0), Some (demo_call 2 0)]\<rparr>
   \<and> sv_dispatchQueue (m_surv st) = ring_at (-1) \<and> main_dead (m_surv st)
   \<and> ring_inv (sv_commandQueue (m_surv st)) \<and> ring_inv (sv_openQueue (m_surv st))"
  by (simp add: main_merge_def main_compare_def main_addExec_def main_readExec_def g_ringBuffer_read_def
      g_ringBuffer_size_def g_ringBuffer_mask_def g_ringBuffer_empty_def ring_of_def SIZE_RING_def main_dead_def ring_inv_def
      demo_lost_def demo_main_env_def demo_main_def demo_surv_def demo_index_def demo_touch_def demo_open_def
      demo_new_def demo_call_def demo_later_def openCall_zero_def execCall_zero_def timeval_zero_def timercmp_def
      slot_def set_slot_def surv_addExecCall_def procindex_add_def procindex_grow.simps
      ALREADY_EXISTS_IN_CONTAINER_def NOMINAL_def Let_def nth_Cons')

lemma demo_lost_runs: "\<exists>dead st'. main_round demo_main_env demo_lost = Inr (dead, st')"
proof -
  let ?ix = "demo_index\<lparr>procs := [None, None, Some (demo_call 1 0), Some (demo_call 2 0)]\<rparr>"
  obtain st where st: "main_merge demo_main_env demo_lost = Inr (False, st)" "sv_procs (m_surv st) = ?ix"
    "sv_dispatchQueue (m_surv st) = ring_at (-1)" "main_dead (m_surv st)"
    "ring_inv (sv_commandQueue (m_surv st))" "ring_inv (sv_openQueue (m_surv st))"
    using demo_lost_merge by blast
  have "pi_wf ?ix"
    using demo_call_wf [of 1 0] demo_call_wf [of 2 0]
    by (auto simp: demo_index_def pi_wf_def entry_wf_def demo_call_def execCall_zero_def nth_Cons' split: if_splits)
  then have wf: "surv_wf (m_surv st)"
    using st by (simp add: surv_wf_def ring_at_ok)
  have "take SIZE_RING (ring_list (sv_dispatchQueue (m_surv st)) @ filter tracked_ptr (procs (sv_procs (m_surv st))))
      = map Some []"
    by (simp add: st ring_at_ok tracked_ptr_def demo_call_def execCall_zero_def)
  from finish_last [OF wf st(4) this, of demo_main_env "m_db st"]
  obtain st' where "main_finish demo_main_env st = Inr (True, st')" by auto
  with st(1) show ?thesis
    by (auto simp: main_round_def demo_lost_def demo_main_def)
qed


end
