(* ===== verification/Flow.thy ===== *)
theory Flow
  imports Shutdown
begin

text \<open>
  Where the open calls are. From the queue of the parser thread an open call moves to the record of
  its process in the index, with that record to the dispatch queue, and from there to the database:
  \<open>main\<close> with \<open>surv_addExecCall\<close>, \<open>procindex_opencall_add\<close>, \<open>surv_check_proc_vitals\<close>,
  \<open>surv_flush_procindex\<close> and \<open>surv_database_dispatch\<close>, all in \<open>src/src/watchdog/src/watchdog.c\<close>.

  The multiset of the open calls in all these places is kept by every round of the main loop, as long
  as memory is granted and the dispatch queue has room for the records in the index. So every open call
  that arrived is, at any time, in memory or was handed to the database, once.
\<close>

section \<open>Open calls in tables\<close>

text \<open>The open calls of the records in a table, and the number of the records.\<close>

definition calls_in :: "execCall option list \<Rightarrow> openCall multiset" where
  "calls_in ps = mset (concat (map calls_opt ps))"

definition occupied :: "execCall option list \<Rightarrow> nat" where
  "occupied ps = length (filter (\<lambda>p. p \<noteq> None) ps)"

lemma calls_opt_simps [simp]: "calls_opt None = []" "calls_opt (Some e) = calls_of e"
  by (simp_all add: calls_opt_def)

lemma calls_in_simps [simp]:
  "calls_in [] = {#}" "calls_in (p # ps) = mset (calls_opt p) + calls_in ps"
  "calls_in (ps @ qs) = calls_in ps + calls_in qs" "calls_in (replicate n None) = {#}"
  by (simp_all add: calls_in_def)

lemma occupied_simps [simp]:
  "occupied [] = 0" "occupied (p # ps) = (if p = None then 0 else 1) + occupied ps"
  "occupied (ps @ qs) = occupied ps + occupied qs" "occupied (replicate n None) = 0"
  by (simp_all add: occupied_def)

lemma calls_in_update:
  "i < length ps \<Longrightarrow> calls_in (ps[i := p]) + mset (calls_opt (ps ! i)) = calls_in ps + mset (calls_opt p)"
proof (induction ps arbitrary: i)
  case (Cons q ps)
  then show ?case by (cases i) (simp_all add: ac_simps)
qed simp

lemma occupied_update:
  "i < length ps \<Longrightarrow> occupied (ps[i := p]) + (if ps ! i = None then 0 else 1)
     = occupied ps + (if p = None then 0 else 1)"
proof (induction ps arbitrary: i)
  case (Cons q ps)
  then show ?case by (cases i) (simp_all add: ac_simps)
qed simp

text \<open>A table is split by a filter, whose other part has no calls.\<close>

lemma calls_in_filter:
  "(\<And>p. p \<in> set ps \<Longrightarrow> \<not> P p \<Longrightarrow> calls_opt p = []) \<Longrightarrow> calls_in (filter P ps) = calls_in ps"
  by (induction ps) auto

section \<open>Sound records\<close>

text \<open>
  A record without a mark has no open calls, the calls of a record are those of its process, and its
  buffer is not much larger than they need. Strings are shorter than 2 ^ 60 bytes and time stamps below
  2 ^ 62 seconds, so that the boot time can be added.
\<close>

definition short :: "string option \<Rightarrow> bool" where
  "short s \<longleftrightarrow> str_ok s \<and> length (the s) < 2 ^ 60"

definition recent :: "timeval \<Rightarrow> bool" where
  "recent tv \<longleftrightarrow> timeval_ok tv \<and> - (2 ^ 62) \<le> tv_sec tv \<and> tv_sec tv < 2 ^ 62"

definition tidy_exec :: "execCall \<Rightarrow> bool" where
  "tidy_exec e \<longleftrightarrow> recent (ec_time_stamp e) \<and> int32_ok (ec_pid e) \<and> int32_ok (ec_ppid e)
     \<and> short (ec_cmdName e) \<and> short (ec_args e)"

lemma tidy_exec_simps [simp]:
  "tidy_exec (e\<lparr>ec_callBuff := buf\<rparr>) = tidy_exec e" "tidy_exec (e\<lparr>ec_callBuff_size := m\<rparr>) = tidy_exec e"
  "tidy_exec (e\<lparr>ec_call_num := n\<rparr>) = tidy_exec e" "tidy_exec (e\<lparr>ec_tracked := t\<rparr>) = tidy_exec e"
  "tidy_exec (e\<lparr>ec_deadness := d\<rparr>) = tidy_exec e" "tidy_exec e \<Longrightarrow> tidy_exec (e\<lparr>ec_ppid := 0\<rparr>)"
  by (simp_all add: tidy_exec_def int32_ok_def)

definition tidy_open :: "openCall \<Rightarrow> bool" where
  "tidy_open oc \<longleftrightarrow> recent (oc_time_stamp oc) \<and> int32_ok (oc_pid oc) \<and> int32_ok (oc_flag oc)
     \<and> short (oc_cmdName oc) \<and> short (oc_filepath oc)"

definition record_ok :: "execCall \<Rightarrow> bool" where
  "record_ok e \<longleftrightarrow> (ec_tracked e = 0 \<longrightarrow> calls_of e = [])
     \<and> (\<forall>oc \<in> set (calls_of e). oc_pid oc = ec_pid e \<and> tidy_open oc)
     \<and> tidy_exec e \<and> 0 < ec_pid e \<and> ec_callBuff_size e \<le> 8 + 2 * length (calls_of e)"

definition records_ok :: "execCall option list \<Rightarrow> bool" where
  "records_ok ps \<longleftrightarrow> (\<forall>e. Some e \<in> set ps \<longrightarrow> record_ok e)"

lemma records_ok_simps [simp]:
  "records_ok []" "records_ok (p # ps) \<longleftrightarrow> (\<forall>e. p = Some e \<longrightarrow> record_ok e) \<and> records_ok ps"
  "records_ok (ps @ qs) \<longleftrightarrow> records_ok ps \<and> records_ok qs" "records_ok (replicate n None)"
  by (auto simp: records_ok_def)

lemma records_ok_update: "records_ok ps \<Longrightarrow> (\<And>e. p = Some e \<Longrightarrow> record_ok e) \<Longrightarrow> records_ok (ps[i := p])"
  using set_update_subset_insert [of ps i p] by (auto simp: records_ok_def)

text \<open>What the parser threads queue: a process without open calls, an open call with its names.\<close>

definition fresh_exec :: "execCall \<Rightarrow> bool" where
  "fresh_exec e \<longleftrightarrow> tidy_exec e \<and> calls_wf e \<and> calls_of e = [] \<and> 0 < ec_pid e \<and> ec_callBuff_size e \<le> 8"

definition fresh_open :: "int \<Rightarrow> openCall \<Rightarrow> bool" where
  "fresh_open maxpid oc \<longleftrightarrow> tidy_open oc \<and> 0 < oc_pid oc \<and> oc_pid oc \<le> maxpid"

lemma fresh_record: "fresh_exec e \<Longrightarrow> record_ok (stored e) \<and> calls_of (stored e) = []"
proof -
  have "calls_of (stored e) = calls_of e"
    by (simp add: stored_def calls_of_def)
  then show "fresh_exec e \<Longrightarrow> ?thesis"
    by (simp add: fresh_exec_def record_ok_def) (simp add: stored_def)
qed

section \<open>The index\<close>

definition index_ok :: "procindex \<Rightarrow> bool" where
  "index_ok ix \<longleftrightarrow> pi_wf ix \<and> records_ok (procs ix) \<and> maxPid ix < 2 ^ 30"

definition plenty :: "(nat \<Rightarrow> alloc_env) \<Rightarrow> bool" where
  "plenty mem \<longleftrightarrow> (\<forall>i n. grants (mem i) n)"

lemma plenty_alloc [simp]: "plenty mem \<Longrightarrow> can_alloc (mem i) n \<longleftrightarrow> n < 2 ^ 63"
  by (simp add: plenty_def can_alloc_def)

lemma index_ok_lookup: "index_ok ix \<Longrightarrow> pi_lookup ix pid = Some e \<Longrightarrow> record_ok e"
  by (auto simp: index_ok_def records_ok_def pi_lookup_def pi_wf_def split: if_splits)
     (metis nat_less_iff nth_mem add_nonneg_nonneg zero_le_one)

lemma index_ok_no0: "index_ok ix \<Longrightarrow> pi_lookup ix 0 = None"
  using pi_lookup_wf(1) [of ix 0] index_ok_lookup [of ix 0]
  by (cases "pi_lookup ix 0") (auto simp: index_ok_def record_ok_def)

text \<open>Putting a record into a slot.\<close>

lemma slot_bound: "pi_wf ix \<Longrightarrow> has_slot ix pid \<Longrightarrow> nat (pid + 1) < length (procs ix)"
  by (auto simp: pi_wf_def has_slot_def)

lemma lookup_slot: "has_slot ix pid \<Longrightarrow> procs ix ! nat (pid + 1) = pi_lookup ix pid"
  by (simp add: has_slot_def pi_lookup_def)

lemma pi_set_flow:
  assumes "index_ok ix" "has_slot ix pid"
    "\<And>e. p = Some e \<Longrightarrow> record_ok e \<and> ec_pid e = pid \<and> calls_wf e \<and> ec_ppid e = 0"
  shows "index_ok (pi_set ix pid p)"
    "calls_in (procs (pi_set ix pid p)) + mset (calls_opt (pi_lookup ix pid))
       = calls_in (procs ix) + mset (calls_opt p)"
    "occupied (procs (pi_set ix pid p)) + (if pi_lookup ix pid = None then 0 else 1)
       = occupied (procs ix) + (if p = None then 0 else 1)"
proof -
  have ix: "pi_wf ix" "records_ok (procs ix)" "maxPid ix < 2 ^ 30"
    using assms(1) by (simp_all add: index_ok_def)
  note b = slot_bound [OF ix(1) assms(2)]
  have "pi_wf (pi_set ix pid p)"
    using assms(3) by (intro pi_wf_set ix(1) assms(2)) blast
  then show "index_ok (pi_set ix pid p)"
    using ix assms(3) by (simp add: index_ok_def records_ok_update pi_set_def)
  show "calls_in (procs (pi_set ix pid p)) + mset (calls_opt (pi_lookup ix pid))
       = calls_in (procs ix) + mset (calls_opt p)"
    using calls_in_update [OF b, of p] lookup_slot [OF assms(2)] by (simp add: pi_set_def)
  show "occupied (procs (pi_set ix pid p)) + (if pi_lookup ix pid = None then 0 else 1)
       = occupied (procs ix) + (if p = None then 0 else 1)"
    using occupied_update [OF b, of p] lookup_slot [OF assms(2)] by (simp add: pi_set_def)
qed

text \<open>Growing the table adds empty slots.\<close>

definition same_table :: "procindex \<Rightarrow> procindex \<Rightarrow> bool" where
  "same_table ix ix' \<longleftrightarrow> (\<exists>n. procs ix' = procs ix @ replicate n None) \<and> maxPid ix' = maxPid ix"

lemma same_table_flow:
  "same_table ix ix' \<Longrightarrow> index_ok ix \<Longrightarrow> pi_wf ix' \<Longrightarrow> index_ok ix' \<and> calls_in (procs ix') = calls_in (procs ix)
     \<and> occupied (procs ix') = occupied (procs ix) \<and> maxPid ix' = maxPid ix"
  by (auto simp: same_table_def index_ok_def)

lemma grow_same_table: "opencall_grow env pid ix = Inr (r, ix') \<Longrightarrow> same_table ix ix'"
proof (induction env pid ix rule: opencall_grow.induct)
  case (1 env pid ix)
  show ?case
  proof (cases "psize ix < pid + 1 \<and> \<not> (next_size ix < 0 \<or> \<not> can_alloc env (nat (next_size ix) * 8))")
    case True
    then have "int (length (procs ix)) = psize ix" "\<not> next_size ix \<le> psize ix"
      and g: "opencall_grow env pid (ix\<lparr>psize := next_size ix,
        procs := procs ix @ replicate (nat (next_size ix - psize ix)) None\<rparr>) = Inr (r, ix')"
      using "1.prems" by (auto simp: opencall_grow.simps [of env pid ix] Let_def split: if_splits)
    with True "1.IH" have "same_table (ix\<lparr>psize := next_size ix,
        procs := procs ix @ replicate (nat (next_size ix - psize ix)) None\<rparr>) ix'"
      by (simp add: Let_def)
    then show ?thesis
      by (auto simp: same_table_def simp flip: replicate_add)
  next
    case False
    then have "ix' = ix"
      using "1.prems" by (auto simp: opencall_grow.simps [of env pid ix] Let_def split: if_splits)
    then show ?thesis by (auto simp: same_table_def)
  qed
qed

lemma grow_granted:
  assumes "index_ok ix" "0 \<le> pid" "pid \<le> maxPid ix" "\<And>n. grants env n"
  shows "\<exists>ix'. opencall_grow env pid ix = Inr (0, ix') \<and> index_ok ix' \<and> pid + 1 \<le> psize ix'
     \<and> calls_in (procs ix') = calls_in (procs ix) \<and> occupied (procs ix') = occupied (procs ix)
     \<and> maxPid ix' = maxPid ix \<and> pi_lookup ix' = pi_lookup ix"
proof -
  have ix: "pi_wf ix" "maxPid ix < 2 ^ 30" using assms(1) by (simp_all add: index_ok_def)
  obtain r ix' where g: "opencall_grow env pid ix = Inr (r, ix')" "pi_wf ix'" "maxPid ix' = maxPid ix"
    "pi_lookup ix' = pi_lookup ix"
    "r = 0 \<and> pid + 1 \<le> psize ix' \<or> r = 1 \<and> psize ix' < pid + 1 \<and> \<not> can_alloc env (nat (next_size ix') * 8)"
    using opencall_grow_spec [OF ix(1) assms(2,3), of env] by blast
  have "next_size ix' < 2 ^ 31"
    using index_sums_fit(2) [OF g(2)] g(2,3) ix(2) by (auto simp: next_size_def pi_wf_def)
  then have "can_alloc env (nat (next_size ix') * 8)"
    using assms(4) by (simp add: can_alloc_def)
  with g(5) have "r = 0" "pid + 1 \<le> psize ix'" by auto
  with g same_table_flow [OF grow_same_table [OF g(1)] assms(1) g(2)] show ?thesis by auto
qed


section \<open>Adding a process\<close>

text \<open>
  Whatever \<open>procindex_add\<close> does with a fresh process when memory is granted, no open call comes or goes.
\<close>

lemma procindex_add_flow:
  assumes ok: "index_ok ix" and e: "fresh_exec e" and mem: "\<And>n. grants env n"
    and add: "procindex_add env ix e = Inr (r, ix', e')"
  shows "index_ok ix' \<and> calls_in (procs ix') = calls_in (procs ix) \<and> occupied (procs ix') \<le> occupied (procs ix) + 1
     \<and> maxPid ix' = maxPid ix \<and> (r = ALREADY_EXISTS_IN_CONTAINER \<longrightarrow> e' = e \<and> has_slot ix' (ec_pid e)
          \<and> pi_lookup ix' (ec_pid e) \<noteq> None \<and> occupied (procs ix') = occupied (procs ix))"
proof (cases "maxPid ix < ec_pid e")
  case True
  then show ?thesis
    using procindex_add_refused [of e ix env] add ok by (simp add: ALREADY_EXISTS_IN_CONTAINER_def)
next
  case False
  have wf: "pi_wf ix" and pid: "0 \<le> ec_pid e" "ec_pid e \<le> maxPid ix"
    using ok e False by (simp_all add: index_ok_def fresh_exec_def)
  obtain ix1 where g: "opencall_grow env (ec_pid e) ix = Inr (0, ix1)" "index_ok ix1" "ec_pid e + 1 \<le> psize ix1"
    "calls_in (procs ix1) = calls_in (procs ix)" "occupied (procs ix1) = occupied (procs ix)" "maxPid ix1 = maxPid ix"
    using grow_granted [OF ok pid mem] by blast
  note add = add [unfolded procindex_add_cases [OF wf pid g(1)]]
  then have slot: "has_slot ix1 (ec_pid e)"
    using g(3) pid(1) by (auto simp: has_slot_def split: if_splits)
  have st: "record_ok (stored e)" "calls_of (stored e) = []" "calls_wf (stored e)" "ec_pid (stored e) = ec_pid e"
    "ec_ppid (stored e) = 0"
    using fresh_record [OF e] stored_wf [of e] e by (simp_all add: fresh_exec_def)
  note set = pi_set_flow [OF g(2) slot, of "Some (stored e)"]
  show ?thesis
  proof (cases "pi_lookup ix1 (ec_pid e)")
    case None
    then have "ix' = pi_set ix1 (ec_pid e) (Some (stored e)) \<and> r = 0"
      using add by (auto split: if_splits)
    with set None st g(4-6) show ?thesis
      by (simp add: ALREADY_EXISTS_IN_CONTAINER_def)
  next
    case (Some old)
    with add g slot show ?thesis by (auto split: if_splits)
  qed
qed

section \<open>The state of the daemon\<close>

definition flow_ok :: "surveiller \<Rightarrow> bool" where
  "flow_ok sv \<longleftrightarrow> surv_wf sv \<and> index_ok (sv_procs sv) \<and> records_ok (ring_list (sv_dispatchQueue sv))"

definition held :: "surveiller \<Rightarrow> openCall multiset" where
  "held sv = calls_in (procs (sv_procs sv)) + calls_in (ring_list (sv_dispatchQueue sv))"

definition crowd :: "surveiller \<Rightarrow> nat" where
  "crowd sv = occupied (procs (sv_procs sv)) + length (ring_list (sv_dispatchQueue sv))"

lemma flow_okI:
  "flow_ok sv \<Longrightarrow> index_ok ix \<Longrightarrow> flow_ok (sv\<lparr>sv_procs := ix\<rparr>)"
  by (simp add: flow_ok_def surv_wf_procs index_ok_def)

text \<open>A record that is written to the dispatch queue is there, if it has room.\<close>

lemma dispatch_flow:
  assumes "flow_ok sv" "record_ok e" "calls_wf e" "length (ring_list (sv_dispatchQueue sv)) < SIZE_RING"
    and "g_ringBuffer_write (sv_dispatchQueue sv) (Some e) = Inr (r, q)"
  shows "flow_ok (sv\<lparr>sv_dispatchQueue := q\<rparr>)" "ring_list q = ring_list (sv_dispatchQueue sv) @ [Some e]"
proof -
  have ptr: "call_ptr (Some e)" using assms(3) by (simp add: call_ptr_def)
  have wf: "surv_wf sv" using assms(1) by (simp add: flow_ok_def)
  obtain q' where "g_ringBuffer_write (sv_dispatchQueue sv) (Some e) = Inr (r, q')" "surv_wf (sv\<lparr>sv_dispatchQueue := q'\<rparr>)"
    "ring_list q' = take SIZE_RING (ring_list (sv_dispatchQueue sv) @ [Some e])"
    using write_tracked [OF wf ptr] assms(5) by auto
  with assms show "ring_list q = ring_list (sv_dispatchQueue sv) @ [Some e]" "flow_ok (sv\<lparr>sv_dispatchQueue := q\<rparr>)"
    by (simp_all add: flow_ok_def)
qed

lemma addExecCall_flow:
  assumes ok: "flow_ok sv" and e: "fresh_exec e" and mem: "plenty mem" and room: "crowd sv < SIZE_RING"
    and add: "surv_addExecCall mem sv e = Inr (r, sv')"
  shows "flow_ok sv' \<and> held sv' = held sv \<and> crowd sv' \<le> crowd sv + 1 \<and> maxPid (sv_procs sv') = maxPid (sv_procs sv)"
proof -
  have grants: "grants (mem k) n" for k n using mem by (simp add: plenty_def)
  have ix: "index_ok (sv_procs sv)" using ok by (simp add: flow_ok_def)
  obtain r1 ix1 e1 where first: "procindex_add (mem 0) (sv_procs sv) e = Inr (r1, ix1, e1)"
    using add by (auto simp: surv_addExecCall_def bind_r_Inr_iff)
  note f = procindex_add_flow [OF ix e grants first]
  have ok1: "flow_ok (sv\<lparr>sv_procs := ix1\<rparr>)"
    using ok f by (intro flow_okI) auto
  show ?thesis
  proof (cases "r1 = ALREADY_EXISTS_IN_CONTAINER")
    case False
    then have "sv' = sv\<lparr>sv_procs := ix1\<rparr>"
      using add first by (simp add: surv_addExecCall_def Let_def)
    with f ok1 show ?thesis by (auto simp: held_def crowd_def)
  next
    case True
    then have slot: "has_slot ix1 (ec_pid e)" and "e1 = e" using f by auto
    obtain old where old: "pi_lookup ix1 (ec_pid e) = Some old" using f True by auto
    let ?ix2 = "pi_set ix1 (ec_pid e) None"
    have ix1: "index_ok ix1" "pi_wf ix1" using f by (simp_all add: index_ok_def)
    have retr: "procindex_retrieve ix1 (ec_pid e) = Inr (Some old, ?ix2)"
      using procindex_retrieve_spec [OF ix1(2) slot] old by simp
    obtain r2 dq r3 ix3 e3 where w: "g_ringBuffer_write (sv_dispatchQueue sv) (Some old) = Inr (r2, dq)"
      "procindex_add (mem 1) ?ix2 e = Inr (r3, ix3, e3)" "sv' = sv\<lparr>sv_procs := ix3, sv_dispatchQueue := dq\<rparr>"
      using add first True retr \<open>e1 = e\<close> by (auto simp: surv_addExecCall_def Let_def bind_r_Inr_iff)
    note set = pi_set_flow [OF ix1(1) slot, of None]
    have ix2: "index_ok ?ix2" "calls_in (procs ?ix2) + mset (calls_of old) = calls_in (procs ix1)"
      "occupied (procs ?ix2) + 1 = occupied (procs ix1)"
      using set old by simp_all
    have "length (ring_list (sv_dispatchQueue sv)) < SIZE_RING"
      using room by (simp add: crowd_def)
    note d = dispatch_flow [OF ok index_ok_lookup [OF ix1(1) old] pi_lookup_wf(2) [OF ix1(2) old] this w(1)]
    have s: "index_ok ix3" "calls_in (procs ix3) = calls_in (procs ?ix2)" "occupied (procs ix3) \<le> occupied (procs ?ix2) + 1"
      "maxPid ix3 = maxPid ix1"
      using procindex_add_flow [OF ix2(1) e grants w(2)] by auto
    have "flow_ok sv'"
      using flow_okI [OF d(1) s(1)] w(3) by (cases sv) simp
    moreover have "calls_in (procs ix1) = calls_in (procs (sv_procs sv))" "maxPid ix1 = maxPid (sv_procs sv)"
      "occupied (procs ix1) = occupied (procs (sv_procs sv))"
      using f True by auto
    ultimately show ?thesis
      using s(2-4) ix2(2,3) d(2) w(3) by (auto simp: held_def crowd_def ac_simps)
  qed
qed

section \<open>Adding an open call\<close>

lemma lookup_few:
  assumes "pi_wf ix" "pi_lookup ix pid = Some e"
  shows "length (calls_of e) \<le> size (calls_in (procs ix))"
proof -
  note slot = pi_lookup_wf(4) [OF assms]
  have "calls_in ((procs ix)[nat (pid + 1) := None]) + mset (calls_of e) = calls_in (procs ix)"
    using calls_in_update [OF slot_bound [OF assms(1) slot], of None] lookup_slot [OF slot] assms(2) by simp
  from arg_cong [OF this, of size] show ?thesis by simp
qed

lemma pi_set_same:
  assumes "pi_lookup ix pid = Some e"
  shows "pi_set ix pid (Some e) = ix"
proof -
  have "procs ix ! nat (pid + 1) = Some e"
    using assms by (simp add: pi_lookup_def split: if_splits)
  then show ?thesis
    by (cases ix) (metis pi_set_def list_update_id procindex.surjective procindex.update_convs(1))
qed

lemma placeholder_tidy:
  "fresh_open maxpid oc \<Longrightarrow> oc_cmdName oc = Some name \<Longrightarrow> tidy_exec (placeholder oc name)"
  by (auto simp: fresh_open_def tidy_open_def tidy_exec_def placeholder_def execCall_zero_def timeval_zero_def
      recent_def timeval_ok_def int64_ok_def int32_ok_def short_def str_ok_def NUL_def)

lemma opencall_target_flow:
  assumes ok: "index_ok ix" and slot: "has_slot ix (oc_pid oc)" and oc: "fresh_open (maxPid ix) oc"
    and mem: "plenty mem" and few: "size (calls_in (procs ix)) < 2 ^ 57"
  shows "\<exists>e. opencall_target mem ix oc = Inr (0, pi_set ix (oc_pid oc) (Some e)) \<and> has_room e \<and> ec_pid e = oc_pid oc
     \<and> ec_ppid e = 0 \<and> calls_of e = calls_opt (pi_lookup ix (oc_pid oc))
     \<and> ec_callBuff_size e \<le> 8 + 2 * Suc (length (calls_of e)) \<and> tidy_exec e"
proof -
  have wf: "pi_wf ix" using ok by (simp add: index_ok_def)
  obtain name where name: "oc_cmdName oc = Some name" "length name < 2 ^ 60" "short (Some name)"
    using oc by (cases "oc_cmdName oc") (auto simp: fresh_open_def tidy_open_def short_def str_ok_def)
  have mem2: "can_alloc (mem 2) sizeof_execCall" using mem by (simp add: sizeof_execCall_def)
  show ?thesis
  proof (cases "pi_lookup ix (oc_pid oc)")
    case None
    let ?p = "placeholder oc name"
    have "2 \<le> psize ix" using slot by (simp add: has_slot_def)
    then have "procindex_add (mem 6) ix ?p = Inr (0, pi_set ix (oc_pid oc) (Some ?p), ?p)"
      using procindex_add_stores [OF wf, of ?p "mem 6"] slot None index_ok_no0 [OF ok]
      by (simp add: placeholder_facts)
    then have "opencall_target mem ix oc = Inr (0, pi_set ix (oc_pid oc) (Some ?p))"
      using None name mem slot pi_slot [OF wf slot]
      by (simp add: opencall_target_def has_slot_def sizeof_execCall_def Let_def)
    then show ?thesis
      using None placeholder_facts [of oc name]
        placeholder_tidy [OF oc name(1)]
      by (intro exI [of _ ?p]) (simp add: placeholder_def)
  next
    case (Some e)
    note e = pi_lookup_wf [OF wf Some]
    note small = lookup_few [OF wf Some]
    have len: "int (length (calls_of e)) = ec_call_num e"
      using e(2) by (auto simp: calls_of_def calls_wf_def)
    have size: "ec_callBuff_size e \<le> 8 + 2 * length (calls_of e)" "tidy_exec e"
      using index_ok_lookup [OF ok Some] by (simp_all add: record_ok_def)
    show ?thesis
    proof (cases "ec_call_num e + 2 = int (ec_callBuff_size e)")
      case True
      let ?e = "e\<lparr>ec_callBuff := ec_callBuff e @ replicate (ec_callBuff_size e) None,
                 ec_callBuff_size := ec_callBuff_size e * 2\<rparr>"
      have "opencall_target mem ix oc = Inr (0, pi_set ix (oc_pid oc) (Some ?e))"
        using Some slot pi_slot [OF wf slot] pi_set_slot [OF wf slot, of "Some ?e"] True few small size(1) mem
        by (simp add: opencall_target_def has_slot_def Let_def pi_set_def)
      then show ?thesis
        using grown_buffer [OF e(2) True] e Some True len size
        by (intro exI [of _ ?e]) simp
    next
      case False
      then have "opencall_target mem ix oc = Inr (0, ix)"
        using Some slot pi_slot [OF wf slot] by (simp add: opencall_target_def has_slot_def Let_def)
      then show ?thesis
        using roomy_buffer [OF e(2) False] e Some size pi_set_same [OF Some]
        by (intro exI [of _ e]) simp
    qed
  qed
qed

text \<open>An open call ends up in the record of its process.\<close>

lemma opencall_add_flow:
  assumes ok: "index_ok ix" and oc: "fresh_open (maxPid ix) oc" and mem: "plenty mem"
    and few: "size (calls_in (procs ix)) < 2 ^ 57" and add: "procindex_opencall_add mem ix oc = Inr (r, ix')"
  shows "index_ok ix' \<and> calls_in (procs ix') = add_mset oc (calls_in (procs ix))
     \<and> occupied (procs ix') \<le> occupied (procs ix) + 1 \<and> maxPid ix' = maxPid ix"
proof -
  let ?pid = "oc_pid oc"
  have pid: "0 \<le> ?pid" "?pid \<le> maxPid ix" using oc by (simp_all add: fresh_open_def)
  have "grants (mem 0) n" for n using mem by (simp add: plenty_def)
  from grow_granted [OF ok pid this] obtain ix1 where
    g: "opencall_grow (mem 0) ?pid ix = Inr (0, ix1)" "index_ok ix1" "?pid + 1 \<le> psize ix1"
    "calls_in (procs ix1) = calls_in (procs ix)" "occupied (procs ix1) = occupied (procs ix)" "maxPid ix1 = maxPid ix"
    by blast
  have wf: "pi_wf ix1" using g(2) by (simp add: index_ok_def)
  have slot: "has_slot ix1 ?pid"
  proof (rule ccontr)
    assume "\<not> has_slot ix1 ?pid"
    then have "psize ix1 = ?pid + 1" using g(3) pid by (simp add: has_slot_def)
    then have "opencall_target mem ix1 oc = Inl OutOfBounds"
      using wf pid by (simp add: opencall_target_def pi_wf_def slot_def Let_def)
    with add g(1) pid show False by (simp add: procindex_opencall_add_def Let_def)
  qed
  obtain e where e: "opencall_target mem ix1 oc = Inr (0, pi_set ix1 ?pid (Some e))" "has_room e" "ec_pid e = ?pid"
    "ec_ppid e = 0" "calls_of e = calls_opt (pi_lookup ix1 ?pid)" "ec_callBuff_size e \<le> 8 + 2 * Suc (length (calls_of e))"
    "tidy_exec e"
    using opencall_target_flow [OF g(2) slot _ mem] oc few g(4,6) by auto
  let ?e = "attach e oc"
  let ?t1 = "pi_set ix1 ?pid (Some e)" and ?t2 = "pi_set ix1 ?pid (Some ?e)"
  note a = attach_facts [OF e(2), of oc]
  have calls: "\<forall>c \<in> set (calls_of e). oc_pid c = ?pid \<and> tidy_open c"
    using index_ok_lookup [OF g(2), of ?pid] pi_lookup_wf(1) [OF wf, of ?pid] e(5)
    by (cases "pi_lookup ix1 ?pid") (auto simp: record_ok_def)
  have rec: "record_ok ?e"
    using a e(3,6,7) calls oc by (simp add: record_ok_def fresh_open_def) (simp add: attach_def)
  have set: "index_ok ?t2" "calls_in (procs ?t2) = add_mset oc (calls_in (procs ix1))"
    "occupied (procs ?t2) \<le> occupied (procs ix1) + 1"
    using pi_set_flow [OF g(2) slot, of "Some ?e"] rec a e(3-5) by (auto split: if_splits)
  have "procindex_opencall_add mem ix oc = Inr (0, ?t2)"
    using g(6) by (intro opencall_add_runs(1) wf slot g(1) e) simp
  then have "ix' = ?t2" using add by simp
  with set g(4-6) show ?thesis by simp
qed

lemma put_open_flow:
  assumes "flow_ok sv" "fresh_open (maxPid (sv_procs sv)) oc" "plenty mem" "size (held sv) < 2 ^ 57"
    and "procindex_opencall_add mem (sv_procs sv) oc = Inr (r, ix)"
  shows "flow_ok (sv\<lparr>sv_procs := ix\<rparr>)" "held (sv\<lparr>sv_procs := ix\<rparr>) = add_mset oc (held sv)"
    "crowd (sv\<lparr>sv_procs := ix\<rparr>) \<le> crowd sv + 1" "maxPid ix = maxPid (sv_procs sv)"
proof -
  have ix: "index_ok (sv_procs sv)" "size (calls_in (procs (sv_procs sv))) < 2 ^ 57"
    using assms(1,4) by (simp_all add: flow_ok_def held_def)
  note f = opencall_add_flow [OF ix(1) assms(2,3) ix(2) assms(5)]
  show "flow_ok (sv\<lparr>sv_procs := ix\<rparr>)"
    using f by (intro flow_okI assms(1)) simp
  show "held (sv\<lparr>sv_procs := ix\<rparr>) = add_mset oc (held sv)" "crowd (sv\<lparr>sv_procs := ix\<rparr>) \<le> crowd sv + 1"
    "maxPid ix = maxPid (sv_procs sv)"
    using f by (simp_all add: held_def crowd_def)
qed

section \<open>Sweeps\<close>

lemma occupied_length: "length (filter P ps) \<le> occupied ps" if "\<not> P None" for P :: "execCall option \<Rightarrow> bool"
  using that by (induction ps) auto

lemma vit_calls:
  assumes "\<And>e. p = Some e \<Longrightarrow> record_ok e"
  shows "mset (calls_opt (vit gone p)) + (if gone_tracked gone p then mset (calls_opt p) else {#}) = mset (calls_opt p)"
  using assms by (cases p) (auto simp: vit_def gone_tracked_def record_ok_def calls_of_def)

lemma vit_table:
  assumes "records_ok ps"
  shows "calls_in (map (vit gone) ps) + calls_in (filter (gone_tracked gone) ps) = calls_in ps
     \<and> occupied (map (vit gone) ps) + length (filter (gone_tracked gone) ps) \<le> occupied ps
     \<and> records_ok (map (vit gone) ps)"
  using assms
proof (induction ps)
  case (Cons p ps)
  have "record_ok (e\<lparr>ec_deadness := d\<rparr>)" if "p = Some e" for e d
    using Cons.prems that by (auto simp: record_ok_def calls_of_def)
  then have "\<forall>e. vit gone p = Some e \<longrightarrow> record_ok e"
    using Cons.prems by (cases p) (auto simp: vit_def)
  moreover have "(if vit gone p = None then 0 else 1) + (if gone_tracked gone p then 1 else 0)
      \<le> (if p = None then 0 else (1::nat))"
    by (cases p) (auto simp: vit_def gone_tracked_def)
  ultimately show ?case
    using Cons vit_calls [of p gone] by (auto simp: ac_simps)
qed simp

lemma vitals_flow:
  assumes ok: "flow_ok sv" and room: "crowd sv \<le> SIZE_RING" and run: "surv_check_proc_vitals gone sv = Inr sv'"
  shows "flow_ok sv' \<and> held sv' = held sv \<and> crowd sv' \<le> crowd sv \<and> maxPid (sv_procs sv') = maxPid (sv_procs sv)"
proof -
  let ?ps = "procs (sv_procs sv)" and ?q = "ring_list (sv_dispatchQueue sv)"
  have wf: "surv_wf sv" "records_ok ?ps" "records_ok ?q" "maxPid (sv_procs sv) < 2 ^ 30"
    using ok by (simp_all add: flow_ok_def index_ok_def)
  have v: "surv_wf sv'" "sv_procs sv' = (sv_procs sv)\<lparr>procs := map (vit gone) ?ps\<rparr>"
    "ring_list (sv_dispatchQueue sv') = take SIZE_RING (?q @ filter (gone_tracked gone) ?ps)"
    using vitals_sweep [OF wf(1), of gone] run by auto
  have "length (?q @ filter (gone_tracked gone) ?ps) \<le> SIZE_RING"
    using room occupied_length [of "gone_tracked gone" ?ps] by (simp add: crowd_def gone_tracked_def)
  then have q: "ring_list (sv_dispatchQueue sv') = ?q @ filter (gone_tracked gone) ?ps"
    using v(3) by simp
  have "records_ok (filter (gone_tracked gone) ?ps)"
    using wf(2) by (simp add: records_ok_def)
  then show ?thesis
    using vit_table [OF wf(2), of gone] v(1,2) q wf
    by (auto simp: flow_ok_def held_def crowd_def index_ok_def surv_wf_def ac_simps)
qed

lemma flush_procs:
  assumes wf: "surv_wf sv" and run: "surv_flush_procindex sv = Inr sv'"
  shows "sv_procs sv' = (sv_procs sv)\<lparr>procs := replicate (length (procs (sv_procs sv))) None\<rparr>"
proof -
  let ?ix = "sv_procs sv"
  have ix: "pi_wf ?ix" using wf by (simp add: surv_wf_def)
  note size = pi_wfD(1,2) [OF ix]
  then have len: "Suc 0 + nat (psize ?ix - 1) = length (procs ?ix)" by linarith
  obtain ps where ps: "procs ?ix = None # ps"
    using slot0_empty [OF ix] len by (cases "procs ?ix") auto
  show ?thesis
    using flush_loop_spec [OF wf len] run ps size by (auto simp: surv_flush_procindex_def split: if_splits)
qed

lemma flush_flow:
  assumes ok: "flow_ok sv" and room: "crowd sv \<le> SIZE_RING" and run: "surv_flush_procindex sv = Inr sv'"
  shows "flow_ok sv' \<and> held sv' = held sv \<and> crowd sv' \<le> crowd sv \<and> maxPid (sv_procs sv') = maxPid (sv_procs sv)
     \<and> calls_in (procs (sv_procs sv')) = {#}"
proof -
  let ?ps = "procs (sv_procs sv)" and ?q = "ring_list (sv_dispatchQueue sv)"
  have wf: "surv_wf sv" "records_ok ?ps" "records_ok ?q" "maxPid (sv_procs sv) < 2 ^ 30"
    using ok by (simp_all add: flow_ok_def index_ok_def)
  have v: "surv_wf sv'" "pi_lookup (sv_procs sv') = (\<lambda>_. None)"
    "ring_list (sv_dispatchQueue sv') = take SIZE_RING (?q @ filter tracked_ptr ?ps)"
    using flush_spec [OF wf(1)] run by auto
  have "length (?q @ filter tracked_ptr ?ps) \<le> SIZE_RING"
    using room occupied_length [of tracked_ptr ?ps] by (simp add: crowd_def tracked_ptr_def)
  then have q: "ring_list (sv_dispatchQueue sv') = ?q @ filter tracked_ptr ?ps"
    using v(3) by simp
  have procs: "sv_procs sv' = (sv_procs sv)\<lparr>procs := replicate (length ?ps) None\<rparr>"
    by (rule flush_procs [OF wf(1) run])
  have "calls_in (filter tracked_ptr ?ps) = calls_in ?ps"
    using wf(2) by (intro calls_in_filter) (auto simp: tracked_ptr_def records_ok_def record_ok_def calls_opt_def split: option.splits)
  moreover have "records_ok (filter tracked_ptr ?ps)"
    using wf(2) by (simp add: records_ok_def)
  ultimately show ?thesis
    using v(1) q wf procs occupied_length [of tracked_ptr ?ps]
    by (simp add: flow_ok_def held_def crowd_def index_ok_def surv_wf_def tracked_ptr_def ac_simps)
qed

section \<open>The main loop\<close>

definition queue_of :: "('a \<Rightarrow> bool) \<Rightarrow> 'a g_ringBuffer \<Rightarrow> bool" where
  "queue_of P q \<longleftrightarrow> ring_inv q \<and> (\<forall>p \<in> set (ring_list q). \<exists>x. p = Some x \<and> P x)"

definition queue_calls :: "openCall g_ringBuffer \<Rightarrow> openCall multiset" where
  "queue_calls q = mset (map the (ring_list q))"

lemma queue_of_read:
  assumes "queue_of P q" "g_ringBuffer_size q \<noteq> 0"
  obtains x q' where "P x" "\<And>c. g_ringBuffer_read q c = Inr (0, q', Some x)" "queue_of P q'"
    "ring_list q = Some x # ring_list q'"
proof -
  have q: "ring_inv q" "\<forall>p \<in> set (ring_list q). \<exists>x. p = Some x \<and> P x"
    using assms(1) by (simp_all add: queue_of_def)
  then have "map (Some \<circ> the) (ring_list q) = ring_list q"
    by (intro map_idI) auto
  then obtain xs where xs: "ring_list q = map Some xs" "\<forall>x \<in> set xs. P x"
    using q(2) by (intro that [of "map the (ring_list q)"]) auto
  then have h: "holds_list q xs" using q(1) by (simp add: holds_list_def)
  obtain x ys where "xs = x # ys"
    using holds_size [OF h] assms(2) by (cases xs) auto
  with holds_read [of q x ys] h obtain q' where "holds_list q' ys" "\<forall>c. g_ringBuffer_read q c = Inr (0, q', Some x)"
    by blast
  with xs \<open>xs = x # ys\<close> show ?thesis
    by (intro that [of x q']) (auto simp: queue_of_def holds_list_def)
qed

text \<open>Everything that moving a call into the index leaves alone.\<close>

definition rest ::
  "'d main_state \<Rightarrow> (execCall g_ringBuffer \<times> openCall g_ringBuffer \<times> execCall option \<times> openCall option)
     \<times> bool \<times> bool \<times> 'd \<times> nat \<times> int \<times> int" where
  "rest st = ((sv_commandQueue (m_surv st), sv_openQueue (m_surv st), m_tempEcall st, m_tempOcall st),
     m_compMode st, m_ready_calls st, m_db st, m_counter st, sv_boot_time (m_surv st), maxPid (sv_procs (m_surv st)))"

definition enters :: "openCall multiset \<Rightarrow> 'd main_state \<Rightarrow> 'd main_state \<Rightarrow> bool" where
  "enters M st st' \<longleftrightarrow> flow_ok (m_surv st') \<and> held (m_surv st') = M + held (m_surv st)
     \<and> crowd (m_surv st') \<le> crowd (m_surv st) + 1 \<and> rest st' = rest st"

lemma addExec_enters:
  assumes "main_addExec env st = Inr st'" "flow_ok (m_surv st)" "m_tempEcall st = Some e" "fresh_exec e"
    "plenty (me_add env (m_done st))" "crowd (m_surv st) < SIZE_RING"
  shows "enters {#} st st'"
proof -
  obtain r sv where add: "surv_addExecCall (me_add env (m_done st)) (m_surv st) e = Inr (r, sv)"
    "st' = st\<lparr>m_surv := sv, m_done := m_done st + 1\<rparr>"
    using assms(1,3) by (auto simp: main_addExec_def bind_r_Inr_iff)
  have "sv_commandQueue sv = sv_commandQueue (m_surv st)" "sv_openQueue sv = sv_openQueue (m_surv st)"
    "sv_boot_time sv = sv_boot_time (m_surv st)"
    using add(1) by (auto simp: surv_addExecCall_def bind_r_Inr_iff Let_def split: if_splits)
  with addExecCall_flow [OF assms(2,4,5,6) add(1)] add(2) show ?thesis
    by (simp add: enters_def rest_def)
qed

lemma putExec_enters:
  assumes "main_putExec env st = Inr st'" "flow_ok (m_surv st)" "m_tempEcall st = Some e" "fresh_exec e"
    "plenty (me_add env (m_done st))"
  shows "enters {#} st st'"
proof -
  obtain r ix e' where add: "procindex_add (me_add env (m_done st) 0) (sv_procs (m_surv st)) e = Inr (r, ix, e')"
    "st' = st\<lparr>m_surv := (m_surv st)\<lparr>sv_procs := ix\<rparr>, m_done := m_done st + 1\<rparr>"
    using assms(1,3) by (auto simp: main_putExec_def bind_r_Inr_iff)
  have ix: "index_ok (sv_procs (m_surv st))" using assms(2) by (simp add: flow_ok_def)
  have "grants (me_add env (m_done st) 0) n" for n using assms(5) by (simp add: plenty_def)
  from procindex_add_flow [OF ix assms(4) this add(1)] flow_okI [OF assms(2), of ix] add(2) show ?thesis
    by (simp add: enters_def rest_def held_def crowd_def)
qed

lemma addOpen_enters:
  assumes "main_addOpen env st = Inr st'" "flow_ok (m_surv st)" "m_tempOcall st = Some oc"
    "fresh_open (maxPid (sv_procs (m_surv st))) oc" "plenty (me_add env (m_done st))" "size (held (m_surv st)) < 2 ^ 57"
  shows "enters {#oc#} st st'"
proof -
  obtain r ix where add: "procindex_opencall_add (me_add env (m_done st)) (sv_procs (m_surv st)) oc = Inr (r, ix)"
    "st' = st\<lparr>m_surv := (m_surv st)\<lparr>sv_procs := ix\<rparr>, m_done := m_done st + 1\<rparr>"
    using assms(1,3) by (auto simp: main_addOpen_def bind_r_Inr_iff)
  from put_open_flow [OF assms(2,4,5,6) add(1)] add(2) show ?thesis
    by (simp add: enters_def rest_def)
qed

section \<open>A round keeps the open calls\<close>

definition between :: "'d main_state \<Rightarrow> openCall multiset" where
  "between st = (if m_compMode st then mset (case m_tempOcall st of None \<Rightarrow> [] | Some oc \<Rightarrow> [oc]) else {#})"

definition in_flight :: "'d main_state \<Rightarrow> openCall multiset" where
  "in_flight st = queue_calls (sv_openQueue (m_surv st)) + between st + held (m_surv st)"

definition main_ok :: "'d main_state \<Rightarrow> bool" where
  "main_ok st \<longleftrightarrow> flow_ok (m_surv st) \<and> queue_of fresh_exec (sv_commandQueue (m_surv st))
     \<and> queue_of (fresh_open (maxPid (sv_procs (m_surv st)))) (sv_openQueue (m_surv st))
     \<and> m_ready_calls st = m_compMode st
     \<and> (m_compMode st \<longrightarrow> (\<exists>e. m_tempEcall st = Some e \<and> fresh_exec e)
          \<and> (\<exists>oc. m_tempOcall st = Some oc \<and> fresh_open (maxPid (sv_procs (m_surv st))) oc))"

definition main_granted :: "'d main_env \<Rightarrow> bool" where
  "main_granted env \<longleftrightarrow> (\<forall>k. plenty (me_add env k))"

text \<open>One state and a later one, with the same open calls in flight.\<close>

definition conserves :: "nat \<Rightarrow> 'd main_state \<Rightarrow> 'd main_state \<Rightarrow> bool" where
  "conserves n st st' \<longleftrightarrow> main_ok st' \<and> in_flight st' = in_flight st \<and> crowd (m_surv st') \<le> crowd (m_surv st) + n
     \<and> m_counter st' = m_counter st \<and> m_db st' = m_db st \<and> sv_boot_time (m_surv st') = sv_boot_time (m_surv st)
     \<and> maxPid (sv_procs (m_surv st')) = maxPid (sv_procs (m_surv st))"


lemma held_simps [simp]:
  "held (sv\<lparr>sv_commandQueue := cq\<rparr>) = held sv" "held (sv\<lparr>sv_openQueue := oq\<rparr>) = held sv"
  "held (sv\<lparr>sv_status_msg := msg\<rparr>) = held sv" "held (sv\<lparr>sv_shutting_down := b\<rparr>) = held sv"
  "crowd (sv\<lparr>sv_commandQueue := cq\<rparr>) = crowd sv" "crowd (sv\<lparr>sv_openQueue := oq\<rparr>) = crowd sv"
  "crowd (sv\<lparr>sv_status_msg := msg\<rparr>) = crowd sv" "crowd (sv\<lparr>sv_shutting_down := b\<rparr>) = crowd sv"
  by (simp_all add: held_def crowd_def)

lemma flow_ok_simps [simp]:
  "flow_ok sv \<Longrightarrow> ring_inv cq \<Longrightarrow> flow_ok (sv\<lparr>sv_commandQueue := cq\<rparr>)"
  "flow_ok sv \<Longrightarrow> ring_inv oq \<Longrightarrow> flow_ok (sv\<lparr>sv_openQueue := oq\<rparr>)"
  "flow_ok (sv\<lparr>sv_status_msg := msg\<rparr>) = flow_ok sv" "flow_ok (sv\<lparr>sv_shutting_down := b\<rparr>) = flow_ok sv"
  by (simp_all add: flow_ok_def surv_wf_def)

lemma queue_of_inv [simp]: "queue_of P q \<Longrightarrow> ring_inv q"
  by (simp add: queue_of_def)

lemma readExec_flow:
  assumes "main_readExec st = Inr st'" "queue_of P (sv_commandQueue (m_surv st))"
    "g_ringBuffer_size (sv_commandQueue (m_surv st)) \<noteq> 0"
  shows "\<exists>e q. P e \<and> queue_of P q
     \<and> st' = st\<lparr>m_surv := (m_surv st)\<lparr>sv_commandQueue := q\<rparr>, m_tempEcall := Some e\<rparr>"
proof -
  obtain e q where "P e" "\<And>c. g_ringBuffer_read (sv_commandQueue (m_surv st)) c = Inr (0, q, Some e)" "queue_of P q"
    using queue_of_read [OF assms(2,3)] by blast
  with assms(1) show ?thesis
    by (intro exI [of _ e] exI [of _ q]) (auto simp: main_readExec_def)
qed

lemma readOpen_flow:
  assumes "main_readOpen st = Inr st'" "queue_of P (sv_openQueue (m_surv st))"
    "g_ringBuffer_size (sv_openQueue (m_surv st)) \<noteq> 0"
  shows "\<exists>oc q. P oc \<and> queue_of P q \<and> queue_calls (sv_openQueue (m_surv st)) = add_mset oc (queue_calls q)
     \<and> st' = st\<lparr>m_surv := (m_surv st)\<lparr>sv_openQueue := q\<rparr>, m_tempOcall := Some oc\<rparr>"
proof -
  obtain oc q where "P oc" "\<And>c. g_ringBuffer_read (sv_openQueue (m_surv st)) c = Inr (0, q, Some oc)"
    "queue_of P q" "ring_list (sv_openQueue (m_surv st)) = Some oc # ring_list q"
    using queue_of_read [OF assms(2,3)] by blast
  with assms(1) show ?thesis
    by (intro exI [of _ oc] exI [of _ q]) (auto simp: main_readOpen_def queue_calls_def)
qed

lemma enters_rest:
  assumes "enters M st st'"
  shows "m_tempEcall st' = m_tempEcall st" "m_tempOcall st' = m_tempOcall st" "m_compMode st' = m_compMode st"
    "m_ready_calls st' = m_ready_calls st" "sv_commandQueue (m_surv st') = sv_commandQueue (m_surv st)"
    "sv_openQueue (m_surv st') = sv_openQueue (m_surv st)" "maxPid (sv_procs (m_surv st')) = maxPid (sv_procs (m_surv st))"
    "m_counter st' = m_counter st" "m_db st' = m_db st" "sv_boot_time (m_surv st') = sv_boot_time (m_surv st)"
    "flow_ok (m_surv st')" "held (m_surv st') = M + held (m_surv st)" "crowd (m_surv st') \<le> crowd (m_surv st) + 1"
  using assms by (simp_all add: enters_def rest_def)

lemma compare_conserves:
  assumes run: "main_compare env st = Inr st'" and ok: "main_ok st" "m_compMode st" and env: "main_granted env"
    and room: "crowd (m_surv st) + 2 \<le> SIZE_RING" and few: "size (in_flight st) < 2 ^ 57"
  shows "conserves 2 st st'"
proof -
  obtain e oc where t: "m_tempEcall st = Some e" "fresh_exec e" "m_tempOcall st = Some oc"
    "fresh_open (maxPid (sv_procs (m_surv st))) oc"
    using ok by (auto simp: main_ok_def)
  have s: "flow_ok (m_surv st)" "queue_of fresh_exec (sv_commandQueue (m_surv st))"
    "queue_of (fresh_open (maxPid (sv_procs (m_surv st)))) (sv_openQueue (m_surv st))" "m_ready_calls st"
    using ok by (simp_all add: main_ok_def)
  have mem: "plenty (me_add env k)" for k using env by (simp add: main_granted_def)
  have held: "size (held (m_surv st)) < 2 ^ 57" "crowd (m_surv st) < SIZE_RING"
    using few room by (simp_all add: in_flight_def)
  obtain st1 where st1: "(if older_exec st then main_addExec env st else main_addOpen env st) = Inr st1"
    "(if older_exec st \<and> g_ringBuffer_size (sv_commandQueue (m_surv st1)) \<noteq> 0
         \<or> \<not> older_exec st \<and> g_ringBuffer_size (sv_openQueue (m_surv st1)) \<noteq> 0
      then (if older_exec st then main_readExec st1 else main_readOpen st1)
      else bind_r (if \<not> older_exec st then main_addExec env st1 else main_addOpen env st1) (\<lambda>st.
        Inr (st\<lparr>m_ready_calls := False, m_compMode := False\<rparr>))) = Inr st'"
    using compare_parts [OF run] .
  show ?thesis
  proof (cases "older_exec st")
    case True
    have f: "flow_ok (m_surv st1)" "held (m_surv st1) = held (m_surv st)" "crowd (m_surv st1) \<le> crowd (m_surv st) + 1"
      "rest st1 = rest st"
      using addExec_enters [OF _ s(1) t(1,2) mem held(2)] st1(1) True by (auto simp: enters_def)
    show ?thesis
    proof (cases "g_ringBuffer_size (sv_commandQueue (m_surv st1)) = 0")
      case False
      then have "main_readExec st1 = Inr st'" using st1(2) True by simp
      from readExec_flow [OF this _ False, of fresh_exec] s f t ok(2) show ?thesis
        by (auto simp: conserves_def main_ok_def in_flight_def between_def rest_def)
    next
      case empty: True
      then obtain st2 where st2: "main_addOpen env st1 = Inr st2" "st' = st2\<lparr>m_ready_calls := False, m_compMode := False\<rparr>"
        using st1(2) True by (auto simp: bind_r_Inr_iff)
      have "enters {#oc#} st1 st2"
        using f t held by (intro addOpen_enters [OF st2(1)] mem) (auto simp: rest_def)
      with f s t ok(2) st2(2) show ?thesis
        by (auto simp: enters_def conserves_def main_ok_def in_flight_def between_def rest_def)
    qed
  next
    case False
    have f: "flow_ok (m_surv st1)" "held (m_surv st1) = {#oc#} + held (m_surv st)"
      "crowd (m_surv st1) \<le> crowd (m_surv st) + 1" "rest st1 = rest st"
      using addOpen_enters [OF _ s(1) t(3,4) mem held(1)] st1(1) False by (auto simp: enters_def)
    show ?thesis
    proof (cases "g_ringBuffer_size (sv_openQueue (m_surv st1)) = 0")
      case more: False
      then have "main_readOpen st1 = Inr st'" using st1(2) False by simp
      from readOpen_flow [OF this _ more, of "fresh_open (maxPid (sv_procs (m_surv st)))"] s f t ok(2) show ?thesis
        by (auto simp: conserves_def main_ok_def in_flight_def between_def rest_def)
    next
      case True
      then obtain st2 where st2: "main_addExec env st1 = Inr st2" "st' = st2\<lparr>m_ready_calls := False, m_compMode := False\<rparr>"
        using st1(2) False by (auto simp: bind_r_Inr_iff)
      have "enters {#} st1 st2"
        using f t room by (intro addExec_enters [OF st2(1)] mem) (auto simp: rest_def)
      with f s t ok(2) st2(2) show ?thesis
        by (auto simp: enters_def conserves_def main_ok_def in_flight_def between_def rest_def)
    qed
  qed
qed

lemma collect_conserves:
  assumes run: "main_collect env st = Inr (cont, st')" and ok: "main_ok st" "\<not> m_compMode st" and env: "main_granted env"
    and room: "crowd (m_surv st) + 2 \<le> SIZE_RING" and few: "size (in_flight st) < 2 ^ 57"
  shows "conserves 2 st st'"
proof -
  let ?c = "sv_commandQueue (m_surv st)" and ?o = "sv_openQueue (m_surv st)"
  have s: "flow_ok (m_surv st)" "queue_of fresh_exec ?c"
    "queue_of (fresh_open (maxPid (sv_procs (m_surv st)))) ?o" "\<not> m_ready_calls st"
    using ok by (simp_all add: main_ok_def)
  have mem: "plenty (me_add env k)" for k using env by (simp add: main_granted_def)
  have held: "size (held (m_surv st)) < 2 ^ 57" using few by (simp add: in_flight_def)
  have same: "conserves 2 st st"
    using ok(1) by (simp add: conserves_def)
  show ?thesis
  proof (cases "g_ringBuffer_size ?c = 0")
    case no_exec: True
    show ?thesis
    proof (cases "g_ringBuffer_size ?o = 0")
      case True
      with no_exec run s(4) same show ?thesis by (simp add: main_collect_def)
    next
      case False
      then obtain st1 st2 where st2: "main_readOpen st = Inr st1" "main_addOpen env st1 = Inr st2"
        "st' = st2\<lparr>m_ready_calls := False\<rparr>"
        using no_exec run s(4) by (auto simp: main_collect_def bind_r_Inr_iff)
      obtain oc q where r: "fresh_open (maxPid (sv_procs (m_surv st))) oc" "queue_of (fresh_open (maxPid (sv_procs (m_surv st)))) q"
        "queue_calls ?o = add_mset oc (queue_calls q)" "st1 = st\<lparr>m_surv := (m_surv st)\<lparr>sv_openQueue := q\<rparr>, m_tempOcall := Some oc\<rparr>"
        using readOpen_flow [OF st2(1) s(3) False] by blast
      have "enters {#oc#} st1 st2"
        using s r held by (intro addOpen_enters [OF st2(2)] mem) auto
      with r s ok(2) st2(3) show ?thesis
        by (auto simp: enters_def conserves_def main_ok_def in_flight_def between_def rest_def)
    qed
  next
    case exec: False
    let ?st = "st\<lparr>m_ready_calls := True\<rparr>"
    show ?thesis
    proof (cases "g_ringBuffer_size ?o = 0")
      case True
      then obtain st1 st2 where st2: "main_readExec ?st = Inr st1" "main_putExec env st1 = Inr st2"
        "st' = st2\<lparr>m_ready_calls := False\<rparr>"
        using exec run by (auto simp: main_collect_def bind_r_Inr_iff)
      obtain e q where r: "fresh_exec e" "queue_of fresh_exec q"
        "st1 = ?st\<lparr>m_surv := (m_surv st)\<lparr>sv_commandQueue := q\<rparr>, m_tempEcall := Some e\<rparr>"
        using readExec_flow [OF st2(1), of fresh_exec] s(2) exec by auto
      have "enters {#} st1 st2"
        using s r by (intro putExec_enters [OF st2(2)] mem) auto
      with r s ok(2) st2(3) show ?thesis
        by (auto simp: enters_def conserves_def main_ok_def in_flight_def between_def rest_def)
    next
      case False
      then obtain st1 st2 where st2: "main_readExec ?st = Inr st1" "main_readOpen st1 = Inr st2"
        "st' = st2\<lparr>m_compMode := True\<rparr>"
        using exec run by (auto simp: main_collect_def bind_r_Inr_iff)
      obtain e q where r: "fresh_exec e" "queue_of fresh_exec q"
        "st1 = ?st\<lparr>m_surv := (m_surv st)\<lparr>sv_commandQueue := q\<rparr>, m_tempEcall := Some e\<rparr>"
        using readExec_flow [OF st2(1), of fresh_exec] s(2) exec by auto
      obtain oc p where r2: "fresh_open (maxPid (sv_procs (m_surv st))) oc" "queue_of (fresh_open (maxPid (sv_procs (m_surv st)))) p"
        "queue_calls ?o = add_mset oc (queue_calls p)" "st2 = st1\<lparr>m_surv := (m_surv st1)\<lparr>sv_openQueue := p\<rparr>, m_tempOcall := Some oc\<rparr>"
        using readOpen_flow [OF st2(2), of "fresh_open (maxPid (sv_procs (m_surv st)))"] s(3) False r(3) by auto
      show ?thesis
        using r r2 s ok(2) st2(3)
        by (auto simp: conserves_def main_ok_def in_flight_def between_def)
    qed
  qed
qed

lemma merge_conserves:
  assumes "main_merge env st = Inr (cont, st')" "main_ok st" "main_granted env"
    "crowd (m_surv st) + 2 \<le> SIZE_RING" "size (in_flight st) < 2 ^ 57"
  shows "conserves 2 st st'"
proof (cases "m_compMode st")
  case True
  then have "main_compare env st = Inr st'"
    using assms(1) by (auto simp: main_merge_def bind_r_Inr_iff)
  from compare_conserves [OF this assms(2) True assms(3-5)] show ?thesis .
next
  case False
  then have "main_collect env st = Inr (cont, st')"
    using assms(1) by (simp add: main_merge_def)
  from collect_conserves [OF this assms(2) False assms(3-5)] show ?thesis .
qed

section \<open>To the database\<close>

text \<open>The processes that were handed to the database, in order, and what became of it.\<close>

inductive handed :: "'d main_env \<Rightarrow> int \<Rightarrow> 'd \<Rightarrow> execCall list \<Rightarrow> 'd \<Rightarrow> bool" for env boot where
  none: "handed env boot db [] db"
| batch: "handed env boot db es db1 \<Longrightarrow> store_all env c 0 boot es' db1 = Inr db2 \<Longrightarrow> handed env boot db (es @ es') db2"

definition calls_handed :: "execCall list \<Rightarrow> openCall multiset" where
  "calls_handed es = mset (concat (map calls_of es))"

lemma calls_handed_simps [simp]:
  "calls_handed [] = {#}" "calls_handed (es @ fs) = calls_handed es + calls_handed fs"
  "calls_in (map Some es) = calls_handed es"
  by (simp_all add: calls_handed_def calls_in_def comp_def)

lemma dispatch_stores:
  assumes "dispatch_loop env i (length es) c st = Inr st'" "holds_list (sv_dispatchQueue (m_surv st)) es"
    "\<forall>e \<in> set es. calls_wf e"
  shows "\<exists>db. store_all env (m_counter st) i (sv_boot_time (m_surv st)) es (m_db st) = Inr db"
  using assms
proof (induction es arbitrary: i c st)
  case (Cons e es)
  obtain q where q: "holds_list q es" "\<forall>c. g_ringBuffer_read (sv_dispatchQueue (m_surv st)) c = Inr (0, q, Some e)"
    using holds_read [OF Cons.prems(2)] by blast
  then obtain r db1 where d: "surv_database_dispatch (me_ops env) (me_dispatch env (m_counter st) i)
      (sv_boot_time (m_surv st)) (m_db st) e = Inr (r, db1)"
    "dispatch_loop env (i + 1) (length es) None (st\<lparr>m_surv := (m_surv st)\<lparr>sv_dispatchQueue := q\<rparr>, m_db := db1\<rparr>) = Inr st'"
    using Cons.prems(1) by (auto simp: bind_r_Inr_iff Let_def)
  from Cons.IH [OF d(2)] q(1) Cons.prems(3) d(1) show ?case by simp
qed simp

lemma dispatch_flow_main:
  assumes run: "main_dispatch env st = Inr st'" and ok: "main_ok st"
  shows "\<exists>es. store_all env (m_counter st) 0 (sv_boot_time (m_surv st)) es (m_db st) = Inr (m_db st') \<and> main_ok st'
     \<and> in_flight st = in_flight st' + calls_handed es \<and> (\<forall>e \<in> set es. record_ok e \<and> calls_wf e)
     \<and> ring_list (sv_dispatchQueue (m_surv st')) = [] \<and> sv_procs (m_surv st') = sv_procs (m_surv st)
     \<and> m_counter st' = m_counter st \<and> sv_boot_time (m_surv st') = sv_boot_time (m_surv st)
     \<and> m_compMode st' = m_compMode st \<and> sv_openQueue (m_surv st') = sv_openQueue (m_surv st)"
proof -
  let ?sv = "m_surv st" and ?q = "sv_dispatchQueue (m_surv st)"
  have f: "flow_ok ?sv" using ok by (simp add: main_ok_def)
  then have wf: "surv_wf ?sv" by (simp add: flow_ok_def)
  obtain es where es: "ring_list ?q = map Some es" "\<forall>e \<in> set es. calls_wf e"
    using call_ptrs [of "ring_list ?q"] wf unfolding surv_wf_def by blast
  then have h: "holds_list ?q es" using wf by (simp add: holds_list_def surv_wf_def)
  have "nat (sint (g_ringBuffer_size ?q)) = length es"
    using gq.count [of ?q] gq.bounded [of ?q] h es(1) by (simp add: sint_small_size holds_list_def ring_inv_def)
  then obtain st1 where st1: "dispatch_loop env 0 (length es) None st = Inr st1"
    using run by (auto simp: main_dispatch_def Let_def bind_r_Inr_iff)
  obtain db where db: "store_all env (m_counter st) 0 (sv_boot_time ?sv) es (m_db st) = Inr db"
    using dispatch_stores [OF st1 h es(2)] by blast
  have k: "keeps st st'" by (rule main_dispatch_keeps [OF run])
  obtain q where d: "dispatch_loop env 0 (length es) None st
      = Inr (st\<lparr>m_surv := ?sv\<lparr>sv_dispatchQueue := q\<rparr>, m_db := db\<rparr>)" "holds_list q []"
    using dispatch_loop_spec [OF h es(2) db] by blast
  obtain msg where st': "st' = st\<lparr>m_surv := ?sv\<lparr>sv_dispatchQueue := q, sv_status_msg := msg\<rparr>, m_db := db\<rparr>"
    using run d(1) \<open>nat (sint (g_ringBuffer_size ?q)) = length es\<close>
      that [of "status_text (length es) (?sv\<lparr>sv_dispatchQueue := q\<rparr>)"]
    by (cases st) (auto simp: main_dispatch_def Let_def bind_r_Inr_iff set_status_def split: if_splits)
  have q: "ring_list q = []" "ring_inv q" using d(2) by (simp_all add: holds_list_def)
  have "records_ok (map Some es)" using f es(1) by (simp add: flow_ok_def)
  then have "\<forall>e \<in> set es. record_ok e \<and> calls_wf e" using es(2) by (auto simp: records_ok_def)
  moreover have "flow_ok (m_surv st')"
    using f q st' by (simp add: flow_ok_def surv_wf_def)
  ultimately show ?thesis
    using ok st' q db es(1)
    by (intro exI [of _ es]) (simp add: main_ok_def in_flight_def between_def held_def)
qed

lemma vitals_loop_boot: "vitals_loop gone i n sv = Inr sv' \<Longrightarrow> sv_boot_time sv' = sv_boot_time sv"
proof (induction n arbitrary: i sv)
  case (Suc n)
  then show ?case
    by (auto simp: res_simps Let_def split: option.splits if_splits dest!: Suc.IH)
qed simp

lemma sweep_conserves:
  assumes run: "surv_check_proc_vitals gone (m_surv st) = Inr sv" and ok: "main_ok st"
    and room: "crowd (m_surv st) \<le> SIZE_RING"
  shows "conserves 0 st (st\<lparr>m_surv := sv\<rparr>)"
proof -
  have "flow_ok (m_surv st)" using ok by (simp add: main_ok_def)
  note f = vitals_flow [OF this room run]
  have "sv_commandQueue sv = sv_commandQueue (m_surv st)" "sv_openQueue sv = sv_openQueue (m_surv st)"
    using check_vitals_shared [OF run] by (simp_all add: shared_def)
  moreover have "sv_boot_time sv = sv_boot_time (m_surv st)"
    using run by (simp add: surv_check_proc_vitals_def vitals_loop_boot)
  ultimately show ?thesis
    using f ok by (simp add: conserves_def main_ok_def in_flight_def between_def)
qed

lemma flush_conserves:
  assumes run: "surv_flush_procindex (m_surv st) = Inr sv" and ok: "main_ok st"
    and room: "crowd (m_surv st) \<le> SIZE_RING"
  shows "conserves 0 st (st\<lparr>m_surv := sv\<rparr>) \<and> calls_in (procs (sv_procs sv)) = {#}"
proof -
  have "flow_ok (m_surv st)" using ok by (simp add: main_ok_def)
  note f = flush_flow [OF this room run]
  have "sv_commandQueue sv = sv_commandQueue (m_surv st)" "sv_openQueue sv = sv_openQueue (m_surv st)"
    using flush_shared [OF run] by (simp_all add: shared_def)
  then show ?thesis
    using f ok flush_boot [OF run] by (simp add: conserves_def main_ok_def in_flight_def between_def)
qed

lemma conserves_trans:
  "conserves m st st1 \<Longrightarrow> conserves n st1 st2 \<Longrightarrow> conserves (m + n) st st2"
  by (auto simp: conserves_def)

text \<open>The end of a round: a flush in the last one, and a dispatch now and then.\<close>

lemma finish_flow:
  assumes run: "main_finish env st = Inr (dead, st')" and ok: "main_ok st" and room: "crowd (m_surv st) \<le> SIZE_RING"
  shows "\<exists>c es. store_all env c 0 (sv_boot_time (m_surv st)) es (m_db st) = Inr (m_db st') \<and> main_ok st'
     \<and> in_flight st = in_flight st' + calls_handed es \<and> (\<forall>e \<in> set es. record_ok e \<and> calls_wf e)
     \<and> sv_boot_time (m_surv st') = sv_boot_time (m_surv st) \<and> (dead \<longrightarrow> in_flight st' = between st')"
proof -
  have step: "main_ok (st\<lparr>m_counter := n\<rparr>) = main_ok st" "in_flight (st\<lparr>m_counter := n\<rparr>) = in_flight st"
    "between (st\<lparr>m_counter := n\<rparr>) = between st"
    for st :: "'a main_state" and n
    by (simp_all add: main_ok_def in_flight_def between_def)
  show ?thesis
  proof (cases "main_dead (m_surv st)")
    case True
    then obtain sv st1 where f: "surv_flush_procindex (m_surv st) = Inr sv" "main_dispatch env (st\<lparr>m_surv := sv\<rparr>) = Inr st1"
      "st' = st1\<lparr>m_counter := m_counter st1 + 1\<rparr>" "dead"
      using run by (auto simp: main_finish_def Let_def bind_r_Inr_iff)
    note c = flush_conserves [OF f(1) ok room]
    then have "main_ok (st\<lparr>m_surv := sv\<rparr>)" by (simp add: conserves_def)
    from dispatch_flow_main [OF f(2) this] obtain es where
      d: "store_all env (m_counter st) 0 (sv_boot_time sv) es (m_db st) = Inr (m_db st1)" "main_ok st1"
      "in_flight (st\<lparr>m_surv := sv\<rparr>) = in_flight st1 + calls_handed es" "\<forall>e \<in> set es. record_ok e \<and> calls_wf e"
      "ring_list (sv_dispatchQueue (m_surv st1)) = []" "sv_procs (m_surv st1) = sv_procs sv"
      "sv_boot_time (m_surv st1) = sv_boot_time sv" "m_compMode st1 = m_compMode st"
      "sv_openQueue (m_surv st1) = sv_openQueue sv"
      by auto
    have "ring_list (sv_openQueue sv) = []"
      using True c ok flush_shared [OF f(1)] ring_list_empty_iff [of "sv_openQueue (m_surv st)"]
      by (auto simp: main_dead_def main_ok_def queue_of_def shared_def g_ringBuffer_empty_def)
    then have "in_flight st1 = between st1"
      using d(5,6,9) c by (simp add: in_flight_def held_def queue_calls_def)
    with d c f(3) show ?thesis
      by (intro exI [of _ "m_counter st"] exI [of _ es]) (auto simp: step conserves_def)
  next
    case False
    then have "\<not> dead" using finish_keeps [OF run] by simp
    show ?thesis
    proof (cases "m_counter st mod 512 = 0")
      case True
      then obtain st1 where f: "main_dispatch env st = Inr st1" "st' = st1\<lparr>m_counter := m_counter st1 + 1\<rparr>"
        using run False by (auto simp: main_finish_def Let_def bind_r_Inr_iff)
      from dispatch_flow_main [OF f(1) ok] f(2) \<open>\<not> dead\<close> show ?thesis
        by (fastforce simp: step)
    next
      case no: False
      then have "st' = st\<lparr>m_counter := m_counter st + 1\<rparr>"
        using run False by (auto simp: main_finish_def Let_def)
      with ok \<open>\<not> dead\<close> show ?thesis
        by (intro exI [of _ 0] exI [of _ "[]"]) (simp add: step)
    qed
  qed
qed

lemma round_flow:
  assumes run: "main_round env st = Inr (dead, st')" and ok: "main_ok st" and env: "main_granted env"
    and room: "crowd (m_surv st) + 2 \<le> SIZE_RING" and few: "size (in_flight st) < 2 ^ 57"
  shows "\<exists>c es. store_all env c 0 (sv_boot_time (m_surv st)) es (m_db st) = Inr (m_db st') \<and> main_ok st'
     \<and> in_flight st = in_flight st' + calls_handed es \<and> (\<forall>e \<in> set es. record_ok e \<and> calls_wf e)
     \<and> sv_boot_time (m_surv st') = sv_boot_time (m_surv st) \<and> (dead \<longrightarrow> in_flight st' = between st')"
proof -
  obtain st1 cont st2 where st1: "(if m_counter (begun st) mod 1024 = 0
      then bind_r (surv_check_proc_vitals (me_gone env (m_counter (begun st))) (m_surv (begun st))) (\<lambda>sv.
        Inr ((begun st)\<lparr>m_surv := sv\<rparr>)) else Inr (begun st)) = Inr st1"
    and st2: "main_merge env st1 = Inr (cont, st2)"
    "(if cont then Inr (False, st2) else main_finish env st2) = Inr (dead, st')"
    using run unfolding main_round_def Let_def begun_def [symmetric] by (auto simp: bind_r_Inr_iff)
  have b: "conserves 0 st (begun st)" and crowd: "crowd (m_surv (begun st)) = crowd (m_surv st)"
    using ok by (simp_all add: conserves_def begun_def main_ok_def in_flight_def between_def)
  have "conserves 0 (begun st) st1"
    using st1 sweep_conserves [of _ "begun st"] b room crowd
    by (auto simp: bind_r_Inr_iff conserves_def split: if_splits)
  then have c1: "conserves 0 st st1"
    using conserves_trans [OF b] by fastforce
  have "conserves 2 st1 st2"
    using c1 room few by (intro merge_conserves [OF st2(1)] env) (simp_all add: conserves_def)
  then have c2: "conserves 2 st st2"
    using conserves_trans [OF c1] by fastforce
  show ?thesis
  proof (cases cont)
    case True
    with st2(2) c2 show ?thesis
      by (intro exI [of _ 0] exI [of _ "[]"]) (auto simp: conserves_def)
  next
    case False
    have "main_ok st2" "crowd (m_surv st2) \<le> SIZE_RING"
      using c2 room by (simp_all add: conserves_def)
    from finish_flow [OF _ this, of env dead st'] False st2(2) c2 show ?thesis
      by (simp add: conserves_def)
  qed
qed

section \<open>Runs\<close>

text \<open>
  The main loop among the other threads: the parser threads write to the queues between two rounds, and
  the flags change. \<open>ocs\<close> are the open calls that have arrived, in order. A round is taken only when
  the dispatch queue has room for all records of the index and the two that the round may add.
\<close>

inductive run_of :: "'d main_env \<Rightarrow> 'd main_state \<Rightarrow> openCall list \<Rightarrow> 'd main_state \<Rightarrow> bool" for env st0 where
  begin_run: "run_of env st0 [] st0"
| a_round: "run_of env st0 ocs st \<Longrightarrow> main_round env st = Inr (dead, st') \<Longrightarrow> crowd (m_surv st) + 2 \<le> SIZE_RING
     \<Longrightarrow> run_of env st0 ocs st'"
| open_comes: "run_of env st0 ocs st \<Longrightarrow> fresh_open (maxPid (sv_procs (m_surv st))) oc
     \<Longrightarrow> g_ringBuffer_write (sv_openQueue (m_surv st)) (Some oc) = Inr (0, q)
     \<Longrightarrow> run_of env st0 (ocs @ [oc]) (st\<lparr>m_surv := (m_surv st)\<lparr>sv_openQueue := q\<rparr>\<rparr>)"
| exec_comes: "run_of env st0 ocs st \<Longrightarrow> fresh_exec e
     \<Longrightarrow> g_ringBuffer_write (sv_commandQueue (m_surv st)) (Some e) = Inr (0, q)
     \<Longrightarrow> run_of env st0 ocs (st\<lparr>m_surv := (m_surv st)\<lparr>sv_commandQueue := q\<rparr>\<rparr>)"
| flags_change: "run_of env st0 ocs st \<Longrightarrow> run_of env st0 ocs (st\<lparr>m_surv := (m_surv st)\<lparr>sv_shutting_down := a,
     sv_processing_opencall_socket := b, sv_processing_execcall_socket := c, sv_restart := d\<rparr>\<rparr>)"

lemma queue_write:
  assumes "queue_of P q" "P x" "g_ringBuffer_write q (Some x) = Inr (0, q')"
  shows "queue_of P q'" "ring_list q' = ring_list q @ [Some x]"
proof -
  have "ring_inv q" using assms(1) by simp
  from gq.wr_cases [OF this, of "Some x"] assms show "queue_of P q'" "ring_list q' = ring_list q @ [Some x]"
    by (auto simp: queue_of_def split: if_splits)
qed

lemma run_conserves:
  assumes "run_of env st0 ocs st" "main_ok st0" "main_granted env" "size (in_flight st0) + length ocs < 2 ^ 57"
  shows "\<exists>es. handed env (sv_boot_time (m_surv st0)) (m_db st0) es (m_db st) \<and> main_ok st
     \<and> in_flight st0 + mset ocs = in_flight st + calls_handed es \<and> (\<forall>e \<in> set es. record_ok e \<and> calls_wf e)
     \<and> sv_boot_time (m_surv st) = sv_boot_time (m_surv st0)"
  using assms(1,4)
proof (induction rule: run_of.induct)
  case begin_run
  then show ?case
    using assms(2) by (intro exI [of _ "[]"]) (simp add: handed.none)
next
  case (a_round ocs st dead st')
  then obtain es where es: "handed env (sv_boot_time (m_surv st0)) (m_db st0) es (m_db st)" "main_ok st"
    "in_flight st0 + mset ocs = in_flight st + calls_handed es" "\<forall>e \<in> set es. record_ok e \<and> calls_wf e"
    "sv_boot_time (m_surv st) = sv_boot_time (m_surv st0)"
    by blast
  have "size (in_flight st) < 2 ^ 57"
    using arg_cong [OF es(3), of size] a_round.prems by simp
  from round_flow [OF a_round(2) es(2) assms(3) a_round(3) this] obtain c fs where
    "store_all env c 0 (sv_boot_time (m_surv st)) fs (m_db st) = Inr (m_db st')" "main_ok st'"
    "in_flight st = in_flight st' + calls_handed fs" "\<forall>e \<in> set fs. record_ok e \<and> calls_wf e"
    "sv_boot_time (m_surv st') = sv_boot_time (m_surv st)"
    by blast
  with es show ?case
    by (intro exI [of _ "es @ fs"]) (auto intro: handed.batch simp: ac_simps)
next
  case (open_comes ocs st oc q)
  then obtain es where es: "handed env (sv_boot_time (m_surv st0)) (m_db st0) es (m_db st)" "main_ok st"
    "in_flight st0 + mset ocs = in_flight st + calls_handed es" "\<forall>e \<in> set es. record_ok e \<and> calls_wf e"
    "sv_boot_time (m_surv st) = sv_boot_time (m_surv st0)"
    by auto
  then have "queue_of (fresh_open (maxPid (sv_procs (m_surv st)))) (sv_openQueue (m_surv st))"
    by (simp add: main_ok_def)
  note w = queue_write [OF this open_comes(2,3)]
  with es show ?case
    by (intro exI [of _ es]) (simp add: main_ok_def in_flight_def between_def queue_calls_def)
next
  case (exec_comes ocs st e q)
  then obtain es where es: "handed env (sv_boot_time (m_surv st0)) (m_db st0) es (m_db st)" "main_ok st"
    "in_flight st0 + mset ocs = in_flight st + calls_handed es" "\<forall>e \<in> set es. record_ok e \<and> calls_wf e"
    "sv_boot_time (m_surv st) = sv_boot_time (m_surv st0)"
    by blast
  then have "queue_of fresh_exec (sv_commandQueue (m_surv st))"
    by (simp add: main_ok_def)
  note w = queue_write [OF this exec_comes(2,3)]
  with es show ?case
    by (intro exI [of _ es]) (simp add: main_ok_def in_flight_def between_def)
next
  case (flags_change ocs st a b c d)
  then show ?case
    by (auto simp: main_ok_def in_flight_def between_def flow_ok_def held_def surv_wf_def)
qed

text \<open>When the loop ends, every call was handed over, except the one that may be under comparison.\<close>

lemma last_hands_over:
  assumes run: "run_of env st0 ocs st" "main_ok st0" "main_granted env" "size (in_flight st0) + length ocs < 2 ^ 57"
    and last: "main_round env st = Inr (True, st')" "crowd (m_surv st) + 2 \<le> SIZE_RING"
  shows "\<exists>es. handed env (sv_boot_time (m_surv st0)) (m_db st0) es (m_db st')
     \<and> in_flight st0 + mset ocs = between st' + calls_handed es \<and> (\<forall>e \<in> set es. record_ok e \<and> calls_wf e)"
proof -
  obtain es where es: "handed env (sv_boot_time (m_surv st0)) (m_db st0) es (m_db st)" "main_ok st"
    "in_flight st0 + mset ocs = in_flight st + calls_handed es" "\<forall>e \<in> set es. record_ok e \<and> calls_wf e"
    "sv_boot_time (m_surv st) = sv_boot_time (m_surv st0)"
    using run_conserves [OF run] by blast
  have "size (in_flight st) < 2 ^ 57"
    using arg_cong [OF es(3), of size] run(4) by simp
  from round_flow [OF last(1) es(2) run(3) last(2) this] obtain c fs where
    "store_all env c 0 (sv_boot_time (m_surv st)) fs (m_db st) = Inr (m_db st')"
    "in_flight st = between st' + calls_handed fs" "\<forall>e \<in> set fs. record_ok e \<and> calls_wf e"
    by auto
  with es show ?thesis
    by (intro exI [of _ "es @ fs"]) (auto intro: handed.batch simp: ac_simps)
qed

section \<open>Properties\<close>

text \<open>
  C4: No open call is lost, doubled or moved to another process. However rounds of the main loop
  and the writes of the parser threads to the queues follow each other, the open calls that were
  there at first and those that arrived are those in the queue, in the comparison, in the index
  and in the dispatch queue, and those handed to the database, each as often as it came, and
  every call is handed over with the process whose id it has. Every round returns and finds room
  in the dispatch queue, and memory is granted.
\<close>

theorem open_calls_conserved:
  assumes "run_of env st0 ocs st" "main_ok st0" "main_granted env" "size (in_flight st0) + length ocs < 2 ^ 57"
  shows "\<exists>es. handed env (sv_boot_time (m_surv st0)) (m_db st0) es (m_db st)
     \<and> in_flight st0 + mset ocs = in_flight st + calls_handed es
     \<and> (\<forall>e \<in> set es. \<forall>oc \<in> set (calls_of e). oc_pid oc = ec_pid e)"
  using run_conserves [OF assms] by (fastforce simp: record_ok_def)

lemma demo_call_ok: "record_ok (demo_call 2 0)" "calls_of (demo_call 2 0) = []"
  by (simp_all add: record_ok_def calls_of_def demo_call_def execCall_zero_def timeval_zero_def tidy_exec_def recent_def
      timeval_ok_def int64_ok_def int32_ok_def short_def str_ok_def NUL_def)

lemma demo_main_ok: "main_ok (demo_main [] [])" "in_flight (demo_main [] []) = {#}" "crowd (m_surv (demo_main [] [])) = 1"
  "main_granted demo_main_env"
proof -
  note q = ring_of_one(2) [unfolded holds_list_def, THEN conjunct1]
    ring_of_one(2) [unfolded holds_list_def, THEN conjunct2, simplified]
  have "surv_wf (m_surv (demo_main [] []))" by (rule demo_main_wf)
  then show "main_ok (demo_main [] [])"
    using demo_index_wf demo_call_ok
    by (simp add: q main_ok_def flow_ok_def index_ok_def demo_main_def demo_surv_def demo_index_def queue_of_def ring_at_ok)
  show "in_flight (demo_main [] []) = {#}" "crowd (m_surv (demo_main [] [])) = 1"
    using demo_call_ok
    by (simp_all add: q in_flight_def between_def held_def queue_calls_def crowd_def demo_main_def demo_surv_def
        demo_index_def ring_at_ok)
  show "main_granted demo_main_env"
    by (simp add: main_granted_def plenty_def demo_main_env_def)
qed

text \<open>An open call arrives at a daemon that is not told to stop, and a round is run.\<close>

definition demo_busy :: "list_db main_state" where
  "demo_busy = (demo_main [] [])\<lparr>m_surv := (m_surv (demo_main [] []))\<lparr>sv_shutting_down := False,
     sv_processing_opencall_socket := False, sv_processing_execcall_socket := False, sv_restart := False\<rparr>\<rparr>"

lemma demo_touch_fresh: "fresh_open 20 demo_touch"
  by (simp add: fresh_open_def tidy_open_def demo_touch_def demo_open_def demo_later_def openCall_zero_def recent_def
      timeval_ok_def int64_ok_def int32_ok_def short_def str_ok_def NUL_def)

lemma demo_busy_round:
  "\<exists>st. main_round demo_main_env (demo_busy\<lparr>m_surv := (m_surv demo_busy)\<lparr>sv_openQueue := ring_of [demo_touch]\<rparr>\<rparr>)
     = Inr (False, st)"
  by (simp add: main_round_def main_merge_def main_collect_def main_finish_def main_dead_def main_readOpen_def
      main_addOpen_def g_ringBuffer_read_def g_ringBuffer_size_def g_ringBuffer_mask_def g_ringBuffer_empty_def
      ring_of_def SIZE_RING_def demo_busy_def demo_main_env_def demo_main_def demo_surv_def demo_index_def
      demo_touch_def demo_open_def demo_call_def demo_later_def openCall_zero_def execCall_zero_def
      procindex_opencall_add_def opencall_grow.simps opencall_target_def slot_def set_slot_def
      procindex_trackparents.simps Let_def nth_Cons')

lemma demo_arrival: "g_ringBuffer_write (ring_of []) (Some x) = Inr (0, ring_of [x])"
proof -
  have "replicate 1024 None = (None :: 'a option) # replicate 1023 None"
    by (simp flip: replicate_Suc)
  then show ?thesis
    by (simp add: g_ringBuffer_write_def ring_of_def g_ringBuffer_full_def g_ringBuffer_size_def g_ringBuffer_mask_def
      SIZE_RING_def set_slot_def)
qed

theorem open_calls_conserved_witness:
  "\<exists>st es. main_round demo_main_env (demo_busy\<lparr>m_surv := (m_surv demo_busy)\<lparr>sv_openQueue := ring_of [demo_touch]\<rparr>\<rparr>)
       = Inr (False, st)
     \<and> handed demo_main_env 100 ([], []) es (m_db st) \<and> {#demo_touch#} = in_flight st + calls_handed es
     \<and> (\<forall>e \<in> set es. \<forall>oc \<in> set (calls_of e). oc_pid oc = ec_pid e)"
proof -
  let ?st = "demo_busy\<lparr>m_surv := (m_surv demo_busy)\<lparr>sv_openQueue := ring_of [demo_touch]\<rparr>\<rparr>"
  obtain st where st: "main_round demo_main_env ?st = Inr (False, st)"
    using demo_busy_round by blast
  have b: "main_ok demo_busy" "in_flight demo_busy = {#}" "sv_boot_time (m_surv demo_busy) = 100" "m_db demo_busy = ([], [])"
    "crowd (m_surv ?st) = 1" "maxPid (sv_procs (m_surv demo_busy)) = 20" "sv_openQueue (m_surv demo_busy) = ring_of []"
    using demo_main_ok
    by (simp_all add: demo_busy_def main_ok_def in_flight_def between_def flow_ok_def held_def crowd_def surv_wf_def)
       (simp_all add: demo_main_def demo_surv_def demo_index_def)
  have "run_of demo_main_env demo_busy ([] @ [demo_touch]) ?st"
    using demo_touch_fresh demo_arrival b(6,7) by (intro run_of.open_comes run_of.begin_run) simp_all
  then have "run_of demo_main_env demo_busy [demo_touch] st"
    using run_of.a_round [OF _ st] b(5) by (simp add: SIZE_RING_def)
  from open_calls_conserved [OF this b(1) demo_main_ok(4)] b(2-4) st show ?thesis
    by auto
qed

end
