(* ===== verification/Drain.thy ===== *)
theory Drain
  imports Flow
begin

text \<open>
  A daemon that stops with calls in its queues: every round of the main loop (\<open>main\<close> in
  \<open>src/src/watchdog/src/watchdog.c\<close>) returns, and the loop ends when the queues are empty.

  Adding a process is a fault of the code when its parent is in the index, and when the table ends right
  behind its slot or the one of its parent. So the lemmas are about a set \<open>P\<close> of process ids that have
  slots in a table of size \<open>s\<close>, and about processes with ids in \<open>E\<close> and \<open>P\<close> and parents outside of \<open>P\<close>.
\<close>

section \<open>Everything can be stored\<close>

definition boot_ok :: "int \<Rightarrow> bool" where
  "boot_ok boot \<longleftrightarrow> 0 \<le> boot \<and> boot < 2 ^ 62"

lemma recent_stamped: "recent tv \<Longrightarrow> boot_ok boot \<Longrightarrow> timeval_ok (tv\<lparr>tv_sec := tv_sec tv + boot\<rparr>)"
  by (simp add: recent_def boot_ok_def timeval_ok_def int64_ok_def)

text \<open>A sound record can be stored, and so can its open calls.\<close>

lemma record_storable:
  assumes "record_ok e" "boot_ok boot"
  shows "eCall_ok (dispatch_record boot e)" "length (eCall_image (dispatch_record boot e)) < 2 ^ 63"
    "oc \<in> set (calls_of e) \<Longrightarrow> oCall_ok (dispatch_open_record boot (dispatch_record boot e) oc)
       \<and> length (oCall_image pad (dispatch_open_record boot (dispatch_record boot e) oc)) < 2 ^ 63"
proof -
  have e: "recent (ec_time_stamp e)" "int32_ok (ec_pid e)" "int32_ok (ec_ppid e)" "short (ec_cmdName e)" "short (ec_args e)"
    using assms(1) by (simp_all add: record_ok_def tidy_exec_def)
  then show ok: "eCall_ok (dispatch_record boot e)"
    using recent_stamped [OF _ assms(2)] by (simp add: eCall_ok_def dispatch_record_def short_def str_ok_def)
  show "length (eCall_image (dispatch_record boot e)) < 2 ^ 63"
    using e(4,5) by (simp add: eCall_image_def dispatch_record_def short_def c_block_def)
  assume "oc \<in> set (calls_of e)"
  then have "tidy_open oc" using assms(1) by (simp add: record_ok_def)
  then show "oCall_ok (dispatch_open_record boot (dispatch_record boot e) oc)
       \<and> length (oCall_image pad (dispatch_open_record boot (dispatch_record boot e) oc)) < 2 ^ 63"
    using recent_stamped [OF _ assms(2)] genKey_ok [OF ok]
    by (simp add: tidy_open_def oCall_ok_def dispatch_open_record_def short_def oCall_image_def c_block_def)
qed

lemma store_all_returns:
  assumes "\<forall>k. good_dispatch (me_dispatch env c k)" "boot_ok boot" "\<forall>e \<in> set es. record_ok e \<and> calls_wf e"
  shows "\<exists>db'. store_all env c i boot es db = Inr db'"
  using assms(3)
proof (induction es arbitrary: i db)
  case (Cons e es)
  then have e: "record_ok e" "calls_wf e" by simp_all
  note s = record_storable [OF e(1) assms(2)]
  obtain r db1 where "surv_database_dispatch (me_ops env) (me_dispatch env c i) boot db e = Inr (r, db1)"
    using dispatch_puts [OF spec [OF assms(1)] e(2) s(1,2), of i "me_ops env" db] s(3)
    by (metis prod.collapse)
  with Cons.IH [of "i + 1" db1] Cons.prems show ?case by simp
qed simp

section \<open>Every round returns\<close>

text \<open>A process that can be added, and an index and queues in which there are only such.\<close>

definition orphan_of :: "int set \<Rightarrow> int set \<Rightarrow> int \<Rightarrow> execCall \<Rightarrow> bool" where
  "orphan_of E P s e \<longleftrightarrow> ec_pid e \<in> E \<and> ec_pid e \<in> P \<and> ec_ppid e \<notin> P \<and> -1 \<le> ec_ppid e \<and> ec_ppid e + 1 \<noteq> s"

definition table_for :: "int set \<Rightarrow> int \<Rightarrow> procindex \<Rightarrow> bool" where
  "table_for P s ix \<longleftrightarrow> psize ix = s \<and> (\<forall>p \<in> P. 0 \<le> p \<and> p + 1 < s) \<and> (\<forall>p. pi_lookup ix p \<noteq> None \<longrightarrow> p \<in> P)"

definition queues_for :: "int set \<Rightarrow> int set \<Rightarrow> int \<Rightarrow> surveiller \<Rightarrow> bool" where
  "queues_for E P s sv \<longleftrightarrow> (\<forall>e. Some e \<in> set (ring_list (sv_commandQueue sv)) \<longrightarrow> orphan_of E P s e)
     \<and> (\<forall>oc. Some oc \<in> set (ring_list (sv_openQueue sv)) \<longrightarrow> oc_pid oc \<in> P)"

definition pair_for :: "int set \<Rightarrow> int set \<Rightarrow> int \<Rightarrow> 'd main_state \<Rightarrow> bool" where
  "pair_for E P s st \<longleftrightarrow> (\<forall>e. m_tempEcall st = Some e \<longrightarrow> orphan_of E P s e) \<and> (\<forall>oc. m_tempOcall st = Some oc \<longrightarrow> oc_pid oc \<in> P)"

definition draining :: "int set \<Rightarrow> int set \<Rightarrow> int \<Rightarrow> nat \<Rightarrow> 'd main_state \<Rightarrow> bool" where
  "draining E P s k st \<longleftrightarrow> main_ok st \<and> table_for P s (sv_procs (m_surv st)) \<and> queues_for E P s (m_surv st)
     \<and> (m_compMode st \<longrightarrow> pair_for E P s st) \<and> boot_ok (sv_boot_time (m_surv st))
     \<and> crowd (m_surv st) + 2 * k \<le> SIZE_RING \<and> size (in_flight st) < 2 ^ 57"

lemma table_slot: "table_for P s ix \<Longrightarrow> p \<in> P \<Longrightarrow> has_slot ix p"
  by (simp add: table_for_def has_slot_def)

lemma queues_keeps: "keeps st st' \<Longrightarrow> queues_for E P s (m_surv st) \<Longrightarrow> queues_for E P s (m_surv st')"
  by (simp add: queues_for_def keeps_def shared_def)

text \<open>The three ways into the index.\<close>

lemma addExec_returns:
  assumes "surv_wf (m_surv st)" "table_for P s (sv_procs (m_surv st))" "m_tempEcall st = Some e" "orphan_of E P s e" "fresh_exec e"
  shows "\<exists>st'. main_addExec env st = Inr st' \<and> table_for P s (sv_procs (m_surv st'))"
proof -
  let ?ix = "sv_procs (m_surv st)"
  have slot: "has_slot ?ix (ec_pid e)"
    using table_slot [OF assms(2)] assms(4) by (simp add: orphan_of_def)
  have e: "calls_wf e" "-1 \<le> ec_ppid e" "ec_ppid e + 1 \<noteq> psize ?ix" "pi_lookup ?ix (ec_ppid e) = None"
    using assms(2,4,5) by (auto simp: fresh_exec_def orphan_of_def table_for_def)
  from addExecCall_runs [OF assms(1) slot e, of "me_add env (m_done st)"] obtain sv where
    "surv_addExecCall (me_add env (m_done st)) (m_surv st) e = Inr (0, sv)"
    "pi_lookup (sv_procs sv) = (pi_lookup ?ix)(ec_pid e := Some (stored e))" "psize (sv_procs sv) = psize ?ix"
    by blast
  with assms(2-4) show ?thesis
    by (auto simp: main_addExec_def table_for_def orphan_of_def)
qed

lemma putExec_returns:
  assumes "surv_wf (m_surv st)" "table_for P s (sv_procs (m_surv st))" "m_tempEcall st = Some e" "orphan_of E P s e"
  shows "\<exists>st'. main_putExec env st = Inr st' \<and> table_for P s (sv_procs (m_surv st'))"
proof -
  let ?ix = "sv_procs (m_surv st)"
  have ix: "pi_wf ?ix" using assms(1) by (simp add: surv_wf_def)
  have slot: "has_slot ?ix (ec_pid e)"
    using table_slot [OF assms(2)] assms(4) by (simp add: orphan_of_def)
  have pid: "0 \<le> ec_pid e" "ec_pid e \<le> maxPid ?ix" "ec_pid e + 1 \<le> psize ?ix" "psize ?ix \<noteq> ec_pid e + 1"
    using ix slot by (auto simp: has_slot_def pi_wf_def)
  have "-1 \<le> ec_ppid e" "ec_ppid e + 1 \<noteq> psize ?ix" "pi_lookup ?ix (ec_ppid e) = None"
    using assms(2,4) by (auto simp: orphan_of_def table_for_def)
  with procindex_add_cases [OF ix pid(1,2) grow_no_need(1) [OF pid(3)]] pid(4)
  have "procindex_add (me_add env (m_done st) 0) ?ix e =
      (if pi_lookup ?ix (ec_pid e) \<noteq> None then Inr (ALREADY_EXISTS_IN_CONTAINER, ?ix, e)
       else Inr (0, pi_set ?ix (ec_pid e) (Some (stored e)), stored e))"
    by simp
  moreover have "table_for P s (pi_set ?ix (ec_pid e) (Some (stored e)))"
    using assms(2,4) pi_lookup_set [OF ix slot] by (auto simp: table_for_def orphan_of_def pi_set_def)
  ultimately show ?thesis
    using assms(2,3) by (auto simp: main_putExec_def)
qed

lemma addOpen_returns:
  assumes "index_ok (sv_procs (m_surv st))" "table_for P s (sv_procs (m_surv st))" "m_tempOcall st = Some oc" "oc_pid oc \<in> P"
    "fresh_open (maxPid (sv_procs (m_surv st))) oc" "main_granted env"
  shows "\<exists>st'. main_addOpen env st = Inr st' \<and> table_for P s (sv_procs (m_surv st'))"
proof -
  let ?ix = "sv_procs (m_surv st)" and ?mem = "me_add env (m_done st)"
  obtain name where "oc_cmdName oc = Some name"
    using assms(5) by (cases "oc_cmdName oc") (auto simp: fresh_open_def tidy_open_def short_def str_ok_def)
  moreover have "can_alloc (?mem 2) sizeof_execCall"
    using assms(6) by (simp add: main_granted_def sizeof_execCall_def)
  moreover have "pi_wf ?ix" using assms(1) by (simp add: index_ok_def)
  ultimately obtain r ix where "procindex_opencall_add ?mem ?ix oc = Inr (r, ix)" "psize ix = psize ?ix"
    "(\<exists>e. pi_lookup ix = (pi_lookup ?ix)(oc_pid oc := Some e)) \<or> ix = ?ix"
    using opencall_add_outcome [where mem = ?mem, OF _ table_slot [OF assms(2,4)] _ index_ok_no0 [OF assms(1)]] by blast
  with assms(2-4) show ?thesis
    by (auto simp: main_addOpen_def table_for_def split: if_splits)
qed

text \<open>Reading from a queue that is not empty.\<close>

lemma readExec_returns:
  assumes "queue_of fresh_exec (sv_commandQueue (m_surv st))" "queues_for E P s (m_surv st)"
    "g_ringBuffer_size (sv_commandQueue (m_surv st)) \<noteq> 0"
  shows "\<exists>e q. main_readExec st = Inr (st\<lparr>m_surv := (m_surv st)\<lparr>sv_commandQueue := q\<rparr>, m_tempEcall := Some e\<rparr>)
     \<and> orphan_of E P s e \<and> fresh_exec e \<and> queue_of fresh_exec q \<and> queues_for E P s ((m_surv st)\<lparr>sv_commandQueue := q\<rparr>)"
proof -
  obtain e q where r: "fresh_exec e" "\<And>c. g_ringBuffer_read (sv_commandQueue (m_surv st)) c = Inr (0, q, Some e)"
    "queue_of fresh_exec q" "ring_list (sv_commandQueue (m_surv st)) = Some e # ring_list q"
    using queue_of_read [OF assms(1,3)] by blast
  with assms(2) show ?thesis
    by (intro exI [of _ e] exI [of _ q]) (simp add: main_readExec_def queues_for_def)
qed

lemma readOpen_returns:
  assumes "queue_of (fresh_open m) (sv_openQueue (m_surv st))" "queues_for E P s (m_surv st)"
    "g_ringBuffer_size (sv_openQueue (m_surv st)) \<noteq> 0"
  shows "\<exists>oc q. main_readOpen st = Inr (st\<lparr>m_surv := (m_surv st)\<lparr>sv_openQueue := q\<rparr>, m_tempOcall := Some oc\<rparr>)
     \<and> oc_pid oc \<in> P \<and> fresh_open m oc \<and> queue_of (fresh_open m) q \<and> queues_for E P s ((m_surv st)\<lparr>sv_openQueue := q\<rparr>)"
proof -
  obtain oc q where r: "fresh_open m oc" "\<And>c. g_ringBuffer_read (sv_openQueue (m_surv st)) c = Inr (0, q, Some oc)"
    "queue_of (fresh_open m) q" "ring_list (sv_openQueue (m_surv st)) = Some oc # ring_list q"
    using queue_of_read [OF assms(1,3)] by blast
  with assms(2) show ?thesis
    by (intro exI [of _ oc] exI [of _ q]) (simp add: main_readOpen_def queues_for_def)
qed

text \<open>What holds of the index, the queues and the pair under comparison, and one step that goes well.\<close>

definition stocked :: "int set \<Rightarrow> int set \<Rightarrow> int \<Rightarrow> 'd main_state \<Rightarrow> bool" where
  "stocked E P s st \<longleftrightarrow> table_for P s (sv_procs (m_surv st)) \<and> queues_for E P s (m_surv st) \<and> (m_compMode st \<longrightarrow> pair_for E P s st)"

lemma draining_alt:
  "draining E P s k st \<longleftrightarrow> main_ok st \<and> stocked E P s st \<and> boot_ok (sv_boot_time (m_surv st))
     \<and> crowd (m_surv st) + 2 * k \<le> SIZE_RING \<and> size (in_flight st) < 2 ^ 57"
  by (auto simp: draining_def stocked_def)

lemma draining_conserves:
  "draining E P s (Suc k) st \<Longrightarrow> conserves 2 st st' \<Longrightarrow> stocked E P s st' \<Longrightarrow> draining E P s k st'"
  by (auto simp: draining_alt conserves_def)

lemma stocked_keeps:
  "keeps st st' \<Longrightarrow> stocked E P s st \<Longrightarrow> table_for P s (sv_procs (m_surv st')) \<Longrightarrow> stocked E P s st'"
  using queues_keeps [of st st' E P s] by (simp add: stocked_def keeps_def pair_for_def)

lemma stocked_simps [simp]:
  "stocked E P s (st\<lparr>m_ready_calls := b\<rparr>) = stocked E P s st"
  "stocked E P s st \<Longrightarrow> stocked E P s (st\<lparr>m_ready_calls := b, m_compMode := False\<rparr>)"
  by (simp_all add: stocked_def pair_for_def)

lemma addExec_drains:
  assumes "flow_ok (m_surv st)" "stocked E P s st" "m_tempEcall st = Some e" "orphan_of E P s e" "fresh_exec e" "main_granted env"
    "crowd (m_surv st) < SIZE_RING"
  shows "\<exists>st'. main_addExec env st = Inr st' \<and> stocked E P s st' \<and> enters {#} st st'"
proof -
  have "surv_wf (m_surv st)" "table_for P s (sv_procs (m_surv st))" "plenty (me_add env (m_done st))"
    using assms by (simp_all add: flow_ok_def stocked_def main_granted_def)
  with addExec_returns [OF _ _ assms(3-5), of env] addExec_enters [OF _ assms(1,3,5) _ assms(7)]
    stocked_keeps [OF main_addExec_keeps assms(2)] show ?thesis
    by blast
qed

lemma addOpen_drains:
  assumes "flow_ok (m_surv st)" "stocked E P s st" "m_tempOcall st = Some oc" "oc_pid oc \<in> P"
    "fresh_open (maxPid (sv_procs (m_surv st))) oc" "main_granted env" "size (held (m_surv st)) < 2 ^ 57"
  shows "\<exists>st'. main_addOpen env st = Inr st' \<and> stocked E P s st' \<and> enters {#oc#} st st'"
proof -
  have "index_ok (sv_procs (m_surv st))" "table_for P s (sv_procs (m_surv st))" "plenty (me_add env (m_done st))"
    using assms by (simp_all add: flow_ok_def stocked_def main_granted_def)
  with addOpen_returns [OF _ _ assms(3-6)] addOpen_enters [OF _ assms(1,3,5) _ assms(7)]
    stocked_keeps [OF main_addOpen_keeps assms(2)] show ?thesis
    by blast
qed

lemma compare_drains:
  assumes ok: "draining E P s (Suc k) st" "m_compMode st" and env: "main_granted env"
  shows "\<exists>st'. main_compare env st = Inr st' \<and> draining E P s k st'"
proof -
  have m: "main_ok st" "stocked E P s st" "crowd (m_surv st) + 2 \<le> SIZE_RING" "size (in_flight st) < 2 ^ 57"
    using ok(1) by (simp_all add: draining_alt)
  then have s: "flow_ok (m_surv st)" "queue_of fresh_exec (sv_commandQueue (m_surv st))"
    "queue_of (fresh_open (maxPid (sv_procs (m_surv st)))) (sv_openQueue (m_surv st))" "m_ready_calls st"
    "size (held (m_surv st)) < 2 ^ 57"
    using ok(2) by (simp_all add: main_ok_def in_flight_def)
  obtain e oc where t: "m_tempEcall st = Some e" "fresh_exec e" "m_tempOcall st = Some oc"
    "fresh_open (maxPid (sv_procs (m_surv st))) oc" "orphan_of E P s e" "oc_pid oc \<in> P"
    using m(1,2) ok(2) by (auto simp: main_ok_def stocked_def pair_for_def)
  have "\<exists>st'. main_compare env st = Inr st' \<and> stocked E P s st'"
  proof (cases "timercmp (ec_time_stamp e) (oc_time_stamp oc) (\<le>)")
    case True
    obtain st1 where a: "main_addExec env st = Inr st1" "stocked E P s st1" "enters {#} st st1"
      using addExec_drains [OF s(1) m(2) t(1,5,2) env] m(3) by auto
    show ?thesis
    proof (cases "g_ringBuffer_size (sv_commandQueue (m_surv st1)) = 0")
      case False
      have "queue_of fresh_exec (sv_commandQueue (m_surv st1))" "queues_for E P s (m_surv st1)"
        using s(2) a(2,3) by (simp_all add: enters_def rest_def stocked_def)
      from readExec_returns [OF this False] show ?thesis
        using True t(1,3) a False by (fastforce simp: main_compare_def stocked_def pair_for_def enters_def rest_def)
    next
      case empty: True
      obtain st2 where "main_addOpen env st1 = Inr st2" "stocked E P s st2"
        using addOpen_drains [OF _ a(2) _ t(6) _ env, of ] t(3,4) s(5) a(3) by (auto simp: enters_def rest_def)
      with True t(1,3) a(1) empty show ?thesis by (simp add: main_compare_def)
    qed
  next
    case False
    obtain st1 where a: "main_addOpen env st = Inr st1" "stocked E P s st1" "enters {#oc#} st st1"
      using addOpen_drains [OF s(1) m(2) t(3,6,4) env s(5)] by auto
    show ?thesis
    proof (cases "g_ringBuffer_size (sv_openQueue (m_surv st1)) = 0")
      case more: False
      have "queue_of (fresh_open (maxPid (sv_procs (m_surv st)))) (sv_openQueue (m_surv st1))" "queues_for E P s (m_surv st1)"
        using s(3) a(2,3) by (simp_all add: enters_def rest_def stocked_def)
      from readOpen_returns [OF this more] show ?thesis
        using False t(1,3) a more by (fastforce simp: main_compare_def stocked_def pair_for_def enters_def rest_def)
    next
      case True
      obtain st2 where "main_addExec env st1 = Inr st2" "stocked E P s st2"
        using addExec_drains [OF _ a(2) _ t(5,2) env] t(1) m(3) a(3) by (auto simp: enters_def rest_def)
      with False t(1,3) a(1) True show ?thesis by (simp add: main_compare_def)
    qed
  qed
  then obtain st' where run: "main_compare env st = Inr st'" "stocked E P s st'" by blast
  from compare_conserves [OF run(1) m(1) ok(2) env m(3,4)] run draining_conserves [OF ok(1)] show ?thesis
    by blast
qed

lemma collect_drains:
  assumes ok: "draining E P s (Suc k) st" "\<not> m_compMode st" and env: "main_granted env"
  shows "\<exists>cont st'. main_collect env st = Inr (cont, st') \<and> draining E P s k st'"
proof -
  let ?c = "sv_commandQueue (m_surv st)" and ?o = "sv_openQueue (m_surv st)"
  have m: "main_ok st" "stocked E P s st" "crowd (m_surv st) + 2 \<le> SIZE_RING" "size (in_flight st) < 2 ^ 57"
    using ok(1) by (simp_all add: draining_alt)
  then have q: "flow_ok (m_surv st)" "queue_of fresh_exec ?c" "queue_of (fresh_open (maxPid (sv_procs (m_surv st)))) ?o"
    "\<not> m_ready_calls st" "size (held (m_surv st)) < 2 ^ 57"
    and t: "table_for P s (sv_procs (m_surv st))" "queues_for E P s (m_surv st)"
    using ok(2) by (simp_all add: main_ok_def in_flight_def stocked_def)
  have "\<exists>cont st'. main_collect env st = Inr (cont, st') \<and> stocked E P s st'"
  proof (cases "g_ringBuffer_size ?c = 0")
    case no_exec: True
    show ?thesis
    proof (cases "g_ringBuffer_size ?o = 0")
      case True
      with no_exec q(4) m(2) show ?thesis by (auto simp: main_collect_def)
    next
      case False
      obtain oc r where r: "main_readOpen st = Inr (st\<lparr>m_surv := (m_surv st)\<lparr>sv_openQueue := r\<rparr>, m_tempOcall := Some oc\<rparr>)"
        "oc_pid oc \<in> P" "fresh_open (maxPid (sv_procs (m_surv st))) oc" "queue_of (fresh_open (maxPid (sv_procs (m_surv st)))) r"
        "queues_for E P s ((m_surv st)\<lparr>sv_openQueue := r\<rparr>)"
        using readOpen_returns [OF q(3) t(2) False] by blast
      let ?st = "st\<lparr>m_surv := (m_surv st)\<lparr>sv_openQueue := r\<rparr>, m_tempOcall := Some oc\<rparr>"
      obtain st2 where "main_addOpen env ?st = Inr st2" "stocked E P s st2"
        using addOpen_drains [of ?st E P s oc env] q ok(2) t(1) r env by (auto simp: stocked_def)
      with no_exec False q(4) r(1) show ?thesis by (auto simp: main_collect_def)
    qed
  next
    case exec: False
    obtain e r where r: "main_readExec (st\<lparr>m_ready_calls := True\<rparr>)
        = Inr (st\<lparr>m_ready_calls := True, m_surv := (m_surv st)\<lparr>sv_commandQueue := r\<rparr>, m_tempEcall := Some e\<rparr>)"
      "orphan_of E P s e" "fresh_exec e" "queue_of fresh_exec r" "queues_for E P s ((m_surv st)\<lparr>sv_commandQueue := r\<rparr>)"
      using readExec_returns [of "st\<lparr>m_ready_calls := True\<rparr>" E P s] q(2) t(2) exec by auto
    let ?st = "st\<lparr>m_ready_calls := True, m_surv := (m_surv st)\<lparr>sv_commandQueue := r\<rparr>, m_tempEcall := Some e\<rparr>"
    show ?thesis
    proof (cases "g_ringBuffer_size ?o = 0")
      case True
      obtain st2 where st2: "main_putExec env ?st = Inr st2" "table_for P s (sv_procs (m_surv st2))"
        using putExec_returns [of ?st P s e E env] q(1) t(1) r(2,4) by (auto simp: flow_ok_def surv_wf_def)
      moreover have "stocked E P s ?st" using t(1) r(5) ok(2) by (simp add: stocked_def)
      ultimately have "stocked E P s st2" using stocked_keeps [OF main_putExec_keeps] by blast
      with exec True r(1) st2(1) show ?thesis by (auto simp: main_collect_def)
    next
      case False
      then obtain oc u where u: "main_readOpen ?st = Inr (?st\<lparr>m_surv := (m_surv ?st)\<lparr>sv_openQueue := u\<rparr>, m_tempOcall := Some oc\<rparr>)"
        "oc_pid oc \<in> P" "queues_for E P s ((m_surv ?st)\<lparr>sv_openQueue := u\<rparr>)"
        using readOpen_returns [of "maxPid (sv_procs (m_surv st))" ?st E P s] q(3) r(5) by auto
      with exec False r(1,2) t(1) show ?thesis
        by (auto simp: main_collect_def stocked_def pair_for_def)
    qed
  qed
  then obtain cont st' where run: "main_collect env st = Inr (cont, st')" "stocked E P s st'" by blast
  from collect_conserves [OF run(1) m(1) ok(2) env m(3,4)] run draining_conserves [OF ok(1)] show ?thesis
    by blast
qed

lemma merge_drains:
  assumes "draining E P s (Suc k) st" "main_granted env"
  shows "\<exists>cont st'. main_merge env st = Inr (cont, st') \<and> draining E P s k st'"
  using compare_drains [OF assms(1) _ assms(2)] collect_drains [OF assms(1) _ assms(2)]
  by (cases "m_compMode st") (auto simp: main_merge_def)

text \<open>The rest of a round: no call enters the index.\<close>

lemma dispatch_drains:
  assumes ok: "draining E P s k st" and env: "\<forall>k. good_dispatch (me_dispatch env (m_counter st) k)"
  shows "\<exists>st'. main_dispatch env st = Inr st' \<and> draining E P s k st'"
proof -
  let ?sv = "m_surv st"
  have o: "main_ok st" "surv_wf ?sv" "records_ok (ring_list (sv_dispatchQueue ?sv))" "boot_ok (sv_boot_time ?sv)"
    using ok by (simp_all add: draining_def main_ok_def flow_ok_def)
  obtain es where es: "ring_list (sv_dispatchQueue ?sv) = map Some es" "\<forall>e \<in> set es. calls_wf e"
    using call_ptrs [of "ring_list (sv_dispatchQueue ?sv)"] o(2) unfolding surv_wf_def by blast
  have "\<forall>e \<in> set es. record_ok e \<and> calls_wf e"
    using o(3) es by (auto simp: records_ok_def)
  from store_all_returns [OF env o(4) this] obtain db where
    "store_all env (m_counter st) 0 (sv_boot_time ?sv) es (m_db st) = Inr db" by blast
  with main_dispatch_spec [OF o(2) es(1)] obtain st' where run: "main_dispatch env st = Inr st'" by blast
  obtain es where d: "main_ok st'" "in_flight st = in_flight st' + calls_handed es" "ring_list (sv_dispatchQueue (m_surv st')) = []"
    "sv_procs (m_surv st') = sv_procs ?sv" "sv_boot_time (m_surv st') = sv_boot_time ?sv"
    using dispatch_flow_main [OF run o(1)] by blast
  have "stocked E P s st'"
    using stocked_keeps [OF main_dispatch_keeps [OF run]] ok d(4) by (simp add: draining_alt stocked_def)
  moreover have "size (in_flight st') \<le> size (in_flight st)" using d(2) by simp
  ultimately have "draining E P s k st'"
    using ok d by (simp add: draining_alt crowd_def)
  with run show ?thesis by blast
qed

lemma flush_drains:
  assumes "draining E P s k st"
  shows "\<exists>sv. surv_flush_procindex (m_surv st) = Inr sv \<and> draining E P s k (st\<lparr>m_surv := sv\<rparr>)"
proof -
  have o: "main_ok st" "surv_wf (m_surv st)" "crowd (m_surv st) \<le> SIZE_RING"
    using assms by (simp_all add: draining_def main_ok_def flow_ok_def)
  obtain sv where run: "surv_flush_procindex (m_surv st) = Inr sv" "pi_lookup (sv_procs sv) = (\<lambda>_. None)"
    using flush_spec [OF o(2)] by blast
  have "table_for P s (sv_procs sv)"
    using flush_procs [OF o(2) run(1)] run(2) assms by (simp add: draining_def table_for_def)
  then have "stocked E P s (st\<lparr>m_surv := sv\<rparr>)"
    using assms flush_shared [OF run(1)] by (auto simp: draining_alt stocked_def queues_for_def shared_def pair_for_def)
  with flush_conserves [OF run(1) o(1,3)] assms have "draining E P s k (st\<lparr>m_surv := sv\<rparr>)"
    by (simp add: draining_alt conserves_def)
  with run(1) show ?thesis by blast
qed

lemma draining_counter: "draining E P s k (st\<lparr>m_counter := n\<rparr>) = draining E P s k st"
  by (simp add: draining_def main_ok_def in_flight_def between_def pair_for_def)

lemma finish_drains:
  assumes ok: "draining E P s k st" and env: "\<forall>k. good_dispatch (me_dispatch env (m_counter st) k)"
  shows "\<exists>dead st'. main_finish env st = Inr (dead, st') \<and> draining E P s k st'"
proof (cases "main_dead (m_surv st)")
  case True
  obtain sv where f: "surv_flush_procindex (m_surv st) = Inr sv" "draining E P s k (st\<lparr>m_surv := sv\<rparr>)"
    using flush_drains [OF ok] by blast
  from dispatch_drains [OF f(2)] env obtain st' where "main_dispatch env (st\<lparr>m_surv := sv\<rparr>) = Inr st'" "draining E P s k st'"
    by auto
  with True f(1) show ?thesis
    by (intro exI [of _ True]) (simp add: main_finish_def draining_counter)
next
  case False
  from dispatch_drains [OF ok env] obtain st' where "main_dispatch env st = Inr st'" "draining E P s k st'"
    by blast
  with False ok show ?thesis
    by (intro exI [of _ False]) (simp add: main_finish_def draining_counter)
qed

lemma sweep_drains:
  assumes "draining E P s k st"
  shows "\<exists>sv. surv_check_proc_vitals gone (m_surv st) = Inr sv \<and> draining E P s k (st\<lparr>m_surv := sv\<rparr>)"
proof -
  have o: "main_ok st" "surv_wf (m_surv st)" "crowd (m_surv st) \<le> SIZE_RING"
    using assms by (simp_all add: draining_def main_ok_def flow_ok_def)
  let ?ix = "sv_procs (m_surv st)"
  obtain sv where run: "surv_check_proc_vitals gone (m_surv st) = Inr sv" "sv_procs sv = ?ix\<lparr>procs := map (vit gone) (procs ?ix)\<rparr>"
    using vitals_sweep [OF o(2), of gone] by blast
  have "pi_lookup (sv_procs sv) p \<noteq> None \<longrightarrow> pi_lookup ?ix p \<noteq> None" for p
    using o(2) slot_bound [of ?ix p] run(2) by (auto simp: pi_lookup_def surv_wf_def has_slot_def vit_def split: option.splits if_splits)
  with run(2) have "stocked E P s (st\<lparr>m_surv := sv\<rparr>)"
    using assms check_vitals_shared [OF run(1)]
    by (auto simp: draining_alt stocked_def queues_for_def table_for_def shared_def pair_for_def)
  with sweep_conserves [OF run(1) o(1,3)] assms have "draining E P s k (st\<lparr>m_surv := sv\<rparr>)"
    by (simp add: draining_alt conserves_def)
  with run(1) show ?thesis by blast
qed

lemma round_drains:
  assumes ok: "draining E P s (Suc k) st" and env: "main_granted env" "\<forall>c k. good_dispatch (me_dispatch env c k)"
  shows "\<exists>dead st'. main_round env st = Inr (dead, st') \<and> draining E P s k st'"
proof -
  have "between (st\<lparr>m_surv := sv\<rparr>) = between st" for sv by (simp add: between_def)
  then have b: "draining E P s (Suc k) (begun st)"
    using ok by (simp add: begun_def draining_def main_ok_def in_flight_def queues_for_def pair_for_def)
  obtain sv where sv: "surv_check_proc_vitals (me_gone env (m_counter (begun st))) (m_surv (begun st)) = Inr sv"
    "draining E P s (Suc k) ((begun st)\<lparr>m_surv := sv\<rparr>)"
    using sweep_drains [OF b] by blast
  obtain st1 where st1: "(if m_counter (begun st) mod 1024 = 0
      then bind_r (surv_check_proc_vitals (me_gone env (m_counter (begun st))) (m_surv (begun st))) (\<lambda>sv.
        Inr ((begun st)\<lparr>m_surv := sv\<rparr>)) else Inr (begun st)) = Inr st1" "draining E P s (Suc k) st1"
    using sv b that [of "(begun st)\<lparr>m_surv := sv\<rparr>"] that [of "begun st"] by (cases "m_counter (begun st) mod 1024 = 0") auto
  obtain cont st2 where st2: "main_merge env st1 = Inr (cont, st2)" "draining E P s k st2"
    using merge_drains [OF st1(2) env(1)] by blast
  obtain dead st' where "main_finish env st2 = Inr (dead, st')" "draining E P s k st'"
    using finish_drains [OF st2(2)] env(2) by blast
  with st1(1) st2 show ?thesis
    unfolding main_round_def Let_def begun_def [symmetric] by (cases cont) auto
qed

section \<open>The loop ends\<close>

lemma drain_loop:
  assumes "queued (True, False, False, c) st es ocs" "waiting (m_compMode st) es ocs < n" "draining E P s n st"
    "run_of env st0 arrived st"
    and env: "main_granted env" "\<forall>c k. good_dispatch (me_dispatch env c k)"
  shows "\<exists>st1 st'. main_loop env (\<lambda>_ sv. sv) k n st = Inr (True, st') \<and> run_of env st0 arrived st1
     \<and> main_round env st1 = Inr (True, st') \<and> crowd (m_surv st1) + 2 \<le> SIZE_RING \<and> surv_wf (m_surv st')
     \<and> (E = {} \<longrightarrow> \<not> m_compMode st')"
  using assms(1-4)
proof (induction n arbitrary: k c st es ocs)
  case (Suc n)
  have room: "crowd (m_surv st) + 2 \<le> SIZE_RING"
    using Suc.prems(3) by (simp add: draining_def)
  obtain dead st1 where r: "main_round env st = Inr (dead, st1)" "draining E P s n st1"
    using round_drains [OF Suc.prems(3) env] by blast
  show ?case
  proof (cases dead)
    case True
    have "E = {} \<longrightarrow> \<not> m_compMode st1"
      using r(2) by (auto simp: draining_def main_ok_def pair_for_def orphan_of_def)
    with True r Suc.prems(4) room show ?thesis
      by (intro exI [of _ st] exI [of _ st1]) (simp add: draining_def main_ok_def flow_ok_def)
  next
    case False
    then obtain c' es' ocs' where "queued (True, False, False, c') st1 es' ocs'"
      "waiting (m_compMode st1) es' ocs' < n"
      using round_progress [OF _ Suc.prems(1), of env st1] r(1) Suc.prems(2) by fastforce
    from Suc.IH [OF this r(2) run_of.a_round [OF Suc.prems(4) r(1) room]] False r(1) show ?thesis
      by simp
  qed
qed simp

section \<open>From rest\<close>

text \<open>
  Calls that come to a daemon at rest and can all be entered: their ids have slots, and no parent
  of a process is known or among them.
\<close>

definition ids_fit :: "procindex \<Rightarrow> execCall list \<Rightarrow> openCall list \<Rightarrow> bool" where
  "ids_fit ix es ocs \<longleftrightarrow>
     (\<forall>e \<in> set es. ec_pid e + 1 < psize ix \<and> -1 \<le> ec_ppid e \<and> ec_ppid e + 1 \<noteq> psize ix
        \<and> pi_lookup ix (ec_ppid e) = None \<and> ec_ppid e \<notin> ec_pid ` set es \<and> ec_ppid e \<notin> oc_pid ` set ocs)
     \<and> (\<forall>oc \<in> set ocs. oc_pid oc + 1 < psize ix)"

definition calls_fit :: "procindex \<Rightarrow> execCall list \<Rightarrow> openCall list \<Rightarrow> bool" where
  "calls_fit ix es ocs \<longleftrightarrow> (\<forall>e \<in> set es. fresh_exec e) \<and> (\<forall>oc \<in> set ocs. fresh_open (maxPid ix) oc) \<and> ids_fit ix es ocs"

definition with_queues :: "'d main_state \<Rightarrow> execCall g_ringBuffer \<Rightarrow> openCall g_ringBuffer \<Rightarrow> 'd main_state" where
  "with_queues st cq oq = st\<lparr>m_surv := (m_surv st)\<lparr>sv_commandQueue := cq, sv_openQueue := oq\<rparr>\<rparr>"

lemma with_queues_flow:
  assumes st: "main_ok st" "\<not> m_compMode st" "queued fl st [] []"
    and q: "holds_list cq es" "holds_list oq ocs" and fit: "calls_fit (sv_procs (m_surv st)) es ocs"
  shows "main_ok (with_queues st cq oq)" "in_flight (with_queues st cq oq) = in_flight st + mset ocs" "queued fl (with_queues st cq oq) es ocs"
proof -
  have "queue_of fresh_exec cq" "queue_of (fresh_open (maxPid (sv_procs (m_surv st)))) oq"
    using q fit by (auto simp: queue_of_def holds_list_def calls_fit_def)
  with st show "main_ok (with_queues st cq oq)"
    by (simp add: with_queues_def main_ok_def)
  have "queue_calls (sv_openQueue (m_surv st)) = {#}" "queue_calls oq = mset ocs"
    using st(3) q(2) by (simp_all add: queued_def holds_list_def queue_calls_def comp_def)
  then show "in_flight (with_queues st cq oq) = in_flight st + mset ocs"
    by (simp add: with_queues_def in_flight_def between_def)
  show "queued fl (with_queues st cq oq) es ocs"
    using st(3) q by (simp add: with_queues_def queued_def flags_def)
qed

text \<open>The loop of a daemon that is told to stop with these calls in its queues.\<close>

lemma with_queues_drains:
  assumes st: "main_ok st" "\<not> m_compMode st" "queued (True, False, False, c) st [] []"
    and q: "holds_list cq es" "holds_list oq ocs" and fit: "calls_fit (sv_procs (m_surv st)) es ocs"
    and room: "length es + length ocs < n" "crowd (m_surv st) + 2 * n \<le> SIZE_RING" "size (in_flight st) + length ocs < 2 ^ 57"
      "boot_ok (sv_boot_time (m_surv st))"
    and run: "run_of env st0 arrived (with_queues st cq oq)"
    and env: "main_granted env" "\<forall>c k. good_dispatch (me_dispatch env c k)"
  shows "\<exists>st1 st'. main_loop env (\<lambda>_ sv. sv) k n (with_queues st cq oq) = Inr (True, st')
     \<and> run_of env st0 arrived st1 \<and> main_round env st1 = Inr (True, st') \<and> crowd (m_surv st1) + 2 \<le> SIZE_RING
     \<and> surv_wf (m_surv st') \<and> (es = [] \<longrightarrow> \<not> m_compMode st')"
proof -
  let ?ix = "sv_procs (m_surv st)" and ?st = "with_queues st cq oq"
  let ?E = "ec_pid ` set es"
  let ?P = "{p. pi_lookup ?ix p \<noteq> None} \<union> ?E \<union> oc_pid ` set ocs"
  note f = with_queues_flow [OF st q fit]
  have "0 \<le> p \<and> p + 1 < psize ?ix" if "p \<in> ?P" for p
    using that fit by (auto simp: calls_fit_def ids_fit_def fresh_exec_def fresh_open_def pi_lookup_def split: if_splits)
  then have "table_for ?P (psize ?ix) ?ix"
    by (simp add: table_for_def)
  moreover have "queues_for ?E ?P (psize ?ix) (m_surv ?st)"
    using q fit by (auto simp: queues_for_def with_queues_def holds_list_def orphan_of_def calls_fit_def ids_fit_def)
  ultimately have "draining ?E ?P (psize ?ix) n ?st"
    using f(1,2) st(2) room(2-4) by (simp add: draining_def with_queues_def crowd_def)
  from drain_loop [OF f(3) _ this run env, of k] st(2) room(1) show ?thesis
    by (simp add: waiting_def with_queues_def)
qed

end
