(* ===== verification/Found.thy ===== *)
theory Found
  imports Drain
begin

text \<open>
  From the sockets to the query: every open call that arrived is found by a search for its path. The
  theory joins the way of the open calls through memory (\<open>Flow\<close>) with storing and finding
  (\<open>Database\<close>): \<open>surv_database_dispatch\<close> of \<open>src/src/watchdog/src/watchdog.c\<close> and
  \<open>db_add_execCall\<close>, \<open>db_add_openCall\<close> and \<open>retrieveRecords_Path\<close> of
  \<open>src/src/watchdog/src/database.c\<close>.

  The database library is a parameter. \<open>library_laws\<close> states what it documents of \<open>DB_NOOVERWRITE\<close>,
  of \<open>get\<close> and of the secondary index, for a database in which nothing fails; \<open>list_store\<close> satisfies it.
\<close>

section \<open>The library\<close>

text \<open>The items that a search finds, and the open call records they are the bytes of.\<close>

definition found :: "'d bdb \<Rightarrow> 'd \<Rightarrow> char list \<Rightarrow> char list list" where
  "found ops db p = (case bdb_find_path ops db p of (c, items) \<Rightarrow> if c = 0 then items else [])"

definition decode :: "char list \<Rightarrow> oCallRecord" where
  "decode v = (case db_openCall_unmarshall (\<lambda>_. roomy) demo_open_record \<lparr>m_buffer = Some v, m_size = length v\<rparr> of
     Inr (_, r) \<Rightarrow> r | Inl _ \<Rightarrow> demo_open_record)"

lemma decode_image: "image_of r v \<Longrightarrow> decode v = r"
  using ocodec.unmarshall_image [of r "\<lambda>_. roomy" _ demo_open_record "[]" "length v"]
  by (auto simp: image_of_def decode_def oCall_fill_def)

definition open_records :: "'d bdb \<Rightarrow> 'd \<Rightarrow> char list \<Rightarrow> oCallRecord list" where
  "open_records ops db p = map decode (found ops db p)"

text \<open>
  \<open>keys\<close> are the keys in the database of open calls. A second record under a key is refused; what was
  put is found under equal keys, and in the secondary index under its path; nothing else changes.
\<close>

definition exec_laws :: "'d bdb \<Rightarrow> ('d \<Rightarrow> char list set) \<Rightarrow> bool" where
  "exec_laws ops keys \<longleftrightarrow> (\<forall>db k v. let db' = snd (bdb_put_exec ops db k v) in
     keys db' = keys db \<and> (\<forall>p. bdb_find_path ops db' p = bdb_find_path ops db p)
     \<and> (\<forall>k'. bdb_get_exec ops db' k' =
          (if fst (bdb_get_exec ops db k') \<noteq> 0 \<and> db_execCall_KeyComp k' k = Inr 0 then (0, Some v)
           else bdb_get_exec ops db k')))"

definition open_laws :: "'d bdb \<Rightarrow> ('d \<Rightarrow> char list set) \<Rightarrow> bool" where
  "open_laws ops keys \<longleftrightarrow> (\<forall>db k v. let db' = snd (bdb_put_open ops db k v) in
     keys db' = insert k (keys db) \<and> (\<forall>k'. bdb_get_exec ops db' k' = bdb_get_exec ops db k')
     \<and> (\<forall>p. mset (found ops db' p) =
          (if k \<notin> keys db \<and> db_openCalls_filepathCallback v = Inr p then {#v#} else {#}) + mset (found ops db p)))"

definition library_laws :: "'d bdb \<Rightarrow> ('d \<Rightarrow> char list set) \<Rightarrow> bool" where
  "library_laws ops keys \<longleftrightarrow> exec_laws ops keys \<and> open_laws ops keys"

lemma exec_lawsD:
  assumes "library_laws ops keys" "bdb_put_exec ops db k v = (c, db')"
  shows "keys db' = keys db" "bdb_find_path ops db' p = bdb_find_path ops db p"
    "bdb_get_exec ops db' k' = (if fst (bdb_get_exec ops db k') \<noteq> 0 \<and> db_execCall_KeyComp k' k = Inr 0
        then (0, Some v) else bdb_get_exec ops db k')"
  using assms(1) [unfolded library_laws_def exec_laws_def Let_def, THEN conjunct1, rule_format, of db k v] assms(2)
  by simp_all

lemma open_lawsD:
  assumes "library_laws ops keys" "bdb_put_open ops db k v = (c, db')" "k \<notin> keys db"
  shows "keys db' = insert k (keys db)" "bdb_get_exec ops db' k' = bdb_get_exec ops db k'"
    "mset (found ops db' p) = (if db_openCalls_filepathCallback v = Inr p then {#v#} else {#}) + mset (found ops db p)"
  using assms(1) [unfolded library_laws_def open_laws_def Let_def, THEN conjunct2, rule_format, of db k v] assms(2,3)
  by simp_all

lemma le_uint_range: "0 \<le> le_uint bs \<and> le_uint bs < 2 ^ (8 * length bs)"
proof (induction bs)
  case (Cons c cs)
  have "(of_char c :: int) = int (of_char c :: nat)"
    by (simp only: of_nat_of_char)
  then have "0 \<le> (of_char c :: int)" "(of_char c :: int) < 256"
    using nat_of_char_less_256 [of c] by linarith+
  with Cons show ?case by (simp add: power_add)
qed simp

lemma le_int_range:
  assumes "length bs = 4"
  shows "- (2 ^ 31) \<le> le_int bs \<and> le_int bs < 2 ^ 31"
  using le_uint_range [of bs] assms by (simp add: le_int_def Let_def)

lemma to_int32_zero:
  assumes "- (2 ^ 32) < x" "x < 2 ^ 32"
  shows "to_int32 x = 0 \<longleftrightarrow> x = 0"
proof
  assume "to_int32 x = 0"
  then have "(x + 2 ^ 31) mod 2 ^ 32 = (0 + 2 ^ 31) mod (2 ^ 32 :: int)"
    by (simp add: to_int32_def)
  then have "(2 ^ 32) dvd ((x + 2 ^ 31) - (0 + 2 ^ 31))"
    by (simp only: mod_eq_dvd_iff)
  then obtain k where "x = 2 ^ 32 * k"
    by (auto elim: dvdE)
  with assms show "x = 0" by auto
qed (simp add: to_int32_def)

lemma KeyComp_zero_iff:
  "db_execCall_KeyComp a b = Inr 0 \<longleftrightarrow> a = [] \<and> b = []
     \<or> 24 \<le> length a \<and> 24 \<le> length b \<and> get_eCallKey (take 24 a) = get_eCallKey (take 24 b)"
proof -
  have pid: "to_int32 (ek_pid (get_eCallKey (take 24 a)) - ek_pid (get_eCallKey (take 24 b))) = 0
      \<longleftrightarrow> ek_pid (get_eCallKey (take 24 a)) = ek_pid (get_eCallKey (take 24 b))"
    if "24 \<le> length a" "24 \<le> length b"
    using that le_int_range [of "take 4 (drop 16 (take 24 a))"] le_int_range [of "take 4 (drop 16 (take 24 b))"]
    by (subst to_int32_zero) (simp_all add: get_eCallKey_def)
  have eq: "x = y \<longleftrightarrow> ek_time_stamp x = ek_time_stamp y \<and> ek_pid x = ek_pid y" for x y :: db_eCallKey
    by (cases x; cases y) simp
  have irr: "\<not> timercmp x x (<)" "timercmp x y (<) \<Longrightarrow> \<not> timercmp y x (<)" for x y
    by (auto simp: timercmp_def split: if_splits)
  show ?thesis
    using pid irr same_stamp [of "ek_time_stamp (get_eCallKey (take 24 a))" "ek_time_stamp (get_eCallKey (take 24 b))"]
    by (auto simp: db_execCall_KeyComp_def read_at_def eq Let_def split: if_splits)
qed

lemma KeyComp_same_key:
  "eCallKey_ok a \<Longrightarrow> eCallKey_ok b \<Longrightarrow> db_execCall_KeyComp (eCallKey_bytes p a) (eCallKey_bytes q b) = Inr 0 \<longleftrightarrow> a = b"
  by (simp add: KeyComp_zero_iff) (metis length_eCallKey_bytes list.size(3) zero_neq_numeral)

section \<open>The keys of the open calls\<close>

text \<open>What of a key is defined: the time stamp and the end of the path. The rest is what the stack held.\<close>

definition key_tag :: "char list \<Rightarrow> timeval \<times> string" where
  "key_tag k = (get_timeval k, takeWhile (\<lambda>c. c \<noteq> NUL) (drop 16 k))"

definition record_tag :: "oCallRecord \<Rightarrow> timeval \<times> string" where
  "record_tag r = (or_time_stamp r, drop (length (the (or_filepath r)) - 99) (the (or_filepath r)))"

definition stamped :: "int \<Rightarrow> timeval \<Rightarrow> timeval" where
  "stamped boot tv = tv\<lparr>tv_sec := tv_sec tv + boot\<rparr>"

definition call_tag :: "int \<Rightarrow> openCall \<Rightarrow> timeval \<times> string" where
  "call_tag boot oc = (stamped boot (oc_time_stamp oc), drop (length (the (oc_filepath oc)) - 99) (the (oc_filepath oc)))"

lemma get_timeval_prefix: "timeval_ok tv \<Longrightarrow> get_timeval (put_timeval tv @ more_bytes) = tv"
  by (simp add: get_timeval_def put_timeval_def timeval_ok_def)

lemma key_tag_of:
  assumes "oCall_ok r"
  shows "key_tag (oCallKey_of pad key0 r) = record_tag r"
proof -
  obtain path where path: "or_filepath r = Some path" "NUL \<notin> set path" "timeval_ok (or_time_stamp r)"
    using assms by (auto simp: oCall_ok_def str_ok_def)
  have "NUL \<notin> set (drop n path)" for n
    using path(2) in_set_dropD by fast
  then have "takeWhile (\<lambda>c. c \<noteq> NUL) (drop n path @ NUL # ys) = drop n path" for n ys
    by (subst takeWhile_append2) auto
  then show ?thesis
    using path by (simp add: key_tag_def record_tag_def oCallKey_of_def get_timeval_prefix)
qed


lemma KeyComp_padding:
  "db_execCall_KeyComp (eCallKey_bytes p k) b = Inr 0 \<longleftrightarrow> db_execCall_KeyComp (eCallKey_bytes q k) b = Inr 0"
proof -
  have "get_eCallKey (eCallKey_bytes p k) = get_eCallKey (eCallKey_bytes q k)"
    by (simp add: get_eCallKey_def eCallKey_bytes_def get_timeval_def put_timeval_def)
  moreover have "eCallKey_bytes r k \<noteq> []" for r
    using length_eCallKey_bytes [of r k] by force
  ultimately show ?thesis by (simp add: KeyComp_zero_iff)
qed

section \<open>Databases and what is added to them\<close>

definition sound_db :: "'d bdb \<Rightarrow> 'd \<Rightarrow> bool" where
  "sound_db ops db \<longleftrightarrow> (\<forall>p. \<forall>v \<in> set (found ops db p). image_of (decode v) v)
     \<and> (\<forall>k v. bdb_get_exec ops db k = (0, v) \<longrightarrow> (\<exists>e pad. v = Some (eCall_image e) \<and> eCall_ok e
          \<and> length (eCall_image e) < 2 ^ 63 \<and> db_execCall_KeyComp k (eCallKey_bytes pad (db_execCall_genKey e)) = Inr 0))
     \<and> (\<forall>k p q. bdb_get_exec ops db (eCallKey_bytes p k) = bdb_get_exec ops db (eCallKey_bytes q k))"

lemma sound_get:
  assumes "sound_db ops db" "bdb_get_exec ops db k = (0, v)"
  obtains e pad where "v = Some (eCall_image e)" "eCall_ok e" "length (eCall_image e) < 2 ^ 63"
    "db_execCall_KeyComp k (eCallKey_bytes pad (db_execCall_genKey e)) = Inr 0"
  using assms(1) [unfolded sound_db_def, THEN conjunct2, THEN conjunct1, rule_format, OF assms(2)] by blast

definition known :: "'d bdb \<Rightarrow> 'd \<Rightarrow> db_eCallKey \<Rightarrow> bool" where
  "known ops db k \<longleftrightarrow> (\<forall>pad. fst (bdb_get_exec ops db (eCallKey_bytes pad k)) = 0)"

definition at_path :: "char list \<Rightarrow> oCallRecord \<Rightarrow> bool" where
  "at_path p r \<longleftrightarrow> the (or_filepath r) @ [NUL] = p"

definition grew :: "'d bdb \<Rightarrow> ('d \<Rightarrow> char list set) \<Rightarrow> 'd \<Rightarrow> oCallRecord list \<Rightarrow> 'd \<Rightarrow> bool" where
  "grew ops keys db rs db' \<longleftrightarrow> sound_db ops db'
     \<and> (\<forall>p. mset (open_records ops db' p) = mset (filter (at_path p) rs) + mset (open_records ops db p))
     \<and> key_tag ` keys db' = key_tag ` keys db \<union> record_tag ` set rs
     \<and> (\<forall>k. known ops db k \<longrightarrow> known ops db' k)"

lemma grew_none: "sound_db ops db \<Longrightarrow> grew ops keys db [] db"
  by (simp add: grew_def)

lemma grew_trans: "grew ops keys db rs db1 \<Longrightarrow> grew ops keys db1 rs' db2 \<Longrightarrow> grew ops keys db (rs @ rs') db2"
  by (auto simp: grew_def ac_simps image_Un)

lemma put_exec_grew:
  assumes laws: "library_laws ops keys" and db: "sound_db ops db" and e: "eCall_ok e" "length (eCall_image e) < 2 ^ 63"
    and put: "bdb_put_exec ops db (eCallKey_bytes pad (db_execCall_genKey e)) (eCall_image e) = (c, db')"
  shows "grew ops keys db [] db' \<and> known ops db' (db_execCall_genKey e)"
proof -
  let ?k = "eCallKey_bytes pad (db_execCall_genKey e)"
  note l = exec_lawsD [OF laws put]
  have same: "found ops db' p = found ops db p" for p
    by (simp add: found_def l(2))
  have "sound_db ops db'"
    unfolding sound_db_def same
  proof (intro conjI allI impI)
    show "\<forall>v \<in> set (found ops db p). image_of (decode v) v" for p
      using db by (simp add: sound_db_def)
  next
    fix k v
    assume "bdb_get_exec ops db' k = (0, v)"
    then have "v = Some (eCall_image e) \<and> db_execCall_KeyComp k ?k = Inr 0 \<or> bdb_get_exec ops db k = (0, v)"
      by (auto simp: l(3) split: if_splits)
    then show "\<exists>e pad. v = Some (eCall_image e) \<and> eCall_ok e \<and> length (eCall_image e) < 2 ^ 63
        \<and> db_execCall_KeyComp k (eCallKey_bytes pad (db_execCall_genKey e)) = Inr 0"
    proof
      assume "v = Some (eCall_image e) \<and> db_execCall_KeyComp k ?k = Inr 0"
      with e show ?thesis by (intro exI [of _ e] exI [of _ pad]) simp
    next
      assume "bdb_get_exec ops db k = (0, v)"
      with db show ?thesis by (simp add: sound_db_def)
    qed
  next
    fix k p q
    have "bdb_get_exec ops db (eCallKey_bytes p k) = bdb_get_exec ops db (eCallKey_bytes q k)"
      using db by (simp add: sound_db_def)
    then show "bdb_get_exec ops db' (eCallKey_bytes p k) = bdb_get_exec ops db' (eCallKey_bytes q k)"
      using KeyComp_padding [of p k ?k q] by (simp add: l(3))
  qed
  moreover have "known ops db' (db_execCall_genKey e)"
    using KeyComp_same [OF genKey_ok [OF e(1)]] by (auto simp: known_def l(3))
  ultimately show ?thesis
    by (simp add: grew_def open_records_def same l(1)) (simp add: known_def l(3))
qed

lemma put_open_grew:
  assumes laws: "library_laws ops keys" and db: "sound_db ops db" and r: "oCall_ok r" "length (oCall_image opad r) < 2 ^ 63"
    and new: "record_tag r \<notin> key_tag ` keys db"
    and put: "bdb_put_open ops db (oCallKey_of pad key0 r) (oCall_image opad r) = (c, db')"
  shows "grew ops keys db [r] db'"
proof -
  let ?k = "oCallKey_of pad key0 r" and ?v = "oCall_image opad r"
  have img: "image_of r ?v" using r by (auto simp: image_of_def)
  have k: "key_tag ?k = record_tag r" by (rule key_tag_of [OF r(1)])
  then have "?k \<notin> keys db" using new by force
  have cb: "db_openCalls_filepathCallback ?v = Inr p \<longleftrightarrow> at_path p r" for p
    using filepathCallback_image [OF r(1), of opad] by (simp add: at_path_def)
  note l = open_lawsD [OF laws put \<open>?k \<notin> keys db\<close>, unfolded cb]
  have "set (found ops db' p) \<subseteq> insert ?v (set (found ops db p))" for p
    using arg_cong [OF l(3) [of p], of set_mset] by auto
  then have "sound_db ops db'"
    using db img decode_image [OF img] unfolding sound_db_def l(2) by fastforce
  moreover have "mset (open_records ops db' p) = mset (filter (at_path p) [r]) + mset (open_records ops db p)" for p
    using l(3) [of p] decode_image [OF img] by (simp add: open_records_def)
  ultimately show ?thesis
    by (simp add: grew_def l(1) k) (simp add: known_def l(2))
qed

lemma put_opens_grew:
  assumes laws: "library_laws ops keys" and env: "good_dispatch env"
    and "sound_db ops db" "\<forall>r \<in> set rs. oCall_ok r \<and> length (oCall_image (de_pad env) r) < 2 ^ 63"
    "distinct (map record_tag rs)" "record_tag ` set rs \<inter> key_tag ` keys db = {}"
  shows "grew ops keys db rs (snd (put_opens ops env i rs (c, db)))"
  using assms(3-)
proof (induction rs arbitrary: i c db)
  case Nil
  then show ?case by (simp add: grew_none)
next
  case (Cons r rs)
  obtain c1 db1 where put: "bdb_put_open ops db (oCallKey_of (de_key_pad env) (de_key env i) r)
      (oCall_image (de_pad env) r) = (c1, db1)"
    by (cases "bdb_put_open ops db (oCallKey_of (de_key_pad env) (de_key env i) r) (oCall_image (de_pad env) r)")
  have one: "grew ops keys db [r] db1"
    using Cons.prems by (intro put_open_grew [OF laws _ _ _ _ put]) auto
  then have "grew ops keys db1 rs (snd (put_opens ops env (i + 1) rs (c1, db1)))"
    using Cons.prems by (intro Cons.IH) (auto simp: grew_def)
  from grew_trans [OF one this] put show ?case by simp
qed

section \<open>Storing what was handed over\<close>

definition opens_of :: "int \<Rightarrow> execCall \<Rightarrow> oCallRecord list" where
  "opens_of boot e = map (dispatch_open_record boot (dispatch_record boot e)) (calls_of e)"

lemma record_tags:
  "map record_tag (opens_of boot e) = map (call_tag boot) (calls_of e)"
  "record_tag ` set (opens_of boot e) = call_tag boot ` set (calls_of e)"
proof -
  show "map record_tag (opens_of boot e) = map (call_tag boot) (calls_of e)"
    by (simp add: opens_of_def record_tag_def call_tag_def dispatch_open_record_def stamped_def)
  from arg_cong [OF this, of set] show "record_tag ` set (opens_of boot e) = call_tag boot ` set (calls_of e)"
    by simp
qed

lemma dispatch_grew:
  assumes laws: "library_laws ops keys" and env: "good_dispatch env" and e: "record_ok e" "calls_wf e" and boot: "boot_ok boot"
    and db: "sound_db ops db" "distinct (map (call_tag boot) (calls_of e))"
      "call_tag boot ` set (calls_of e) \<inter> key_tag ` keys db = {}"
  shows "\<exists>r db'. surv_database_dispatch ops env boot db e = Inr (r, db') \<and> grew ops keys db (opens_of boot e) db'
     \<and> known ops db' (db_execCall_genKey (dispatch_record boot e))"
proof -
  let ?r = "dispatch_record boot e" and ?rs = "opens_of boot e"
  let ?k = "eCallKey_bytes (de_pad env) (db_execCall_genKey ?r)"
  note s = record_storable [OF e(1) boot]
  obtain c db1 where put: "bdb_put_exec ops db ?k (eCall_image ?r) = (c, db1)"
    by (cases "bdb_put_exec ops db ?k (eCall_image ?r)")
  have one: "grew ops keys db [] db1" "known ops db1 (db_execCall_genKey ?r)"
    using put_exec_grew [OF laws db(1) s(1,2) put] by simp_all
  then have "grew ops keys db1 ?rs (snd (put_opens ops env 0 ?rs (c, db1)))"
  proof (intro put_opens_grew [OF laws env])
    show "\<forall>r \<in> set ?rs. oCall_ok r \<and> length (oCall_image (de_pad env) r) < 2 ^ 63"
      using s(3) by (auto simp: opens_of_def)
  qed (use one db(2,3) in \<open>simp_all add: grew_def record_tags\<close>)
  from one grew_trans [OF one(1) this] this
  have "grew ops keys db ?rs (snd (put_opens ops env 0 ?rs (c, db1)))
      \<and> known ops (snd (put_opens ops env 0 ?rs (c, db1))) (db_execCall_genKey ?r)"
    by (simp add: grew_def)
  moreover have "surv_database_dispatch ops env boot db e = Inr (put_opens ops env 0 ?rs (c, db1))"
    using dispatch_puts [OF env e(2) s(1,2), of ops db] s(3) put by (simp add: opens_of_def)
  ultimately show ?thesis
    by (metis prod.collapse)
qed

text \<open>All that is handed over, in the order in which it is stored.\<close>

definition all_opens :: "int \<Rightarrow> execCall list \<Rightarrow> oCallRecord list" where
  "all_opens boot es = concat (map (opens_of boot) es)"

definition all_tags :: "int \<Rightarrow> execCall list \<Rightarrow> (timeval \<times> string) list" where
  "all_tags boot es = map (call_tag boot) (concat (map calls_of es))"

lemma all_opens_simps [simp]:
  "all_opens boot [] = []" "all_opens boot (e # es) = opens_of boot e @ all_opens boot es"
  "all_opens boot (es @ fs) = all_opens boot es @ all_opens boot fs"
  "all_tags boot [] = []" "all_tags boot (e # es) = map (call_tag boot) (calls_of e) @ all_tags boot es"
  "all_tags boot (es @ fs) = all_tags boot es @ all_tags boot fs"
  by (simp_all add: all_opens_def all_tags_def)

lemma record_tags_all: "record_tag ` set (all_opens boot es) = set (all_tags boot es)"
  by (simp add: all_opens_def all_tags_def image_UN record_tags)

definition stores :: "'d bdb \<Rightarrow> ('d \<Rightarrow> char list set) \<Rightarrow> int \<Rightarrow> execCall list \<Rightarrow> 'd \<Rightarrow> 'd \<Rightarrow> bool" where
  "stores ops keys boot es db db' \<longleftrightarrow> grew ops keys db (all_opens boot es) db'
     \<and> (\<forall>e \<in> set es. known ops db' (db_execCall_genKey (dispatch_record boot e)))"

lemma stores_append:
  "stores ops keys boot es db db1 \<Longrightarrow> stores ops keys boot fs db1 db2 \<Longrightarrow> stores ops keys boot (es @ fs) db db2"
  using grew_trans by (fastforce simp: stores_def grew_def)

lemma store_all_stores:
  assumes laws: "library_laws (me_ops env) keys" and env: "\<forall>k. good_dispatch (me_dispatch env c k)" and boot: "boot_ok boot"
    and "\<forall>e \<in> set es. record_ok e \<and> calls_wf e" "sound_db (me_ops env) db" "distinct (all_tags boot es)"
      "set (all_tags boot es) \<inter> key_tag ` keys db = {}"
  shows "\<exists>db'. store_all env c i boot es db = Inr db' \<and> stores (me_ops env) keys boot es db db'"
  using assms(4-)
proof (induction es arbitrary: i db)
  case Nil
  then show ?case by (simp add: stores_def grew_none)
next
  case (Cons e es)
  obtain r db1 where d: "surv_database_dispatch (me_ops env) (me_dispatch env c i) boot db e = Inr (r, db1)"
    "grew (me_ops env) keys db (opens_of boot e) db1" "known (me_ops env) db1 (db_execCall_genKey (dispatch_record boot e))"
    using dispatch_grew [OF laws spec [OF env] _ _ boot Cons.prems(2), of e i] Cons.prems by auto
  have one: "stores (me_ops env) keys boot [e] db db1"
    using d by (simp add: stores_def)
  have "set (all_tags boot es) \<inter> key_tag ` keys db1 = {}"
    using d(2) Cons.prems(3,4) by (auto simp: grew_def record_tags)
  then obtain db2 where "store_all env c (i + 1) boot es db1 = Inr db2" "stores (me_ops env) keys boot es db1 db2"
    using Cons.IH [of db1 "i + 1"] Cons.prems d(2) by (auto simp: grew_def)
  with d(1) stores_append [OF one] show ?case by simp
qed

lemma handed_stores:
  assumes "handed env boot db es db'"
    and laws: "library_laws (me_ops env) keys" and env: "\<forall>c k. good_dispatch (me_dispatch env c k)" and boot: "boot_ok boot"
    and "\<forall>e \<in> set es. record_ok e \<and> calls_wf e" "sound_db (me_ops env) db" "distinct (all_tags boot es)"
      "set (all_tags boot es) \<inter> key_tag ` keys db = {}"
  shows "stores (me_ops env) keys boot es db db'"
  using assms(1,5-)
proof (induction rule: handed.induct)
  case (none db)
  then show ?case by (simp add: stores_def grew_none)
next
  case (batch db es db1 c es' db2)
  have one: "stores (me_ops env) keys boot es db db1"
    using batch.prems by (intro batch.IH) auto
  have "set (all_tags boot es') \<inter> key_tag ` keys db1 = {}" "sound_db (me_ops env) db1"
    using one batch.prems(3,4) by (auto simp: stores_def grew_def record_tags_all)
  with store_all_stores [OF laws _ boot, of c es' db1 0] env batch.prems(1,3) batch.hyps(2)
  have "stores (me_ops env) keys boot es' db1 db2" by auto
  with stores_append [OF one] show ?case .
qed

section \<open>Searching\<close>

lemma sound_look:
  assumes "sound_db ops db"
  obtains look where "\<And>pad. finds ops db pad look"
    "\<And>k e. look k = Some e \<Longrightarrow> eCallKey_ok k \<Longrightarrow> db_execCall_genKey e = k"
    "\<And>k. known ops db k \<Longrightarrow> look k \<noteq> None"
proof -
  let ?get = "\<lambda>k. bdb_get_exec ops db (eCallKey_bytes (\<lambda>_. NUL) k)"
  let ?at = "\<lambda>k e. ?get k = (0, Some (eCall_image e)) \<and> eCall_ok e \<and> length (eCall_image e) < 2 ^ 63
      \<and> (eCallKey_ok k \<longrightarrow> db_execCall_genKey e = k)"
  have pad: "bdb_get_exec ops db (eCallKey_bytes p k) = ?get k" for p k
    using assms by (simp add: sound_db_def)
  have "\<exists>e. ?at k e" if hit: "fst (?get k) = 0" for k
  proof -
    obtain v where v: "?get k = (0, v)" using hit by (metis prod.collapse)
    then obtain e q where e: "v = Some (eCall_image e)" "eCall_ok e" "length (eCall_image e) < 2 ^ 63"
      "db_execCall_KeyComp (eCallKey_bytes (\<lambda>_. NUL) k) (eCallKey_bytes q (db_execCall_genKey e)) = Inr 0"
      using sound_get [OF assms v] by blast
    then have "eCallKey_ok k \<longrightarrow> db_execCall_genKey e = k"
      using KeyComp_same_key [of k "db_execCall_genKey e" "\<lambda>_. NUL" q] genKey_ok [OF e(2)] by auto
    with v e show ?thesis by blast
  qed
  then obtain rec where rec: "\<And>k. fst (?get k) = 0 \<Longrightarrow> ?at k (rec k)" by metis
  show ?thesis
  proof (rule that [of "\<lambda>k. if fst (?get k) = 0 then Some (rec k) else None"])
    show "finds ops db p (\<lambda>k. if fst (?get k) = 0 then Some (rec k) else None)" for p
      using rec by (auto simp: finds_def pad [of p])
  next
    show "db_execCall_genKey e = k" if "(if fst (?get k) = 0 then Some (rec k) else None) = Some e" "eCallKey_ok k" for k e
      using that rec [of k] by (simp split: if_splits)
  qed (simp add: known_def)
qed

definition process_found :: "db_full_Record \<Rightarrow> bool" where
  "process_found f \<longleftrightarrow> (\<exists>p. vec_list (fr_execCalls f) = [Some p] \<and> er_pid p = ek_pid (or_eCallKey (fr_openCall f)))"

lemma search_finds:
  assumes db: "sound_db ops db" and env: "\<forall>k. good_retrieve (renv k)" and list: "vec_wf recordList" "vec_list recordList = []"
    and path: "NUL \<notin> set path" and few: "length (found ops db (path @ [NUL])) < 2 ^ 58"
  shows "\<exists>c list' fs. retrieveRecords_Path ops renv recordList db (c_block path) = Inr (c, list') \<and> (c = 0 \<or> fs = [])
     \<and> vec_list list' = map Some fs \<and> map fr_openCall fs = open_records ops db (path @ [NUL])
     \<and> (\<forall>f \<in> set fs. known ops db (or_eCallKey (fr_openCall f)) \<longrightarrow> ek_pid (or_eCallKey (fr_openCall f)) \<noteq> 0
          \<longrightarrow> process_found f)"
proof -
  let ?p = "path @ [NUL]"
  obtain c items where find: "bdb_find_path ops db ?p = (c, items)"
    by (cases "bdb_find_path ops db ?p")
  have run: "retrieveRecords_Path ops renv recordList db (c_block path)
      = (if c \<noteq> 0 then Inr (c, recordList) else retrieve_items ops db renv 0 items 0 recordList)"
    using path find by (simp add: retrieveRecords_Path_def)
  show ?thesis
  proof (cases "c = 0")
    case False
    with run list find show ?thesis by (simp add: open_records_def found_def)
  next
    case True
    then have items: "items = found ops db ?p" using find by (simp add: found_def)
    obtain look where look: "\<And>pad. finds ops db pad look"
      "\<And>k e. look k = Some e \<Longrightarrow> eCallKey_ok k \<Longrightarrow> db_execCall_genKey e = k"
      "\<And>k. known ops db k \<Longrightarrow> look k \<noteq> None"
      using sound_look [OF db] by blast
    have images: "\<forall>v \<in> set items. image_of (decode v) v"
      using db unfolding items sound_db_def by blast
    then have "list_all2 image_of (open_records ops db ?p) items"
      by (simp add: open_records_def items list_all2_conv_all_nth)
    moreover have "\<forall>k. finds ops db (re_pad (renv k)) look" using look(1) by simp
    ultimately obtain list' fs where
      r: "retrieve_items ops db renv 0 items 0 recordList = Inr (0, list')" "vec_list list' = map Some fs"
      "list_all2 (full_of look) (open_records ops db ?p) fs"
      using retrieve_images [where k = 0 and ret = 0, OF env _ _ list(1), of ops db look "open_records ops db ?p" items]
        list(2) few items by (auto simp: open_records_def)
    have opens: "map fr_openCall fs = open_records ops db ?p"
      using r(3) by (auto simp: list_all2_conv_all_nth full_of_def intro: nth_equalityI)
    have "process_found f" if f: "f \<in> set fs" "known ops db (or_eCallKey (fr_openCall f))"
      "ek_pid (or_eCallKey (fr_openCall f)) \<noteq> 0" for f
    proof -
      let ?k = "or_eCallKey (fr_openCall f)"
      obtain r where full: "full_of look r f" "r = fr_openCall f"
        using f(1) r(3) by (auto simp: in_set_conv_nth list_all2_conv_all_nth full_of_def)
      have "fr_openCall f \<in> set (open_records ops db ?p)"
        using f(1) opens by (metis image_eqI set_map)
      then have "oCall_ok (fr_openCall f)"
        using images by (auto simp: open_records_def items image_of_def)
      then have k: "eCallKey_ok ?k" by (simp add: oCall_ok_def)
      obtain e where e: "look ?k = Some e" using look(3) [OF f(2)] by auto
      then have "er_pid e = ek_pid ?k"
        using arg_cong [OF look(2) [OF e k], of ek_pid] by (simp add: db_execCall_genKey_def)
      with full e f(3) show ?thesis
        by (simp add: process_found_def full_of_def chain_of_def)
    qed
    with run True r(1,2) opens show ?thesis by auto
  qed
qed

section \<open>Every open call is found\<close>

text \<open>What identifies an open call, as it arrived and as it is found.\<close>

definition call_view :: "int \<Rightarrow> openCall \<Rightarrow> int \<times> timeval \<times> int" where
  "call_view boot oc = (oc_flag oc, stamped boot (oc_time_stamp oc), oc_pid oc)"

definition record_view :: "oCallRecord \<Rightarrow> int \<times> timeval \<times> int" where
  "record_view r = (or_flag r, or_time_stamp r, ek_pid (or_eCallKey r))"

definition calls_at :: "string \<Rightarrow> openCall multiset \<Rightarrow> openCall multiset" where
  "calls_at path M = filter_mset (\<lambda>oc. oc_filepath oc = Some path) M"

lemma opens_views:
  assumes "record_ok e"
  shows "image_mset record_view (mset (filter (at_path (path @ [NUL])) (opens_of boot e)))
     = image_mset (call_view boot) (calls_at path (mset (calls_of e)))"
proof -
  let ?rec = "dispatch_open_record boot (dispatch_record boot e)"
  have calls: "\<forall>oc \<in> set (calls_of e). oc_pid oc = ec_pid e \<and> oc_filepath oc \<noteq> None"
    using assms by (auto simp: record_ok_def tidy_open_def short_def str_ok_def)
  have "mset (map record_view (filter (at_path (path @ [NUL])) (map ?rec ocs)))
      = image_mset (call_view boot) (calls_at path (mset ocs))" if "set ocs \<subseteq> set (calls_of e)" for ocs
    using that
  proof (induction ocs)
    case (Cons oc ocs)
    then have "record_view (?rec oc) = call_view boot oc"
      "at_path (path @ [NUL]) (?rec oc) \<longleftrightarrow> oc_filepath oc = Some path"
      using calls by (auto simp: record_view_def call_view_def stamped_def at_path_def dispatch_open_record_def
          db_execCall_genKey_def dispatch_record_def)
    with Cons show ?case by (simp add: calls_at_def)
  qed (simp add: calls_at_def)
  from this [of "calls_of e"] show ?thesis
    by (simp add: opens_of_def)
qed

lemma all_opens_views:
  "\<forall>e \<in> set es. record_ok e \<Longrightarrow> image_mset record_view (mset (filter (at_path (path @ [NUL])) (all_opens boot es)))
     = image_mset (call_view boot) (calls_at path (calls_handed es))"
proof (induction es)
  case (Cons e es)
  then show ?case
    using opens_views [of e path boot] by (simp add: calls_handed_def calls_at_def)
qed (simp add: calls_at_def)

lemma stored_calls_found:
  assumes st: "stores ops keys boot es db db'" and ok: "\<forall>e \<in> set es. record_ok e"
    and env: "\<forall>k. good_retrieve (renv k)" and list: "vec_wf recordList" "vec_list recordList = []"
    and path: "NUL \<notin> set path" and few: "length (found ops db (path @ [NUL])) + size (calls_handed es) < 2 ^ 58"
  shows "\<exists>c list' fs. retrieveRecords_Path ops renv recordList db' (c_block path) = Inr (c, list') \<and> (c = 0 \<or> fs = [])
     \<and> vec_list list' = map Some fs
     \<and> mset (map (record_view \<circ> fr_openCall) fs) = image_mset (call_view boot) (calls_at path (calls_handed es))
          + mset (map record_view (open_records ops db (path @ [NUL])))
     \<and> (\<forall>f \<in> set fs. fr_openCall f \<in> set (open_records ops db (path @ [NUL])) \<or> process_found f)"
proof -
  let ?p = "path @ [NUL]"
  have g: "sound_db ops db'" "mset (open_records ops db' ?p)
      = mset (filter (at_path ?p) (all_opens boot es)) + mset (open_records ops db ?p)"
    using st by (simp_all add: stores_def grew_def)
  have views: "image_mset record_view (mset (filter (at_path ?p) (all_opens boot es)))
      = image_mset (call_view boot) (calls_at path (calls_handed es))"
    by (rule all_opens_views [OF ok])
  have "length (filter (at_path ?p) (all_opens boot es)) = size (calls_at path (calls_handed es))"
    using arg_cong [OF views, of size] by (simp only: size_image_mset size_mset)
  also have "\<dots> \<le> size (calls_handed es)"
    by (simp add: calls_at_def size_filter_mset_lesseq)
  finally have "length (found ops db' ?p) < 2 ^ 58"
    using arg_cong [OF g(2), of size] few by (simp add: open_records_def del: mset_filter)
  from search_finds [OF g(1) env list path this] obtain c list' fs where
    r: "retrieveRecords_Path ops renv recordList db' (c_block path) = Inr (c, list') \<and> (c = 0 \<or> fs = [])"
    "vec_list list' = map Some fs"
    "map fr_openCall fs = open_records ops db' ?p"
    "\<forall>f \<in> set fs. known ops db' (or_eCallKey (fr_openCall f)) \<longrightarrow> ek_pid (or_eCallKey (fr_openCall f)) \<noteq> 0
       \<longrightarrow> process_found f"
    by blast
  have "mset (map (record_view \<circ> fr_openCall) fs) = image_mset record_view (mset (open_records ops db' ?p))"
    unfolding r(3) [symmetric] by (simp add: multiset.map_comp)
  then have all: "mset (map (record_view \<circ> fr_openCall) fs)
      = image_mset (call_view boot) (calls_at path (calls_handed es)) + mset (map record_view (open_records ops db ?p))"
    using g(2) views by simp
  have "fr_openCall f \<in> set (open_records ops db ?p) \<or> process_found f" if f: "f \<in> set fs" for f
  proof -
    have "fr_openCall f \<in># mset (open_records ops db' ?p)"
      using f r(3) by (metis image_eqI set_map set_mset_mset)
    then consider "fr_openCall f \<in> set (open_records ops db ?p)" | "fr_openCall f \<in> set (all_opens boot es)"
      unfolding g(2) by auto
    then show ?thesis
    proof cases
      case 2
      then obtain e where "e \<in> set es" "or_eCallKey (fr_openCall f) = db_execCall_genKey (dispatch_record boot e)"
        by (auto simp: all_opens_def opens_of_def dispatch_open_record_def)
      then have "known ops db' (or_eCallKey (fr_openCall f))" "ek_pid (or_eCallKey (fr_openCall f)) \<noteq> 0"
        using st ok by (auto simp: stores_def record_ok_def db_execCall_genKey_def dispatch_record_def)
      with r(4) f show ?thesis by blast
    qed simp
  qed
  with r(1,2) all show ?thesis by blast
qed

lemma loop_found:
  assumes run: "run_of env st0 ocs st" "main_round env st = Inr (True, st')" "crowd (m_surv st) + 2 \<le> SIZE_RING"
    and start: "main_ok st0" "main_granted env" "size (in_flight st0) + length ocs < 2 ^ 57"
      "boot = sv_boot_time (m_surv st0)" "boot_ok boot"
    and fresh: "in_flight st0 + mset ocs = mset all" "distinct (map (call_tag boot) all)"
      "call_tag boot ` set all \<inter> key_tag ` keys (m_db st0) = {}"
    and lib: "library_laws (me_ops env) keys" "sound_db (me_ops env) (m_db st0)" "\<forall>c k. good_dispatch (me_dispatch env c k)"
    and search: "\<forall>k. good_retrieve (renv k)" "vec_wf recordList" "vec_list recordList = []" "NUL \<notin> set path"
      "length (found (me_ops env) (m_db st0) (path @ [NUL])) < 2 ^ 57"
  shows "\<exists>c list' fs. retrieveRecords_Path (me_ops env) renv recordList (m_db st') (c_block path) = Inr (c, list')
     \<and> (c = 0 \<or> fs = []) \<and> vec_list list' = map Some fs
     \<and> mset (map (record_view \<circ> fr_openCall) fs) = image_mset (call_view boot) (calls_at path (in_flight st0 + mset ocs - between st'))
          + mset (map record_view (open_records (me_ops env) (m_db st0) (path @ [NUL])))
     \<and> (\<forall>f \<in> set fs. fr_openCall f \<in> set (open_records (me_ops env) (m_db st0) (path @ [NUL])) \<or> process_found f)
     \<and> between st' \<subseteq># in_flight st0 + mset ocs \<and> size (between st') \<le> 1"
proof -
  let ?all = "in_flight st0 + mset ocs"
  obtain es where es: "handed env boot (m_db st0) es (m_db st')" "?all = between st' + calls_handed es"
    "\<forall>e \<in> set es. record_ok e \<and> calls_wf e"
    using last_hands_over [OF run(1) start(1-3) run(2,3)] start(4) by auto
  then have handed: "calls_handed es = ?all - between st'" "between st' \<subseteq># ?all" by simp_all
  obtain bs where bs: "between st' = mset bs" using ex_mset by metis
  have tags: "mset (map (call_tag boot) all) = mset (map (call_tag boot) bs @ all_tags boot es)"
    using es(2) fresh(1) bs by (simp add: calls_handed_def all_tags_def flip: image_mset_union)
  have "distinct (map (call_tag boot) bs @ all_tags boot es)" "set (map (call_tag boot) bs @ all_tags boot es) = call_tag boot ` set all"
    using fresh(2) mset_eq_imp_distinct_iff [OF tags] mset_eq_setD [OF tags] by simp_all
  then have "distinct (all_tags boot es)" "set (all_tags boot es) \<subseteq> call_tag boot ` set all"
    by auto
  then have "stores (me_ops env) keys boot es (m_db st0) (m_db st')"
    using handed_stores [OF es(1) lib(1,3) start(5) es(3) lib(2)] fresh(3) by blast
  moreover have "size (calls_handed es) < 2 ^ 57"
    using start(3) arg_cong [OF es(2), of size] by simp
  ultimately obtain c list' fs where
    "retrieveRecords_Path (me_ops env) renv recordList (m_db st') (c_block path) = Inr (c, list') \<and> (c = 0 \<or> fs = [])"
    "vec_list list' = map Some fs"
    "mset (map (record_view \<circ> fr_openCall) fs) = image_mset (call_view boot) (calls_at path (calls_handed es))
      + mset (map record_view (open_records (me_ops env) (m_db st0) (path @ [NUL])))"
    "\<forall>f \<in> set fs. fr_openCall f \<in> set (open_records (me_ops env) (m_db st0) (path @ [NUL])) \<or> process_found f"
    using stored_calls_found [OF _ _ search(1-4), of "me_ops env" keys boot es "m_db st0" "m_db st'"] es(3) search(5) by fastforce
  moreover have "size (between st') \<le> 1"
    by (simp add: between_def split: option.splits)
  ultimately show ?thesis
    using handed by auto
qed

section \<open>A library that keeps its laws\<close>

text \<open>The two lists of \<open>list_store\<close> satisfy the laws; its keys are those of the second list.\<close>

definition list_keys :: "list_db \<Rightarrow> char list set" where
  "list_keys db = fst ` set (snd db)"

lemma list_store_get:
  "bdb_get_exec list_store db k = (let es = filter (\<lambda>e. db_execCall_KeyComp k (fst e) = Inr 0) (fst db) in
     if es = [] then (-30988, None) else (0, Some (snd (hd es))))"
  by (simp add: list_store_def split: list.splits)

lemma KeyComp_trans:
  "db_execCall_KeyComp a b = Inr 0 \<Longrightarrow> db_execCall_KeyComp b c = Inr 0 \<longleftrightarrow> db_execCall_KeyComp a c = Inr 0"
  by (auto simp: KeyComp_zero_iff)

lemma list_store_found:
  "found list_store db p = map snd (filter (\<lambda>e. db_openCalls_filepathCallback (snd e) = Inr p) (snd db))"
  by (simp add: found_def list_store_find Let_def)

lemma list_store_laws: "library_laws list_store list_keys"
proof -
  have "exec_laws list_store list_keys"
    unfolding exec_laws_def Let_def
  proof (intro allI conjI)
    fix db :: list_db and k v k'
    let ?db' = "snd (bdb_put_exec list_store db k v)"
    show "list_keys ?db' = list_keys db" "bdb_find_path list_store ?db' p = bdb_find_path list_store db p" for p
      by (simp_all add: list_store_find list_keys_def) (simp_all add: list_store_def)
    show "bdb_get_exec list_store ?db' k' =
      (if fst (bdb_get_exec list_store db k') \<noteq> 0 \<and> db_execCall_KeyComp k' k = Inr 0 then (0, Some v)
       else bdb_get_exec list_store db k')"
    proof (cases "\<exists>e \<in> set (fst db). db_execCall_KeyComp k (fst e) = Inr 0")
      case True
      then have "?db' = db" by (simp add: list_store_def)
      moreover have "fst (bdb_get_exec list_store db k') = 0" if same: "db_execCall_KeyComp k' k = Inr 0"
        using True KeyComp_trans [OF same] by (auto simp: list_store_get Let_def filter_empty_conv)
      ultimately show ?thesis by auto
    next
      case False
      then have db': "?db' = ((k, v) # fst db, snd db)" by (simp add: list_store_def)
      show ?thesis
      proof (cases "db_execCall_KeyComp k' k = Inr 0")
        case same: True
        then have "filter (\<lambda>e. db_execCall_KeyComp k' (fst e) = Inr 0) (fst db) = []"
          using False KeyComp_trans [OF same] by (simp add: filter_empty_conv)
        with same show ?thesis by (simp add: list_store_get db' Let_def)
      next
        case other: False
        then show ?thesis by (simp add: list_store_get db' Let_def)
      qed
    qed
  qed
  moreover have "open_laws list_store list_keys"
    unfolding open_laws_def Let_def list_store_found by (auto simp: list_store_def list_keys_def)
  ultimately show ?thesis by (simp add: library_laws_def)
qed

lemma empty_store: "sound_db list_store ([], [])" "found list_store ([], []) p = []" "list_keys ([], []) = {}"
  by (simp_all add: sound_db_def list_store_found list_store_get list_keys_def)

lemma demo_env_good: "\<forall>c k. good_dispatch (me_dispatch demo_main_env c k)" "me_ops demo_main_env = list_store"
  using demo_dispatch_good by (simp_all add: demo_main_env_def)

section \<open>Properties\<close>

text \<open>
  C2: Every open call that reaches the daemon is found. Rounds of the main loop take place while
  the parser threads go on writing open calls and processes to the queues and the flags change,
  in any order; after the last round a search for a path finds exactly the open calls that
  arrived with that path, each once, under the id of its process and with the record of that
  process, besides what was stored for the path before. The one exception is an open call that
  is still compared with a process when the loop ends: no more than that one is lost. Every
  round returns and finds room in the dispatch queue, memory is granted, the library keeps its
  documented laws, and no two calls agree in time and the last 99 characters of their paths.
\<close>

theorem every_open_call_found:
  assumes run: "run_of env st0 ocs st" "main_round env st = Inr (True, st')" "crowd (m_surv st) + 2 \<le> SIZE_RING"
    and start: "main_ok st0" "main_granted env" "size (in_flight st0) + length ocs < 2 ^ 57"
      "boot = sv_boot_time (m_surv st0)" "boot_ok boot"
    and fresh: "in_flight st0 + mset ocs = mset all" "distinct (map (call_tag boot) all)"
      "call_tag boot ` set all \<inter> key_tag ` keys (m_db st0) = {}"
    and lib: "library_laws (me_ops env) keys" "sound_db (me_ops env) (m_db st0)" "\<forall>c k. good_dispatch (me_dispatch env c k)"
    and search: "\<forall>k. good_retrieve (renv k)" "vec_wf recordList" "vec_list recordList = []" "NUL \<notin> set path"
      "length (found (me_ops env) (m_db st0) (path @ [NUL])) < 2 ^ 57"
  shows "\<exists>c list' fs. retrieveRecords_Path (me_ops env) renv recordList (m_db st') (c_block path) = Inr (c, list')
     \<and> (c = 0 \<or> fs = []) \<and> vec_list list' = map Some fs
     \<and> mset (map (record_view \<circ> fr_openCall) fs) = image_mset (call_view boot) (calls_at path (in_flight st0 + mset ocs - between st'))
          + mset (map record_view (open_records (me_ops env) (m_db st0) (path @ [NUL])))
     \<and> (\<forall>f \<in> set fs. fr_openCall f \<in> set (open_records (me_ops env) (m_db st0) (path @ [NUL])) \<or> process_found f)
     \<and> between st' \<subseteq># in_flight st0 + mset ocs \<and> size (between st') \<le> 1"
  using loop_found [OF assms] .


lemma demo_queue: "queued (True, False, False, 1) (demo_main [] ocs) [] ocs" if "holds_list (ring_of ocs) ocs"
  using that ring_of_one(2) by (simp add: queued_def demo_main_def flags_def demo_surv_def)

theorem every_open_call_found_witness:
  "\<exists>st st' c list' fs. run_of demo_main_env (demo_main [] []) [demo_touch] st \<and> main_round demo_main_env st = Inr (True, st')
     \<and> retrieveRecords_Path list_store (\<lambda>_. demo_retrieve) demo_list (m_db st') (c_block ''/tmp'') = Inr (c, list') \<and> (c = 0 \<or> fs = [])
     \<and> vec_list list' = map Some fs \<and> mset (map (record_view \<circ> fr_openCall) fs) = {#call_view 100 demo_touch#}
     \<and> (\<forall>f \<in> set fs. process_found f)"
proof -
  let ?start = "demo_main [] []" and ?st = "demo_main [] [demo_touch]"
  have d: "sv_boot_time (m_surv ?start) = 100" "m_db ?start = ([], [])" "maxPid (sv_procs (m_surv ?start)) = 20"
    "\<not> m_compMode ?start"
    by (simp_all add: demo_main_def demo_surv_def demo_index_def)
  have come: "run_of demo_main_env ?start ([] @ [demo_touch]) ((demo_main [] [])\<lparr>m_surv := (m_surv ?start)\<lparr>sv_openQueue := ring_of [demo_touch]\<rparr>\<rparr>)"
    using demo_touch_fresh demo_arrival d(3) by (intro run_of.open_comes run_of.begin_run) (simp_all add: demo_main_def)
  then have run: "run_of demo_main_env ?start [demo_touch] ?st"
    by (simp add: demo_main_def)
  have rest: "queued (True, False, False, 1) ?start [] []"
    by (rule demo_queue [OF ring_of_one(2)])
  have "?st = with_queues ?start (ring_of []) (ring_of [demo_touch])"
    by (simp add: with_queues_def demo_main_def)
  moreover have "calls_fit (sv_procs (m_surv ?start)) [] [demo_touch]"
    using demo_touch_fresh d(3) by (simp add: calls_fit_def ids_fit_def) (simp add: demo_main_def demo_surv_def demo_index_def demo_touch_def demo_open_def)
  ultimately obtain st1 st' where
    l: "run_of demo_main_env ?start [demo_touch] st1" "main_round demo_main_env st1 = Inr (True, st')"
    "crowd (m_surv st1) + 2 \<le> SIZE_RING" "\<not> m_compMode st'"
    using with_queues_drains [OF demo_main_ok(1) d(4) rest ring_of_one(2) ring_of_one(1) _ _ _ _ _ _ demo_main_ok(4) demo_env_good(1),
        of demo_touch 2 ?start "[demo_touch]" 0] run d(1) demo_main_ok(2,3)
    by (auto simp: boot_ok_def SIZE_RING_def simp del: main_loop.simps)
  have "calls_at ''/tmp'' {#demo_touch#} = {#demo_touch#}"
    by (simp add: calls_at_def demo_touch_def demo_open_def)
  moreover have "between st' = {#}" using l(4) by (simp add: between_def)
  moreover note every_open_call_found [OF l(1-3) demo_main_ok(1,4), of 100 "[demo_touch]" list_keys "\<lambda>_. demo_retrieve" demo_list "''/tmp''"]
  ultimately show ?thesis
    using l(1,2) d demo_main_ok(2) demo_env_good empty_store list_store_laws demo_retrieve_good demo_list_wf
    by (simp add: boot_ok_def NUL_def open_records_def) blast
qed

end
