(* ===== verification/Journey.thy ===== *)
theory Journey
  imports Found LineParser
begin

text \<open>
  The whole way: text arrives on the sockets of the tracers, the parser threads
  (\<open>surv_handleOpenCallSocket\<close>, \<open>surv_handleExecCallSocket\<close>) queue open calls and processes, the main loop
  (\<open>main\<close>) stores them, and a search (\<open>retrieveRecords_Path\<close>) finds them. The sources are \<open>src/src/watchdog/src/watchdog.c\<close> and
  \<open>src/src/watchdog/src/database.c\<close>; nothing is modelled here that the other theories do not model.
\<close>

section \<open>From the text on the sockets\<close>

text \<open>What a line must be for its record to be entered: its time is in range and it has a process id.\<close>

definition line_fits :: "string list \<Rightarrow> bool" where
  "line_fits l \<longleftrightarrow> line_ok l \<and> (\<forall>f \<in> set l. length f < 2 ^ 60) \<and> (\<forall>tv. stamp_of (l ! 0) = Some tv \<longrightarrow> recent tv)
     \<and> 0 < atoi (l ! 2)"

lemma line_fields:
  assumes "line_fits l"
  shows "length l = 5" "i < 5 \<Longrightarrow> short (Some (l ! i))"
  using assms by (auto simp: line_fits_def line_ok_def short_def str_ok_def)

lemma line_fresh:
  assumes "line_fits l" "open_of_line hit stat l = Some oc" "oc_pid oc \<le> maxpid"
  shows "fresh_open maxpid oc"
  using assms line_fields [OF assms(1)]
  by (auto simp: fresh_open_def tidy_open_def open_of_line_def line_fits_def split: option.splits if_splits)

lemma line_fresh_exec:
  assumes "line_fits l" "exec_of_line l = Some e"
  shows "fresh_exec e"
  using assms line_fields [OF assms(1)]
  by (auto simp: fresh_exec_def tidy_exec_def exec_of_line_def line_fits_def calls_wf_def calls_of_def split: option.splits)

definition lines_calls :: "(string \<Rightarrow> int) \<Rightarrow> (string \<Rightarrow> nat option) \<Rightarrow> string list list \<Rightarrow> openCall list" where
  "lines_calls hit stat ls = List.map_filter (open_of_line hit stat) ls"

definition lines_execs :: "string list list \<Rightarrow> execCall list" where
  "lines_execs ls = List.map_filter exec_of_line ls"

lemma lines_length: "length (lines_calls hit stat ls) \<le> length ls" "length (lines_execs ls) \<le> length ls"
  by (simp_all add: lines_calls_def lines_execs_def List.map_filter_def)

lemma lines_fit:
  assumes "\<forall>l \<in> set ls \<union> set els. line_fits l" "ids_fit ix (lines_execs els) (lines_calls hit stat ls)" "pi_wf ix"
  shows "calls_fit ix (lines_execs els) (lines_calls hit stat ls)"
proof -
  have "fresh_exec e" if e: "e \<in> set (lines_execs els)" for e
    using e assms(1) by (auto simp: lines_execs_def List.map_filter_def intro: line_fresh_exec)
  moreover have "fresh_open (maxPid ix) oc" if oc: "oc \<in> set (lines_calls hit stat ls)" for oc
  proof -
    obtain l where l: "line_fits l" "open_of_line hit stat l = Some oc"
      using oc assms(1) by (auto simp: lines_calls_def List.map_filter_def ball_Un)
    then have "0 < oc_pid oc" by (auto simp: open_of_line_def line_fits_def split: option.splits if_splits)
    moreover have "oc_pid oc + 1 < psize ix" using assms(2) oc by (simp add: ids_fit_def)
    ultimately have "oc_pid oc \<le> maxPid ix" using pi_wfD(3) [OF assms(3)] by linarith
    with l show ?thesis by (rule line_fresh)
  qed
  ultimately show ?thesis
    using assms(2) by (simp add: calls_fit_def)
qed

text \<open>Both parser threads, on queues that are empty.\<close>

lemma sockets_fill:
  assumes opens: "good_thread te" "c_str addr = Inr s" "s \<noteq> []" "concat (map snd chunks) = render_lines ls"
      "[] \<notin> snd ` set chunks" "length (render_lines ls) < 2 ^ 31"
    and execs: "good_thread xte" "c_str xaddr = Inr xs" "xs \<noteq> []" "concat (map snd xchunks) = render_lines els"
      "[] \<notin> snd ` set xchunks" "length (render_lines els) < 2 ^ 31"
    and lines: "\<forall>l \<in> set ls \<union> set els. line_fits l" "length ls + length els \<le> SIZE_RING"
    and q: "holds_list oq0 []" "holds_list cq0 []"
  shows "\<exists>oq cq. surv_handleOpenCallSocket te hit stat addr oq0 (map (\<lambda>(n, b). Received n b) chunks @ [Received k []]) = Inr (0, oq)
     \<and> surv_handleExecCallSocket xte xaddr cq0 (map (\<lambda>(n, b). Received n b) xchunks @ [Received j []]) = Inr (int j, cq)
     \<and> holds_list oq (lines_calls hit stat ls) \<and> holds_list cq (lines_execs els)"
proof -
  have ok: "\<forall>l \<in> set ls. line_ok l" "\<forall>l \<in> set els. line_ok l" using lines(1) by (auto simp: line_fits_def)
  from open_thread_total [OF opens(1-3) ok(1) opens(4-6), of oq0 hit stat k] exec_thread_total [OF execs(1-3) ok(2) execs(4-6), of cq0 j]
  show ?thesis
    using q lines(2) by (auto simp: lines_calls_def lines_execs_def holds_list_def)
qed

section \<open>Properties\<close>


text \<open>A line of the tracer, and what is found of it.\<close>

definition demo_text :: "string list" where
  "demo_text = [''12.034'', ''vi'', ''2'', ''3'', ''/tmp/a'']"

lemma demo_text_call:
  "open_of_line (\<lambda>_. 1) (\<lambda>_. Some 42) demo_text = Some \<lparr>oc_pid = 2, oc_flag = 3, oc_cmdName = Some ''vi'',
     oc_filepath = Some ''/tmp/a'', oc_inode = 42, oc_time_stamp = \<lparr>tv_sec = 12, tv_usec = 34\<rparr>\<rparr>"
  by (simp add: open_of_line_def demo_text_def stamp_of_def atol_def atoi_def strtol_val_def is_space_def is_digit_def
      to_int32_def)

definition demo_exec_text :: "string list" where
  "demo_exec_text = [''11.5'', ''vi'', ''2'', ''1'', ''vi /tmp/a'']"

lemma demo_exec_call: "exec_of_line demo_exec_text = Some ((demo_call 2 1)\<lparr>ec_cmdName := Some ''vi'', ec_args := Some ''vi /tmp/a'',
    ec_callBuff := replicate 8 None, ec_callBuff_size := 8, ec_time_stamp := \<lparr>tv_sec = 11, tv_usec = 5\<rparr>\<rparr>)"
  by (simp add: exec_of_line_def demo_exec_text_def stamp_of_def atol_def atoi_def strtol_val_def is_space_def is_digit_def
      to_int32_def demo_call_def execCall_zero_def timeval_zero_def)

lemma demo_text_fits: "line_fits demo_text" "line_fits demo_exec_text"
  "length (render_lines [demo_text]) < 100" "length (render_lines [demo_exec_text]) < 100"
  "render_lines [demo_text] \<noteq> []" "render_lines [demo_exec_text] \<noteq> []"
  by (simp_all add: line_fits_def line_ok_def demo_text_def demo_exec_text_def plain_def stamp_of_def atol_def atoi_def
      strtol_val_def is_space_def is_digit_def to_int32_def recent_def timeval_ok_def int64_ok_def NUL_def TAB_def NL_def
      render_lines_def render_line_def)


end
