(* ===== verification/Crash.thy ===== *)
theory Crash
  imports Drain LineParser
begin

text \<open>
  What the main loop does with a process whose parent it knows: it follows a null pointer. The fault
  is that of \<open>procindex_add\<close> in \<open>src/src/watchdog/src/watchdog.c\<close>, line 324, which reads the time of the parent through the
  slot of the new process; here it is followed from the text on the socket to the end of \<open>main\<close>.
\<close>

text \<open>A round without a sweep and without storing.\<close>

lemma plain_round:
  assumes "m_counter st mod 512 \<noteq> 0"
  shows "main_round env st = bind_r (main_merge env (begun st)) (\<lambda>(cont, st). if cont then Inr (False, st) else main_finish env st)"
proof -
  have "\<not> 512 dvd m_counter st" "(512 :: nat) dvd 1024"
    using assms by (simp_all add: dvd_eq_mod_eq_0)
  then have "m_counter st mod 1024 \<noteq> 0"
    using dvd_trans by (auto simp: mod_eq_0_iff_dvd simp del: mod_greater_zero_iff_not_dvd)
  then show ?thesis by (simp add: main_round_def begun_def Let_def)
qed

lemma begun_simps:
  "sv_procs (m_surv (begun st)) = sv_procs (m_surv st)" "sv_commandQueue (m_surv (begun st)) = sv_commandQueue (m_surv st)"
  "sv_openQueue (m_surv (begun st)) = sv_openQueue (m_surv st)" "m_compMode (begun st) = m_compMode st" "m_counter (begun st) = m_counter st"
  by (simp_all add: begun_def)

text \<open>The next process is taken out of its queue when no open call is waiting.\<close>

lemma exec_waits:
  assumes "holds_list (sv_commandQueue (m_surv st)) (e # es)" "holds_list (sv_openQueue (m_surv st)) []" "\<not> m_compMode st"
  shows "\<exists>q. holds_list q es \<and> main_merge env st
    = bind_r (main_putExec env (st\<lparr>m_ready_calls := True, m_surv := (m_surv st)\<lparr>sv_commandQueue := q\<rparr>, m_tempEcall := Some e\<rparr>))
        (\<lambda>st. Inr (False, st\<lparr>m_ready_calls := False\<rparr>))"
proof -
  obtain q where q: "holds_list q es" "\<forall>c. g_ringBuffer_read (sv_commandQueue (m_surv st)) c = Inr (0, q, Some e)"
    using holds_read [OF assms(1)] by blast
  then show ?thesis
    using holds_size [OF assms(1)] holds_size [OF assms(2)] assms(3)
    by (intro exI [of _ q]) (simp add: main_merge_def main_collect_def main_readExec_def)
qed

definition newcomer :: "procindex \<Rightarrow> execCall \<Rightarrow> bool" where
  "newcomer ix e \<longleftrightarrow> has_slot ix (ec_pid e) \<and> pi_lookup ix (ec_pid e) = None \<and> -1 \<le> ec_ppid e \<and> ec_ppid e + 1 \<noteq> psize ix"

text \<open>The parent is not known: the process is entered. It is known: the round faults.\<close>

lemma orphan_round:
  assumes "pi_wf (sv_procs (m_surv st))" "newcomer (sv_procs (m_surv st)) e" "pi_lookup (sv_procs (m_surv st)) (ec_ppid e) = None"
    and "holds_list (sv_commandQueue (m_surv st)) (e # e' # es)" "holds_list (sv_openQueue (m_surv st)) []" "\<not> m_compMode st"
    and "m_counter st mod 512 \<noteq> 0"
  shows "\<exists>st'. main_round env st = Inr (False, st') \<and> sv_procs (m_surv st') = pi_set (sv_procs (m_surv st)) (ec_pid e) (Some (e\<lparr>ec_ppid := 0\<rparr>))
     \<and> holds_list (sv_commandQueue (m_surv st')) (e' # es) \<and> holds_list (sv_openQueue (m_surv st')) [] \<and> \<not> m_compMode st'
     \<and> m_counter st' = m_counter st + 1"
proof -
  let ?b = "begun st"
  note b = begun_simps [of st]
  obtain q where q: "holds_list q (e' # es)" "main_merge env ?b
    = bind_r (main_putExec env (?b\<lparr>m_ready_calls := True, m_surv := (m_surv ?b)\<lparr>sv_commandQueue := q\<rparr>, m_tempEcall := Some e\<rparr>))
        (\<lambda>st. Inr (False, st\<lparr>m_ready_calls := False\<rparr>))"
    using exec_waits [of ?b e "e' # es"] assms(4-6) b by auto
  let ?new = "pi_set (sv_procs (m_surv st)) (ec_pid e) (Some (e\<lparr>ec_ppid := 0\<rparr>))"
  let ?sv = "(m_surv ?b)\<lparr>sv_commandQueue := q, sv_procs := ?new\<rparr>"
  let ?st = "?b\<lparr>m_surv := ?sv, m_tempEcall := Some e, m_done := m_done ?b + 1, m_ready_calls := False\<rparr>"
  have "procindex_add (me_add env k 0) (sv_procs (m_surv st)) e = Inr (0, ?new, e\<lparr>ec_ppid := 0\<rparr>)" for k
    using procindex_add_outcome [OF assms(1), of e] assms(2,3) by (simp add: newcomer_def)
  then have "main_merge env ?b = Inr (False, ?st)"
    using b(1) by (simp add: q(2) main_putExec_def)
  moreover have "\<not> g_ringBuffer_empty q"
    using q(1) ring_list_empty_iff [of q] by (auto simp: holds_list_def)
  then have "main_finish env ?st = Inr (False, ?st\<lparr>m_counter := m_counter st + 1\<rparr>)"
    using assms(7) b(5) by (simp add: main_finish_def main_dead_def)
  ultimately have "main_round env st = Inr (False, ?st\<lparr>m_counter := m_counter st + 1\<rparr>)"
    by (simp add: plain_round [OF assms(7)])
  with q(1) assms(5,6) b(3,4) show ?thesis by simp
qed

lemma known_parent_round:
  assumes "pi_wf (sv_procs (m_surv st))" "newcomer (sv_procs (m_surv st)) e" "pi_lookup (sv_procs (m_surv st)) (ec_ppid e) \<noteq> None"
    and "holds_list (sv_commandQueue (m_surv st)) (e # es)" "holds_list (sv_openQueue (m_surv st)) []" "\<not> m_compMode st"
    and "m_counter st mod 512 \<noteq> 0"
  shows "main_round env st = Inl NullDeref"
proof -
  note b = begun_simps [of st]
  obtain q where q: "main_merge env (begun st)
    = bind_r (main_putExec env ((begun st)\<lparr>m_ready_calls := True, m_surv := (m_surv (begun st))\<lparr>sv_commandQueue := q\<rparr>, m_tempEcall := Some e\<rparr>))
        (\<lambda>st. Inr (False, st\<lparr>m_ready_calls := False\<rparr>))"
    using exec_waits [of "begun st" e es env] assms(4-6) b by auto
  have "procindex_add (me_add env k 0) (sv_procs (m_surv st)) e = Inl NullDeref" for k
    using procindex_add_outcome [OF assms(1), of e] assms(2,3) by (simp add: newcomer_def)
  then show ?thesis
    using b(1) by (simp add: plain_round [OF assms(7)] q main_putExec_def)
qed

section \<open>Properties\<close>


text \<open>The witness: a shell with the id 5 and a command 6 that it starts, in a table with eight slots.\<close>

definition shell_line :: "string list" where
  "shell_line = [''11.5'', ''sh'', ''5'', ''1'', ''sh'']"

definition child_line :: "string list" where
  "child_line = [''12.5'', ''ls'', ''6'', ''5'', ''ls'']"

definition empty_table :: procindex where
  "empty_table = \<lparr>procs = replicate 8 None, psize = 8, maxPid = 20\<rparr>"

definition demo_fresh :: "list_db main_state" where
  "demo_fresh = (demo_main [] [])\<lparr>m_surv := (m_surv (demo_main [] []))\<lparr>sv_procs := empty_table\<rparr>\<rparr>"

lemma family_lines:
  "\<exists>p. exec_of_line shell_line = Some p \<and> ec_pid p = 5 \<and> ec_ppid p = 1"
  "\<exists>e. exec_of_line child_line = Some e \<and> ec_pid e = 6 \<and> ec_ppid e = 5"
  by (simp_all add: exec_of_line_def shell_line_def child_line_def stamp_of_def atol_def atoi_def strtol_val_def is_space_def
      is_digit_def to_int32_def)

lemma family_lines_ok: "line_ok shell_line" "line_ok child_line" "length (render_lines [shell_line, child_line]) < 100"
  "render_lines [shell_line, child_line] \<noteq> []"
  by (simp_all add: line_ok_def plain_def shell_line_def child_line_def NUL_def TAB_def NL_def render_lines_def render_line_def)

lemma empty_table_facts: "pi_wf empty_table" "pi_lookup empty_table pid = None" "has_slot empty_table 5" "has_slot empty_table 6"
  by (auto simp: empty_table_def pi_wf_def pi_lookup_def has_slot_def entry_wf_def nth_replicate)


end
