(* ===== verification/Daemon.thy ===== *)
theory Daemon
  imports Shutdown
begin

text \<open>
  The threads of the daemon and how they start, block and end: \<open>main\<close>, the two parser threads,
  \<open>surv_shutdown\<close> and \<open>surv_handleAccess\<close> in \<open>src/src/watchdog/src/watchdog.c\<close>.

  The other theories say what a thread does with what it receives. Here a thread is the place it is
  at; the calls that can block (\<open>select\<close>, \<open>recv\<close>, \<open>sigwait\<close>, \<open>pthread_join\<close>) are steps that are
  possible only when the operating system lets them return. The threads share the flag
  \<open>shutting_down\<close>, the flags \<open>processing_*_socket\<close>, the pipe that is closed to end blocking calls, and
  the queues, of which only the number of calls in them is kept, besides whether two calls are compared. Tracers, clients of the control
  socket and signals from outside are steps of their own. A \<open>recv\<close> that fails is not a step here, see
  \<open>LineParser\<close> for what it does. That a round of the main loop of \<open>MainLoop\<close> is a step of the relation
  is proved below.
\<close>

section \<open>State\<close>

datatype which = OpenCalls | ExecCalls

text \<open>What a tracer has done with its end of a socket.\<close>

datatype feed = Silent | HasData | Hungup

datatype parser_at = PStart | PConnect | PCheck | PSelect | PRecv | PDone

datatype shutdown_at = SWait | SClose | SDone

datatype control_at = CStart | CCheck | CSelect | CDone

datatype main_at = MLoop | MJoin nat | MExit bool

datatype client_request = AskOther | AskShutdown | AskRestart

text \<open>
  \<open>dn_sock\<close> and \<open>dn_kill\<close> tell whether the socket and the pipe are still in the set \<open>rfds\<close> of a parser
  thread, which \<open>select\<close> overwrites with the descriptors that are ready.
\<close>

record daemon =
  dn_parser :: "which \<Rightarrow> parser_at"
  dn_busy :: "which \<Rightarrow> bool"
  dn_sock :: "which \<Rightarrow> bool"
  dn_kill :: "which \<Rightarrow> bool"
  dn_feed :: "which \<Rightarrow> feed"
  dn_shutter :: shutdown_at
  dn_control :: control_at
  dn_main :: main_at
  dn_shutting :: bool
  dn_restart :: bool
  dn_kill_closed :: bool
  dn_signal :: bool
  dn_client :: "client_request option"
  dn_visitor :: bool
  dn_counter :: nat
  dn_queued :: nat
  dn_comparing :: bool

text \<open>After \<open>surv_init\<close> and the four calls of \<open>pthread_create\<close>.\<close>

definition daemon_start :: daemon where
  "daemon_start = \<lparr>dn_parser = (\<lambda>_. PStart), dn_busy = (\<lambda>_. False), dn_sock = (\<lambda>_. False),
     dn_kill = (\<lambda>_. False), dn_feed = (\<lambda>_. Silent), dn_shutter = SWait, dn_control = CStart,
     dn_main = MLoop, dn_shutting = False, dn_restart = False, dn_kill_closed = False,
     dn_signal = False, dn_client = None, dn_visitor = False, dn_counter = 1, dn_queued = 0, dn_comparing = False\<rparr>"

section \<open>Steps\<close>

definition go :: "which \<Rightarrow> parser_at \<Rightarrow> daemon \<Rightarrow> daemon" where
  "go w p s = s\<lparr>dn_parser := (dn_parser s)(w := p)\<rparr>"

definition leave :: "which \<Rightarrow> daemon \<Rightarrow> daemon" where
  "leave w s = (go w PDone s)\<lparr>dn_busy := (dn_busy s)(w := False)\<rparr>"

definition sock_ready :: "daemon \<Rightarrow> which \<Rightarrow> bool" where
  "sock_ready s w \<longleftrightarrow> dn_sock s w \<and> dn_feed s w \<noteq> Silent"

definition kill_ready :: "daemon \<Rightarrow> which \<Rightarrow> bool" where
  "kill_ready s w \<longleftrightarrow> dn_kill s w \<and> dn_kill_closed s"

text \<open>
  A parser thread. After \<open>select\<close> has returned it reads from the socket, whichever descriptor was
  ready. \<open>k\<close> is the number of calls that the received bytes complete, \<open>f\<close> what the tracer has left
  for the next time. With \<open>give_up\<close> a buffer cannot grow, or the queue stays full.
\<close>

inductive parser_step :: "which \<Rightarrow> daemon \<Rightarrow> daemon \<Rightarrow> bool" where
  no_memory: "dn_parser s w = PStart \<Longrightarrow> parser_step w s (leave w s)"
| start: "dn_parser s w = PStart
     \<Longrightarrow> parser_step w s ((go w PConnect s)\<lparr>dn_busy := (dn_busy s)(w := True)\<rparr>)"
| no_connection: "dn_parser s w = PConnect \<Longrightarrow> parser_step w s (leave w s)"
| connected: "dn_parser s w = PConnect
     \<Longrightarrow> parser_step w s ((go w PCheck s)\<lparr>dn_sock := (dn_sock s)(w := True), dn_kill := (dn_kill s)(w := True)\<rparr>)"
| go_on: "dn_parser s w = PCheck \<Longrightarrow> \<not> dn_shutting s \<Longrightarrow> parser_step w s (go w PSelect s)"
| told: "dn_parser s w = PCheck \<Longrightarrow> dn_shutting s \<Longrightarrow> parser_step w s (leave w s)"
| select_fails: "dn_parser s w = PSelect \<Longrightarrow> parser_step w s (leave w s)"
| select: "dn_parser s w = PSelect \<Longrightarrow> sock_ready s w \<or> kill_ready s w
     \<Longrightarrow> parser_step w s ((go w PRecv s)\<lparr>dn_sock := (dn_sock s)(w := sock_ready s w),
                                     dn_kill := (dn_kill s)(w := kill_ready s w)\<rparr>)"
| recv: "dn_parser s w = PRecv \<Longrightarrow> dn_feed s w = HasData
     \<Longrightarrow> parser_step w s ((go w PCheck s)\<lparr>dn_feed := (dn_feed s)(w := f), dn_queued := dn_queued s + k\<rparr>)"
| give_up: "dn_parser s w = PRecv \<Longrightarrow> dn_feed s w = HasData
     \<Longrightarrow> parser_step w s ((leave w s)\<lparr>dn_queued := dn_queued s + k\<rparr>)"
| recv_end: "dn_parser s w = PRecv \<Longrightarrow> dn_feed s w = Hungup \<Longrightarrow> parser_step w s (leave w s)"

inductive shutdown_step :: "daemon \<Rightarrow> daemon \<Rightarrow> bool" where
  sigwait: "dn_shutter s = SWait \<Longrightarrow> dn_signal s
     \<Longrightarrow> shutdown_step s (s\<lparr>dn_shutter := SClose, dn_signal := False, dn_shutting := True\<rparr>)"
| close_pipe: "dn_shutter s = SClose
     \<Longrightarrow> shutdown_step s (s\<lparr>dn_shutter := SDone, dn_kill_closed := True\<rparr>)"

text \<open>
  The control thread. It watches a fresh copy of its set every time; \<open>select\<close> returns for a request,
  for a client that comes or goes, or for the pipe.
\<close>

definition answer_client :: "client_request \<Rightarrow> daemon \<Rightarrow> daemon" where
  "answer_client r s =
     (let s = s\<lparr>dn_client := None\<rparr> in
      case r of
        AskOther \<Rightarrow> s
      | AskShutdown \<Rightarrow> if dn_shutting s then s else s\<lparr>dn_signal := True\<rparr>
      | AskRestart \<Rightarrow> if dn_shutting s then s else s\<lparr>dn_signal := True, dn_restart := True\<rparr>)"

inductive control_step :: "daemon \<Rightarrow> daemon \<Rightarrow> bool" where
  no_socket: "dn_control s = CStart \<Longrightarrow> control_step s (s\<lparr>dn_control := CDone\<rparr>)"
| listening: "dn_control s = CStart \<Longrightarrow> control_step s (s\<lparr>dn_control := CCheck\<rparr>)"
| go_on: "dn_control s = CCheck \<Longrightarrow> \<not> dn_shutting s \<Longrightarrow> control_step s (s\<lparr>dn_control := CSelect\<rparr>)"
| told: "dn_control s = CCheck \<Longrightarrow> dn_shutting s \<Longrightarrow> control_step s (s\<lparr>dn_control := CDone\<rparr>)"
| client: "dn_control s = CSelect \<Longrightarrow> dn_client s = Some r
     \<Longrightarrow> control_step s ((answer_client r s)\<lparr>dn_control := CCheck\<rparr>)"
| connection: "dn_control s = CSelect \<Longrightarrow> dn_visitor s
     \<Longrightarrow> control_step s (s\<lparr>dn_control := CCheck, dn_visitor := False\<rparr>)"
| pipe_closed: "dn_control s = CSelect \<Longrightarrow> dn_kill_closed s
     \<Longrightarrow> control_step s (s\<lparr>dn_control := CCheck\<rparr>)"

text \<open>
  A round of the main loop never adds to the queues, and each one leaves less to do: a call less in the
  queues, or no two calls under comparison any more, or nothing at all. \<open>counter\<close> does not rise in a round
  that is cut short by \<open>continue\<close>, which is one that takes two calls.
\<close>

definition main_over :: "daemon \<Rightarrow> bool" where
  "main_over s \<longleftrightarrow> dn_shutting s \<and> \<not> dn_busy s OpenCalls \<and> \<not> dn_busy s ExecCalls \<and> dn_queued s = 0"

definition main_begin :: "daemon \<Rightarrow> daemon" where
  "main_begin s = s\<lparr>dn_shutting := (dn_shutting s \<or> 424242 \<le> dn_counter s)\<rparr>"

definition to_do :: "nat \<Rightarrow> bool \<Rightarrow> nat" where
  "to_do q comparing = q + (if comparing then 1 else 0)"

inductive main_step :: "daemon \<Rightarrow> daemon \<Rightarrow> bool" where
  two_calls: "dn_main s = MLoop \<Longrightarrow> \<not> dn_comparing s \<Longrightarrow> q + 2 \<le> dn_queued s
     \<Longrightarrow> main_step s ((main_begin s)\<lparr>dn_queued := q, dn_comparing := True\<rparr>)"
| round: "dn_main s = MLoop \<Longrightarrow> to_do q b < to_do (dn_queued s) (dn_comparing s) \<or> q = 0 \<and> \<not> b
     \<Longrightarrow> t = (main_begin s)\<lparr>dn_queued := q, dn_comparing := b, dn_counter := dn_counter s + 1\<rparr>
     \<Longrightarrow> main_step s (if main_over t then t\<lparr>dn_main := MJoin 0\<rparr> else t)"

text \<open>The calls of \<open>pthread_join\<close>, in their order, and the end.\<close>

definition joined :: "daemon \<Rightarrow> nat \<Rightarrow> bool" where
  "joined s k \<longleftrightarrow> (if k = 0 then dn_parser s ExecCalls = PDone
     else if k = 1 then dn_parser s OpenCalls = PDone
     else if k = 2 then dn_shutter s = SDone
     else dn_control s = CDone)"

inductive join_step :: "daemon \<Rightarrow> daemon \<Rightarrow> bool" where
  join: "dn_main s = MJoin k \<Longrightarrow> joined s k
     \<Longrightarrow> join_step s (s\<lparr>dn_main := (if k < 3 then MJoin (k + 1) else MExit (dn_restart s))\<rparr>)"

inductive thread_step :: "daemon \<Rightarrow> daemon \<Rightarrow> bool" where
  parser: "parser_step w s t \<Longrightarrow> thread_step s t"
| shutdown: "shutdown_step s t \<Longrightarrow> thread_step s t"
| control: "control_step s t \<Longrightarrow> thread_step s t"
| main: "main_step s t \<Longrightarrow> thread_step s t"
| join: "join_step s t \<Longrightarrow> thread_step s t"

text \<open>The world: tracers write and hang up, clients come and ask.\<close>

inductive world_step :: "daemon \<Rightarrow> daemon \<Rightarrow> bool" where
  tracer: "dn_feed s w \<noteq> Hungup \<Longrightarrow> f \<noteq> Silent
     \<Longrightarrow> world_step s (s\<lparr>dn_feed := (dn_feed s)(w := f)\<rparr>)"
| visits: "world_step s (s\<lparr>dn_visitor := True\<rparr>)"
| asks: "world_step s (s\<lparr>dn_client := Some r\<rparr>)"

inductive daemon_reach :: "daemon \<Rightarrow> bool" where
  start: "daemon_reach daemon_start"
| thread: "daemon_reach s \<Longrightarrow> thread_step s t \<Longrightarrow> daemon_reach t"
| world: "daemon_reach s \<Longrightarrow> world_step s t \<Longrightarrow> daemon_reach t"
| signal: "daemon_reach s \<Longrightarrow> daemon_reach (s\<lparr>dn_signal := True\<rparr>)"

inductive_cases thread_stepE: "thread_step s t"

section \<open>Invariant\<close>

lemma which_cases: "(\<forall>w. P w) \<longleftrightarrow> P OpenCalls \<and> P ExecCalls"
  by (metis which.exhaust)

text \<open>How many of the joins are done.\<close>

fun joins :: "main_at \<Rightarrow> nat" where
  "joins MLoop = 0"
| "joins (MJoin k) = k"
| "joins (MExit _) = 4"

text \<open>
  A parser thread tells truly whether it is running, never waits for a set without its socket, and
  is not where it could queue a call once the main loop has ended.
\<close>

fun parser_ok :: "parser_at \<Rightarrow> bool \<Rightarrow> bool \<Rightarrow> bool \<Rightarrow> main_at \<Rightarrow> bool" where
  "parser_ok p busy sock shutting m \<longleftrightarrow> (busy \<longleftrightarrow> p \<noteq> PStart \<and> p \<noteq> PDone)
     \<and> (p = PSelect \<longrightarrow> sock) \<and> (p = PCheck \<or> p = PRecv \<longrightarrow> sock \<or> shutting)
     \<and> (m \<noteq> MLoop \<longrightarrow> p \<noteq> PSelect \<and> p \<noteq> PRecv)"

definition parser_inv :: "daemon \<Rightarrow> which \<Rightarrow> bool" where
  "parser_inv s w \<longleftrightarrow> parser_ok (dn_parser s w) (dn_busy s w) (dn_sock s w) (dn_shutting s) (dn_main s)"

fun stop_ok :: "shutdown_at \<Rightarrow> bool \<Rightarrow> bool \<Rightarrow> main_at \<Rightarrow> nat \<Rightarrow> bool" where
  "stop_ok st shutting closed m q \<longleftrightarrow> (st \<noteq> SWait \<longrightarrow> shutting) \<and> (closed \<longleftrightarrow> st = SDone)
     \<and> (m \<noteq> MLoop \<longrightarrow> shutting \<and> q = 0)"

fun join_ok :: "nat \<Rightarrow> parser_at \<Rightarrow> parser_at \<Rightarrow> shutdown_at \<Rightarrow> control_at \<Rightarrow> bool" where
  "join_ok n e p st c \<longleftrightarrow> n \<le> 4 \<and> (1 \<le> n \<longrightarrow> e = PDone) \<and> (2 \<le> n \<longrightarrow> p = PDone)
     \<and> (3 \<le> n \<longrightarrow> st = SDone) \<and> (4 \<le> n \<longrightarrow> c = CDone)"

definition end_inv :: "daemon \<Rightarrow> bool" where
  "end_inv s \<longleftrightarrow> stop_ok (dn_shutter s) (dn_shutting s) (dn_kill_closed s) (dn_main s) (dn_queued s)
     \<and> join_ok (joins (dn_main s)) (dn_parser s ExecCalls) (dn_parser s OpenCalls) (dn_shutter s) (dn_control s)
     \<and> (\<forall>k. dn_main s = MJoin k \<longrightarrow> k \<le> 3)"

definition daemon_inv :: "daemon \<Rightarrow> bool" where
  "daemon_inv s \<longleftrightarrow> (\<forall>w. parser_inv s w) \<and> end_inv s"

lemma start_inv: "daemon_inv daemon_start"
  by (simp add: daemon_inv_def parser_inv_def end_inv_def daemon_start_def)

text \<open>What a step of a parser thread does to the rest of the state.\<close>

lemma parser_frame:
  assumes "parser_step w s t"
  shows "dn_main t = dn_main s" "dn_shutting t = dn_shutting s" "dn_shutter t = dn_shutter s"
    "dn_control t = dn_control s" "dn_kill_closed t = dn_kill_closed s" "dn_signal t = dn_signal s"
    "dn_restart t = dn_restart s" "dn_parser s w \<noteq> PDone"
    "dn_queued t = dn_queued s \<or> dn_parser s w = PRecv"
    "v \<noteq> w \<Longrightarrow> dn_parser t v = dn_parser s v" "v \<noteq> w \<Longrightarrow> dn_busy t v = dn_busy s v"
    "v \<noteq> w \<Longrightarrow> dn_sock t v = dn_sock s v" "v \<noteq> w \<Longrightarrow> dn_feed t v = dn_feed s v"
  using assms by (auto elim!: parser_step.cases simp: go_def leave_def)

lemma parser_local: "parser_step w s t \<Longrightarrow> parser_inv s w \<Longrightarrow> stop_ok (dn_shutter s) (dn_shutting s)
    (dn_kill_closed s) (dn_main s) (dn_queued s) \<Longrightarrow> parser_inv t w"
  unfolding parser_inv_def
  by (induction rule: parser_step.induct) (auto simp: go_def leave_def sock_ready_def kill_ready_def)

lemma parser_keeps_inv:
  assumes "parser_step w s t" "daemon_inv s"
  shows "daemon_inv t"
proof -
  note frame = parser_frame [OF assms(1)]
  have inv: "parser_inv s v" "end_inv s" for v
    using assms(2) by (simp_all add: daemon_inv_def)
  have "parser_inv t v" for v
  proof (cases "v = w")
    case True
    then show ?thesis
      using parser_local [OF assms(1)] inv by (simp add: end_inv_def)
  next
    case False
    then show ?thesis
      using inv(1) [of v] by (simp add: parser_inv_def frame)
  qed
  moreover have "stop_ok (dn_shutter t) (dn_shutting t) (dn_kill_closed t) (dn_main t) (dn_queued t)"
  proof (cases "dn_parser s w = PRecv")
    case True
    then have "dn_main s = MLoop"
      using inv(1) [of w] by (simp add: parser_inv_def)
    then show ?thesis
      using inv(2) by (simp add: end_inv_def frame(1-5))
  next
    case False
    then show ?thesis
      using inv(2) frame(9) by (simp add: end_inv_def frame(1-5))
  qed
  moreover have "dn_parser s v = PDone \<Longrightarrow> dn_parser t v = PDone" for v
    using frame(8,10) by metis
  ultimately show ?thesis
    using inv(2) by (simp add: daemon_inv_def end_inv_def frame(1-5))
qed

text \<open>The other threads leave the parser threads alone; \<open>shutting_down\<close> is never taken back.\<close>

definition same_parsers :: "daemon \<Rightarrow> daemon \<Rightarrow> bool" where
  "same_parsers s t \<longleftrightarrow> dn_parser t = dn_parser s \<and> dn_busy t = dn_busy s \<and> dn_sock t = dn_sock s
     \<and> dn_feed t = dn_feed s \<and> (dn_shutting s \<longrightarrow> dn_shutting t)"

lemma same_parsers_inv:
  "same_parsers s t \<Longrightarrow> dn_main s \<noteq> MLoop \<or> dn_main t = MLoop \<Longrightarrow> parser_inv s w \<Longrightarrow> parser_inv t w"
  by (auto simp: same_parsers_def parser_inv_def)

lemma shutdown_same: "shutdown_step s t \<Longrightarrow> same_parsers s t \<and> dn_main t = dn_main s"
  by (auto simp: same_parsers_def elim!: shutdown_step.cases)

lemma shutdown_keeps_inv: "shutdown_step s t \<Longrightarrow> daemon_inv s \<Longrightarrow> daemon_inv t"
proof -
  assume step: "shutdown_step s t" and inv: "daemon_inv s"
  have "end_inv t"
    using step inv by cases (auto simp: daemon_inv_def end_inv_def)
  with inv shutdown_same [OF step] same_parsers_inv show ?thesis
    by (metis daemon_inv_def)
qed

lemma answer_same [simp]:
  "dn_parser (answer_client r s) = dn_parser s" "dn_busy (answer_client r s) = dn_busy s"
  "dn_sock (answer_client r s) = dn_sock s" "dn_feed (answer_client r s) = dn_feed s"
  "dn_main (answer_client r s) = dn_main s" "dn_shutting (answer_client r s) = dn_shutting s"
  "dn_queued (answer_client r s) = dn_queued s" "dn_shutter (answer_client r s) = dn_shutter s"
  "dn_kill_closed (answer_client r s) = dn_kill_closed s" "dn_comparing (answer_client r s) = dn_comparing s"
  by (simp_all add: answer_client_def Let_def split: client_request.splits)

lemma control_frame:
  assumes "control_step s t"
  shows "same_parsers s t" "dn_main t = dn_main s" "dn_shutting t = dn_shutting s" "dn_queued t = dn_queued s"
    "dn_shutter t = dn_shutter s" "dn_kill_closed t = dn_kill_closed s" "dn_control s \<noteq> CDone"
  using assms by (auto simp: same_parsers_def elim!: control_step.cases)

lemma control_keeps_inv:
  assumes "control_step s t" "daemon_inv s"
  shows "daemon_inv t"
proof -
  note frame = control_frame [OF assms(1)]
  have "end_inv s" "\<forall>w. parser_inv s w"
    using assms(2) by (simp_all add: daemon_inv_def)
  then have "end_inv t"
    using frame by (simp add: end_inv_def same_parsers_def)
  with \<open>\<forall>w. parser_inv s w\<close> frame same_parsers_inv show ?thesis
    by (metis daemon_inv_def)
qed

lemma idle_parser:
  "dn_parser t w = PStart \<or> dn_parser t w = PDone \<Longrightarrow> \<not> dn_busy t w \<Longrightarrow> parser_inv (t\<lparr>dn_main := m\<rparr>) w"
  by (auto simp: parser_inv_def)

lemma main_keeps_inv: "main_step s t \<Longrightarrow> daemon_inv s \<Longrightarrow> daemon_inv t"
proof (induction rule: main_step.induct)
  case (two_calls s q)
  then have "end_inv ((main_begin s)\<lparr>dn_queued := q, dn_comparing := True\<rparr>)"
    by (simp add: daemon_inv_def end_inv_def main_begin_def)
  moreover have "same_parsers s ((main_begin s)\<lparr>dn_queued := q, dn_comparing := True\<rparr>)" "dn_main (main_begin s) = MLoop"
    using two_calls by (simp_all add: same_parsers_def main_begin_def)
  ultimately show ?case
    using two_calls same_parsers_inv by (simp add: daemon_inv_def)
next
  case (round s q b t)
  have same: "same_parsers s t" "dn_main t = MLoop" "end_inv t"
    using round by (simp_all add: same_parsers_def daemon_inv_def end_inv_def main_begin_def)
  then have inv: "\<forall>w. parser_inv t w"
    using round same_parsers_inv by (simp add: daemon_inv_def)
  show ?case
  proof (cases "main_over t")
    case True
    then have "\<forall>w. \<not> dn_busy t w" "dn_shutting t" "dn_queued t = 0"
      by (simp_all add: main_over_def which_cases)
    moreover have "dn_parser t w = PStart \<or> dn_parser t w = PDone" for w
      using inv calculation(1) by (simp add: parser_inv_def)
    then have "\<forall>w. parser_inv (t\<lparr>dn_main := MJoin 0\<rparr>) w"
      using idle_parser calculation(1) by blast
    ultimately show ?thesis
      using True same(2,3) by (simp add: daemon_inv_def end_inv_def)
  next
    case False
    with same inv show ?thesis by (simp add: daemon_inv_def)
  qed
qed

lemma join_frame:
  assumes "join_step s t"
  shows "same_parsers s t" "dn_main s \<noteq> MLoop" "dn_main t \<noteq> MLoop" "dn_shutting t = dn_shutting s"
    "dn_queued t = dn_queued s" "dn_shutter t = dn_shutter s" "dn_kill_closed t = dn_kill_closed s"
    "dn_control t = dn_control s"
  using assms by (auto simp: same_parsers_def elim!: join_step.cases split: if_splits)

lemma join_keeps_inv:
  assumes "join_step s t" "daemon_inv s"
  shows "daemon_inv t"
proof -
  have inv: "end_inv s" "\<forall>w. parser_inv s w"
    using assms(2) by (simp_all add: daemon_inv_def)
  from assms(1) obtain k where k: "dn_main s = MJoin k" "joined s k"
    "t = s\<lparr>dn_main := (if k < 3 then MJoin (k + 1) else MExit (dn_restart s))\<rparr>"
    by cases
  then have "k \<le> 3" using inv(1) by (simp add: end_inv_def)
  then consider "k = 0" | "k = 1" | "k = 2" | "k = 3" by linarith
  then have "end_inv t"
    using k inv(1) by cases (simp_all add: end_inv_def joined_def)
  with inv(2) join_frame(1,2) [OF assms(1)] same_parsers_inv show ?thesis
    by (metis daemon_inv_def)
qed

lemmas keep_inv = parser_keeps_inv shutdown_keeps_inv control_keeps_inv main_keeps_inv join_keeps_inv

lemma thread_keeps_inv: "thread_step s t \<Longrightarrow> daemon_inv s \<Longrightarrow> daemon_inv t"
  by (erule thread_stepE) (erule keep_inv, assumption)+

lemma world_keeps_inv: "world_step s t \<Longrightarrow> daemon_inv s \<Longrightarrow> daemon_inv t"
  by (induction rule: world_step.induct) (simp_all add: daemon_inv_def parser_inv_def end_inv_def)

lemma reach_inv: "daemon_reach s \<Longrightarrow> daemon_inv s"
proof (induction rule: daemon_reach.induct)
  case (signal s)
  then show ?case by (simp add: daemon_inv_def parser_inv_def end_inv_def)
qed (auto intro: start_inv thread_keeps_inv world_keeps_inv)

section \<open>After the loop\<close>

lemma run_keeps: "r\<^sup>*\<^sup>* s t \<Longrightarrow> (\<And>s t. r s t \<Longrightarrow> P s \<Longrightarrow> P t) \<Longrightarrow> P s \<Longrightarrow> P t"
  by (induction rule: rtranclp_induct) blast+

lemma threads_keep_inv: "thread_step\<^sup>*\<^sup>* s t \<Longrightarrow> daemon_inv s \<Longrightarrow> daemon_inv t"
  by (erule run_keeps, rule thread_keeps_inv)

lemma thread_stays_left: "thread_step s t \<Longrightarrow> dn_main s \<noteq> MLoop \<Longrightarrow> dn_main t \<noteq> MLoop"
  by (erule thread_stepE)
     (auto dest: parser_frame(1) shutdown_same control_frame(2) join_frame(3) elim: main_step.cases)

lemma threads_stay_left: "thread_step\<^sup>*\<^sup>* s t \<Longrightarrow> dn_main s \<noteq> MLoop \<Longrightarrow> dn_main t \<noteq> MLoop"
  by (erule run_keeps, rule thread_stays_left)

text \<open>How many steps a thread can still make when the loop has ended.\<close>

fun parser_left :: "parser_at \<Rightarrow> nat" where
  "parser_left PStart = 3"
| "parser_left PConnect = 2"
| "parser_left PDone = 0"
| "parser_left _ = 1"

fun shutdown_left :: "shutdown_at \<Rightarrow> nat" where
  "shutdown_left SWait = 2"
| "shutdown_left SClose = 1"
| "shutdown_left SDone = 0"

fun control_left :: "control_at \<Rightarrow> nat" where
  "control_left CCheck = 1"
| "control_left CDone = 0"
| "control_left _ = 2"

definition steps_left :: "daemon \<Rightarrow> nat" where
  "steps_left s = parser_left (dn_parser s OpenCalls) + parser_left (dn_parser s ExecCalls)
     + shutdown_left (dn_shutter s) + control_left (dn_control s) + (4 - joins (dn_main s))"

lemma steps_left_max: "steps_left s \<le> 14"
proof -
  have "parser_left p \<le> 3" "shutdown_left x \<le> 2" "control_left c \<le> 2" for p x c
    by (cases p, simp_all) (cases x, simp_all, cases c, simp_all)
  then have "parser_left (dn_parser s w) \<le> 3" "shutdown_left (dn_shutter s) \<le> 2" "control_left (dn_control s) \<le> 2" for w
    by blast+
  from this(1) [of OpenCalls] this(1) [of ExecCalls] this(2,3) show ?thesis
    by (simp add: steps_left_def)
qed

lemma parser_step_left:
  assumes "parser_step w s t" "parser_inv s w" "dn_main s \<noteq> MLoop" "dn_shutting s"
  shows "parser_left (dn_parser t w) < parser_left (dn_parser s w)"
  using assms by (auto simp: parser_inv_def go_def leave_def elim!: parser_step.cases)

lemma control_step_left:
  "control_step s t \<Longrightarrow> dn_shutting s \<Longrightarrow> control_left (dn_control t) < control_left (dn_control s)"
  by (auto elim!: control_step.cases)

lemma shutdown_step_left: "shutdown_step s t \<Longrightarrow> shutdown_left (dn_shutter t) < shutdown_left (dn_shutter s)
    \<and> dn_control t = dn_control s"
  by (auto elim!: shutdown_step.cases)

lemma join_step_left: "join_step s t \<Longrightarrow> end_inv s \<Longrightarrow> joins (dn_main s) < joins (dn_main t) \<and> joins (dn_main t) \<le> 4"
  by (auto simp: end_inv_def elim!: join_step.cases)

lemma thread_step_left:
  assumes "thread_step s t" "daemon_inv s" "dn_main s \<noteq> MLoop"
  shows "steps_left t < steps_left s"
  using assms(1)
proof cases
  case (parser w)
  have inv: "parser_inv s w" "dn_shutting s"
    using assms(2,3) by (simp_all add: daemon_inv_def end_inv_def)
  note frame = parser_frame [OF parser]
  have "parser_left (dn_parser t w) < parser_left (dn_parser s w)"
    using parser_step_left [OF parser inv(1) assms(3) inv(2)] .
  then show ?thesis
    using frame(10) by (cases w) (simp_all add: steps_left_def frame(1-4))
next
  case shutdown
  then show ?thesis
    using shutdown_step_left shutdown_same by (fastforce simp: steps_left_def same_parsers_def)
next
  case control
  have "dn_shutting s"
    using assms(2,3) by (simp add: daemon_inv_def end_inv_def)
  then show ?thesis
    using control_step_left [OF control] control_frame [OF control] by (simp add: steps_left_def same_parsers_def)
next
  case main
  then show ?thesis using assms(3) by cases auto
next
  case join
  have "end_inv s" using assms(2) by (simp add: daemon_inv_def)
  then show ?thesis
    using join_step_left [OF join] join_frame [OF join] by (auto simp: steps_left_def same_parsers_def)
qed

lemma run_bounded:
  "(thread_step ^^ n) s t \<Longrightarrow> daemon_inv s \<Longrightarrow> dn_main s \<noteq> MLoop \<Longrightarrow> n + steps_left t \<le> steps_left s"
proof (induction n arbitrary: t)
  case (Suc n)
  then obtain u where u: "(thread_step ^^ n) s u" "thread_step u t"
    by auto
  have run: "thread_step\<^sup>*\<^sup>* s u" using u(1) by (rule relpowp_imp_rtranclp)
  have "steps_left t < steps_left u"
    using thread_step_left [OF u(2)] threads_keep_inv [OF run] threads_stay_left [OF run] Suc.prems by blast
  with Suc.IH [OF u(1)] Suc.prems show ?case by simp
qed simp

text \<open>A thread that has to be waited for can go on, unless it waits for a signal.\<close>

lemma parser_can_end:
  assumes "parser_inv s w" "dn_main s \<noteq> MLoop" "dn_shutting s" "dn_parser s w \<noteq> PDone"
  shows "\<exists>t. parser_step w s t"
  using assms by (cases "dn_parser s w") (auto simp: parser_inv_def intro: parser_step.intros)

lemma shutdown_can_end: "dn_shutter s \<noteq> SWait \<or> dn_signal s \<Longrightarrow> dn_shutter s \<noteq> SDone \<Longrightarrow> \<exists>t. shutdown_step s t"
  by (cases "dn_shutter s") (auto intro: shutdown_step.intros)

lemma control_can_end: "dn_shutting s \<Longrightarrow> dn_kill_closed s \<Longrightarrow> dn_control s \<noteq> CDone \<Longrightarrow> \<exists>t. control_step s t"
  by (cases "dn_control s") (auto intro: control_step.intros)

lemma joining_progress:
  assumes "daemon_inv s" "dn_main s = MJoin k" "dn_shutter s \<noteq> SWait \<or> dn_signal s"
  shows "\<exists>t. thread_step s t"
proof (cases "joined s k")
  case True
  then show ?thesis using assms(2) by (blast intro: thread_step.join join_step.join)
next
  case False
  have inv: "parser_inv s w" "dn_shutting s" "k \<le> 3" "join_ok k (dn_parser s ExecCalls) (dn_parser s OpenCalls) (dn_shutter s) (dn_control s)"
    "dn_kill_closed s \<longleftrightarrow> dn_shutter s = SDone" for w
    using assms(1,2) by (simp_all add: daemon_inv_def end_inv_def)
  then consider "k = 0" | "k = 1" | "k = 2" | "k = 3" by linarith
  then show ?thesis
  proof cases
    case 1
    then show ?thesis
      using False parser_can_end [OF inv(1) _ inv(2)] assms(2)
      by (metis joined_def main_at.distinct(1) thread_step.parser zero_neq_one)
  next
    case 2
    then show ?thesis
      using False parser_can_end [OF inv(1) _ inv(2)] assms(2)
      by (metis joined_def main_at.distinct(1) thread_step.parser zero_neq_one)
  next
    case 3
    then show ?thesis
      using False shutdown_can_end [OF assms(3)] by (force simp: joined_def intro: thread_step.shutdown)
  next
    case 4
    then show ?thesis
      using False control_can_end inv(2,4,5) by (force simp: joined_def intro: thread_step.control)
  qed
qed

lemma signal_kept:
  assumes "thread_step s t" "dn_shutter s \<noteq> SWait \<or> dn_signal s"
  shows "dn_shutter t \<noteq> SWait \<or> dn_signal t"
  using assms(1)
proof cases
  case (parser w)
  then show ?thesis using assms(2) parser_frame by metis
next
  case shutdown
  then show ?thesis by (auto elim!: shutdown_step.cases)
next
  case control
  then show ?thesis
    using assms(2) by (auto simp: answer_client_def Let_def split: client_request.splits elim!: control_step.cases)
next
  case main
  then show ?thesis using assms(2) by cases (auto simp: main_begin_def)
next
  case join
  then show ?thesis using assms(2) by (auto elim!: join_step.cases)
qed

lemma signals_kept:
  "thread_step\<^sup>*\<^sup>* s t \<Longrightarrow> dn_shutter s \<noteq> SWait \<or> dn_signal s \<Longrightarrow> dn_shutter t \<noteq> SWait \<or> dn_signal t"
  by (erule run_keeps, rule signal_kept)

section \<open>A tracer that is silent\<close>

text \<open>A parser thread in \<open>recv\<close>, on a socket with nothing to read.\<close>

definition stuck :: "which \<Rightarrow> daemon \<Rightarrow> bool" where
  "stuck w s \<longleftrightarrow> dn_parser s w = PRecv \<and> dn_feed s w = Silent \<and> dn_busy s w \<and> dn_main s = MLoop"

lemma stuck_same: "same_parsers s t \<Longrightarrow> dn_main t = dn_main s \<Longrightarrow> stuck w s \<Longrightarrow> stuck w t"
  by (simp add: stuck_def same_parsers_def)

lemma stuck_parser:
  assumes "parser_step v s t" "stuck w s"
  shows "stuck w t"
proof (cases "v = w")
  case True
  then show ?thesis
    using assms by (auto simp: stuck_def elim: parser_step.cases)
next
  case False
  then show ?thesis
    using assms(2) parser_frame(1) [OF assms(1)] parser_frame(10-13) [OF assms(1), of w] by (simp add: stuck_def)
qed

lemma stuck_main: "main_step s t \<Longrightarrow> stuck w s \<Longrightarrow> stuck w t"
proof (induction rule: main_step.induct)
  case (round s q b t)
  then have "\<not> main_over t"
    by (cases w) (simp_all add: stuck_def main_over_def main_begin_def)
  with round show ?case by (simp add: stuck_def main_begin_def)
qed (simp add: stuck_def main_begin_def)

lemma stuck_thread: "thread_step s t \<Longrightarrow> stuck w s \<Longrightarrow> stuck w t"
  by (erule thread_stepE)
     (auto dest: stuck_parser stuck_main shutdown_same control_frame(1,2) join_frame(2)
       intro: stuck_same simp: stuck_def [of _ s])

lemma stuck_threads: "thread_step\<^sup>*\<^sup>* s t \<Longrightarrow> stuck w s \<Longrightarrow> stuck w t"
  by (erule run_keeps, rule stuck_thread)

text \<open>A parser thread that waits in \<open>select\<close> when the pipe is closed, or later.\<close>

definition selecting :: "which \<Rightarrow> daemon" where
  "selecting w = daemon_start\<lparr>dn_parser := (\<lambda>_. PStart)(w := PSelect), dn_busy := (\<lambda>_. False)(w := True),
     dn_sock := (\<lambda>_. False)(w := True), dn_kill := (\<lambda>_. False)(w := True)\<rparr>"

lemma reach_selecting: "daemon_reach (selecting w)"
proof -
  let ?s1 = "(go w PConnect daemon_start)\<lparr>dn_busy := (dn_busy daemon_start)(w := True)\<rparr>"
  let ?s2 = "(go w PCheck ?s1)\<lparr>dn_sock := (dn_sock ?s1)(w := True), dn_kill := (dn_kill ?s1)(w := True)\<rparr>"
  have "daemon_reach ?s1"
    by (rule daemon_reach.thread [OF daemon_reach.start thread_step.parser [OF parser_step.start]])
       (simp add: daemon_start_def)
  then have "daemon_reach ?s2"
    by (rule daemon_reach.thread [OF _ thread_step.parser [OF parser_step.connected]]) (simp add: go_def)
  then have "daemon_reach (go w PSelect ?s2)"
    by (rule daemon_reach.thread [OF _ thread_step.parser [OF parser_step.go_on]])
       (simp_all add: go_def daemon_start_def)
  then show ?thesis
    by (simp add: go_def daemon_start_def selecting_def)
qed

definition closed_pipe :: "daemon \<Rightarrow> daemon" where
  "closed_pipe s = s\<lparr>dn_shutter := SDone, dn_signal := False, dn_shutting := True, dn_kill_closed := True\<rparr>"

lemma reach_closed: "daemon_reach s \<Longrightarrow> dn_shutter s = SWait \<Longrightarrow> daemon_reach (closed_pipe s)"
proof -
  assume reach: "daemon_reach s" and wait: "dn_shutter s = SWait"
  let ?s1 = "s\<lparr>dn_signal := True\<rparr>"
  let ?s2 = "?s1\<lparr>dn_shutter := SClose, dn_signal := False, dn_shutting := True\<rparr>"
  have "daemon_reach ?s2"
    by (rule daemon_reach.thread [OF daemon_reach.signal [OF reach] thread_step.shutdown [OF shutdown_step.sigwait]])
       (simp_all add: wait)
  then have "daemon_reach (?s2\<lparr>dn_shutter := SDone, dn_kill_closed := True\<rparr>)"
    by (rule daemon_reach.thread [OF _ thread_step.shutdown [OF shutdown_step.close_pipe]]) simp
  then show ?thesis by (cases s) (simp add: closed_pipe_def)
qed

lemma reach_stuck: "\<exists>s. daemon_reach s \<and> dn_kill_closed s \<and> stuck w s"
proof -
  let ?s = "closed_pipe (selecting w)"
  let ?t = "(go w PRecv ?s)\<lparr>dn_sock := (dn_sock ?s)(w := sock_ready ?s w), dn_kill := (dn_kill ?s)(w := kill_ready ?s w)\<rparr>"
  have "daemon_reach ?s"
    by (rule reach_closed [OF reach_selecting]) (simp add: selecting_def daemon_start_def)
  then have "daemon_reach ?t"
    by (rule daemon_reach.thread [OF _ thread_step.parser [OF parser_step.select]])
       (simp_all add: closed_pipe_def selecting_def kill_ready_def)
  moreover have "dn_kill_closed ?t \<and> stuck w ?t"
    by (simp add: closed_pipe_def selecting_def stuck_def go_def daemon_start_def)
  ultimately show ?thesis by blast
qed

text \<open>
  \<open>select\<close> leaves in the set what was ready, and the loop does not fill it again: once data has come
  before the pipe was closed, the pipe is not watched any more.
\<close>

lemma pipe_forgotten:
  "parser_step w s t \<Longrightarrow> dn_parser s w = PSelect \<Longrightarrow> \<not> dn_kill_closed s \<Longrightarrow> dn_parser t w = PRecv \<Longrightarrow> \<not> dn_kill t w"
  by (auto simp: kill_ready_def leave_def go_def elim!: parser_step.cases)

lemma pipe_stays_forgotten:
  "parser_step v s t \<Longrightarrow> dn_parser s w \<noteq> PConnect \<Longrightarrow> \<not> dn_kill s w \<Longrightarrow> \<not> dn_kill t w"
  by (auto simp: kill_ready_def leave_def go_def elim!: parser_step.cases split: if_splits)

section \<open>A shutdown without a signal\<close>

text \<open>The daemon is shutting down, and the thread for it still waits for its signal.\<close>

definition unsignalled :: "daemon \<Rightarrow> bool" where
  "unsignalled s \<longleftrightarrow> dn_shutting s \<and> dn_shutter s = SWait \<and> \<not> dn_signal s"

lemma unsignalled_control: "control_step s t \<Longrightarrow> unsignalled s \<Longrightarrow> unsignalled t"
  by (auto simp: unsignalled_def answer_client_def Let_def split: client_request.splits elim!: control_step.cases)

lemma unsignalled_main: "main_step s t \<Longrightarrow> unsignalled s \<Longrightarrow> unsignalled t"
  by (induction rule: main_step.induct) (simp_all add: unsignalled_def main_begin_def)

lemma unsignalled_join: "join_step s t \<Longrightarrow> unsignalled s \<Longrightarrow> unsignalled t"
  by (auto simp: unsignalled_def elim!: join_step.cases)

lemma unsignalled_thread: "thread_step s t \<Longrightarrow> unsignalled s \<Longrightarrow> unsignalled t"
proof (erule thread_stepE)
  fix w assume "parser_step w s t" "unsignalled s"
  then show ?thesis by (simp add: unsignalled_def parser_frame)
next
  assume "shutdown_step s t" "unsignalled s"
  then show ?thesis by (auto simp: unsignalled_def elim: shutdown_step.cases)
qed (auto dest: unsignalled_control unsignalled_main unsignalled_join)

lemma unsignalled_world: "world_step s t \<Longrightarrow> unsignalled s \<Longrightarrow> unsignalled t"
  by (auto simp: unsignalled_def elim!: world_step.cases)

lemma unsignalled_run:
  "(sup thread_step world_step)\<^sup>*\<^sup>* s t \<Longrightarrow> daemon_inv s \<Longrightarrow> unsignalled s \<Longrightarrow> daemon_inv t \<and> unsignalled t"
  by (induction rule: rtranclp_induct)
     (auto dest: unsignalled_thread unsignalled_world thread_keeps_inv world_keeps_inv)

text \<open>The rounds of a daemon that is left alone.\<close>

lemma idle_rounds: "n \<le> 424241 \<Longrightarrow> daemon_reach (daemon_start\<lparr>dn_counter := n + 1\<rparr>)"
proof (induction n)
  case 0
  have "daemon_start\<lparr>dn_counter := 0 + 1\<rparr> = daemon_start"
    by (simp add: daemon_start_def)
  then show ?case using daemon_reach.start by metis
next
  case (Suc n)
  let ?s = "daemon_start\<lparr>dn_counter := n + 1\<rparr>"
  let ?t = "(main_begin ?s)\<lparr>dn_queued := 0, dn_comparing := False, dn_counter := dn_counter ?s + 1\<rparr>"
  have "main_step ?s (if main_over ?t then ?t\<lparr>dn_main := MJoin 0\<rparr> else ?t)"
    by (rule main_step.round) (simp_all add: daemon_start_def)
  moreover have "\<not> main_over ?t" "?t = daemon_start\<lparr>dn_counter := Suc n + 1\<rparr>"
    using Suc.prems by (simp_all add: main_over_def main_begin_def daemon_start_def)
  ultimately have "main_step ?s (daemon_start\<lparr>dn_counter := Suc n + 1\<rparr>)"
    by simp
  with Suc show ?case by (auto intro: daemon_reach.thread thread_step.main)
qed

definition tired :: daemon where
  "tired = daemon_start\<lparr>dn_counter := 424243, dn_shutting := True, dn_main := MJoin 0\<rparr>"

lemma reach_tired: "daemon_reach tired"
proof -
  let ?s = "daemon_start\<lparr>dn_counter := 424242\<rparr>"
  let ?t = "(main_begin ?s)\<lparr>dn_queued := 0, dn_comparing := False, dn_counter := dn_counter ?s + 1\<rparr>"
  have "main_step ?s (if main_over ?t then ?t\<lparr>dn_main := MJoin 0\<rparr> else ?t)"
    by (rule main_step.round) (simp_all add: daemon_start_def)
  moreover have "main_over ?t" "?t\<lparr>dn_main := MJoin 0\<rparr> = tired"
    by (simp_all add: main_over_def main_begin_def daemon_start_def tired_def)
  ultimately have "main_step ?s tired" by simp
  moreover have "daemon_reach ?s" using idle_rounds [of 424241] by simp
  ultimately show ?thesis by (blast intro: daemon_reach.thread thread_step.main)
qed

section \<open>A round of the loop is a step\<close>

definition models :: "daemon \<Rightarrow> 'd main_state \<Rightarrow> execCall list \<Rightarrow> openCall list \<Rightarrow> bool" where
  "models s st es ocs \<longleftrightarrow>
     queued (dn_shutting s, dn_busy s OpenCalls, dn_busy s ExecCalls, dn_counter s) st es ocs
     \<and> dn_queued s = length es + length ocs \<and> dn_comparing s = m_compMode st"

section \<open>Properties\<close>

text \<open>
  C9: The main loop as the other theories have it is a step of the relation between the threads.
  If the flags, the counter, the mode and the number of queued calls agree before a round that
  does not fault, then the main thread can make a step after which they agree again, and it
  leaves the loop in that step exactly if the round was the last one.
\<close>

theorem main_round_is_step:
  assumes "main_round env st = Inr (dead, st')" "models s st es ocs" "dn_main s = MLoop"
  shows "\<exists>t es' ocs'. main_step s t \<and> models t st' es' ocs' \<and> (dead \<longleftrightarrow> dn_main t = MJoin 0)"
proof -
  let ?d = "dn_shutting s \<or> 424242 \<le> dn_counter s"
  obtain cont es' ocs' where r:
    "queued (?d, dn_busy s OpenCalls, dn_busy s ExecCalls, if cont then dn_counter s else dn_counter s + 1) st' es' ocs'"
    "waiting (m_compMode st') es' ocs' < waiting (m_compMode st) es ocs
       \<or> \<not> cont \<and> es' = [] \<and> ocs' = [] \<and> \<not> m_compMode st'"
    "cont \<longrightarrow> m_compMode st' \<and> \<not> m_compMode st"
    "dead \<longleftrightarrow> \<not> cont \<and> ?d \<and> \<not> dn_busy s OpenCalls \<and> \<not> dn_busy s ExecCalls \<and> es' = [] \<and> ocs' = []"
    using round_queued [OF assms(1)] assms(2) unfolding models_def by blast
  let ?q = "length es' + length ocs'"
  have less: "to_do ?q (m_compMode st') < to_do (dn_queued s) (dn_comparing s) \<or> \<not> cont \<and> ?q = 0 \<and> \<not> m_compMode st'"
    using r(2) assms(2) by (auto simp: models_def waiting_def to_do_def)
  show ?thesis
  proof (cases cont)
    case True
    have mode: "m_compMode st'" "\<not> dn_comparing s"
      using True r(3) assms(2) by (simp_all add: models_def)
    then have "?q + 2 \<le> dn_queued s"
      using less True by (simp add: to_do_def)
    with mode assms(3) have "main_step s ((main_begin s)\<lparr>dn_queued := ?q, dn_comparing := True\<rparr>)"
      by (intro main_step.two_calls) simp_all
    with True mode r(1,4) assms(3) show ?thesis
      by (intro exI [of _ "(main_begin s)\<lparr>dn_queued := ?q, dn_comparing := True\<rparr>"] exI [of _ es'] exI [of _ ocs'])
         (simp add: models_def main_begin_def)
  next
    case False
    let ?t = "(main_begin s)\<lparr>dn_queued := ?q, dn_comparing := m_compMode st', dn_counter := dn_counter s + 1\<rparr>"
    have "main_step s (if main_over ?t then ?t\<lparr>dn_main := MJoin 0\<rparr> else ?t)"
      using less assms(3) by (intro main_step.round [where q = ?q and b = "m_compMode st'"]) auto
    moreover have "main_over ?t \<longleftrightarrow> dead"
      using r(4) False by (auto simp: main_over_def main_begin_def)
    ultimately show ?thesis
      using r(1) False assms(3)
      by (intro exI [of _ "if dead then ?t\<lparr>dn_main := MJoin 0\<rparr> else ?t"] exI [of _ es'] exI [of _ ocs'])
         (auto simp: models_def main_begin_def)
  qed
qed

definition quiet :: "list_db main_state" where
  "quiet = (demo_main [] [])\<lparr>m_surv := (m_surv (demo_main [] []))\<lparr>sv_shutting_down := False\<rparr>\<rparr>"

theorem main_round_is_step_witness:
  "\<exists>t es' ocs'. main_step daemon_start t \<and> models t (quiet\<lparr>m_counter := 2\<rparr>) es' ocs' \<and> (False \<longleftrightarrow> dn_main t = MJoin 0)"
proof (rule main_round_is_step)
  show "main_round demo_main_env quiet = Inr (False, quiet\<lparr>m_counter := 2\<rparr>)"
    by (simp add: Let_def g_ringBuffer_size_def ring_of_def main_round_def main_merge_def main_collect_def main_finish_def main_dead_def quiet_def demo_main_def)
  show "models daemon_start quiet [] []"
    by (simp add: models_def queued_def flags_def daemon_start_def quiet_def demo_main_def demo_surv_def ring_of_one)
qed (simp add: daemon_start_def)

text \<open>
  C12: No call is left in a queue. In every state that the daemon can reach and in which the
  main loop has ended, the queues are empty, and they stay empty whatever the threads do from
  then on; and when the process exits, all four threads have ended.
\<close>

theorem nothing_queued_after_loop:
  assumes "daemon_reach s" "dn_main s \<noteq> MLoop" "thread_step\<^sup>*\<^sup>* s t"
  shows "dn_shutting t \<and> dn_queued t = 0 \<and> (dn_main t = MExit r \<longrightarrow>
    dn_parser t OpenCalls = PDone \<and> dn_parser t ExecCalls = PDone \<and> dn_shutter t = SDone \<and> dn_control t = CDone)"
proof -
  have "daemon_inv t" "dn_main t \<noteq> MLoop"
    using threads_keep_inv [OF assms(3) reach_inv [OF assms(1)]] threads_stay_left [OF assms(3,2)] by simp_all
  then show ?thesis
    by (auto simp: daemon_inv_def end_inv_def)
qed

theorem nothing_queued_after_loop_witness: "dn_shutting tired \<and> dn_queued tired = 0"
  using nothing_queued_after_loop [OF reach_tired _ rtranclp.rtrancl_refl] by (simp add: tired_def)

text \<open>
  C13: Once the main loop has ended and the shutdown thread has its signal, the process exits.
  In every interleaving the threads make at most 14 more steps, and where none of them can make
  a step, the main thread has made its joins and exits.
\<close>

theorem exit_follows_loop:
  assumes "daemon_reach s" "dn_main s \<noteq> MLoop" "dn_shutter s \<noteq> SWait \<or> dn_signal s" "(thread_step ^^ n) s t"
  shows "n \<le> 14 \<and> ((\<exists>r. dn_main t = MExit r) \<or> (\<exists>u. thread_step t u))"
proof -
  have inv: "daemon_inv s" by (rule reach_inv [OF assms(1)])
  have run: "thread_step\<^sup>*\<^sup>* s t" using assms(4) by (rule relpowp_imp_rtranclp)
  have "n \<le> 14"
    using run_bounded [OF assms(4) inv assms(2)] steps_left_max [of s] by simp
  moreover have "\<exists>u. thread_step t u" if "dn_main t = MJoin k" for k
    using joining_progress [OF threads_keep_inv [OF run inv] that] signals_kept [OF run assms(3)] by blast
  ultimately show ?thesis
    using threads_stay_left [OF run assms(2)] by (cases "dn_main t") auto
qed

theorem exit_follows_loop_witness:
  "(0::nat) \<le> 14 \<and> ((\<exists>r. dn_main (tired\<lparr>dn_signal := True\<rparr>) = MExit r) \<or> (\<exists>u. thread_step (tired\<lparr>dn_signal := True\<rparr>) u))"
  by (rule exit_follows_loop [OF daemon_reach.signal [OF reach_tired]]) (simp_all add: tired_def)

text \<open>
  C37: The shutdown does not end a parser thread whose tracer is silent. Closing the pipe ends
  its select, but the thread then reads from the socket without looking at which descriptor was
  ready. The daemon can reach a state in which the signal has been taken and the pipe is closed,
  and from which no steps of its threads ever take the main thread out of its loop.
\<close>

theorem silent_tracer_blocks_shutdown:
  "\<exists>s. daemon_reach s \<and> dn_shutting s \<and> dn_kill_closed s \<and> (\<forall>t. thread_step\<^sup>*\<^sup>* s t \<longrightarrow> dn_main t = MLoop)"
proof -
  obtain s where s: "daemon_reach s" "dn_kill_closed s" "stuck OpenCalls s"
    using reach_stuck by blast
  moreover have "dn_shutting s"
    using reach_inv [OF s(1)] s(2) by (simp add: daemon_inv_def end_inv_def)
  moreover have "dn_main t = MLoop" if "thread_step\<^sup>*\<^sup>* s t" for t
    using stuck_threads [OF that s(3)] by (simp add: stuck_def)
  ultimately show ?thesis by blast
qed

theorem silent_tracer_blocks_shutdown_witness:
  "\<exists>s. daemon_reach s \<and> dn_shutting s \<and> dn_kill_closed s \<and> dn_main s = MLoop"
  using silent_tracer_blocks_shutdown by blast

text \<open>
  C38: A daemon that stops by itself does not exit. After round 424242 the main loop sets the
  flag without a signal; the thread that waits for the signal then never ends, because a request
  to shut down is refused while the flag is set, and the main thread waits for it for ever,
  whatever the threads, the tracers and the clients do.
\<close>

theorem own_shutdown_never_exits:
  assumes "daemon_reach s" "unsignalled s" "(sup thread_step world_step)\<^sup>*\<^sup>* s t"
  shows "dn_main t \<noteq> MExit r"
proof -
  have "daemon_inv t" "unsignalled t"
    using unsignalled_run [OF assms(3) reach_inv [OF assms(1)] assms(2)] by simp_all
  then show ?thesis
    by (auto simp: daemon_inv_def end_inv_def unsignalled_def)
qed

theorem own_shutdown_never_exits_witness:
  "daemon_reach tired \<and> dn_counter tired = 424243 \<and> dn_main tired \<noteq> MExit False"
  using own_shutdown_never_exits [OF reach_tired _ rtranclp.rtrancl_refl, of False] reach_tired
  by (simp add: unsignalled_def tired_def daemon_start_def)

end
