(* ===== verification/Threads.thy ===== *)
theory Threads
  imports Daemon LineParser
begin

text \<open>
  The parser threads as \<open>Parser\<close> has them, byte by byte, are runs of the parser threads in \<open>Daemon\<close>, which only
  count the calls: what a round of \<open>select\<close> and \<open>recv\<close> adds to the queue is the number of calls in one
  step. The source is \<open>src/src/watchdog/src/watchdog.c\<close>, lines 541-921.
\<close>

section \<open>A thread only adds to its queue\<close>

definition grows :: "'c g_ringBuffer \<Rightarrow> 'c g_ringBuffer \<Rightarrow> bool" where
  "grows q q' \<longleftrightarrow> ring_inv q' \<and> (\<exists>new. ring_list q' = ring_list q @ new)"

lemma grows_refl: "ring_inv q \<Longrightarrow> grows q q"
  by (simp add: grows_def)

lemma grows_trans: "grows q q1 \<Longrightarrow> grows q1 q2 \<Longrightarrow> grows q q2"
  by (auto simp: grows_def)

lemma grows_length: "grows q q' \<Longrightarrow> length (ring_list q) \<le> length (ring_list q')"
  by (auto simp: grows_def)

text \<open>The reader of the queue does nothing between two attempts to write.\<close>

definition idle_reader :: "'c parse_env \<Rightarrow> bool" where
  "idle_reader env \<longleftrightarrow> pe_pause env = (\<lambda>_ q. q)"

lemma retry_grows:
  assumes "retry_write g_ringBuffer_write (\<lambda>_ q. q) n q x = Inr (ret, q')" "ring_inv q"
  shows "grows q q'"
proof -
  obtain r q1 where w: "g_ringBuffer_write q x = Inr (r, q1)" "ring_inv q1"
    "if length (ring_list q) < SIZE_RING then r = 0 \<and> ring_list q1 = ring_list q @ [x] else r = 1 \<and> q1 = q"
    using gq.wr_cases [OF assms(2), of x] by blast
  show ?thesis
    using assms(1)
  proof (induction n)
    case 0
    with w show ?case by (auto simp: grows_def split: if_splits)
  next
    case (Suc n)
    with w show ?case by (auto simp: grows_def split: if_splits)
  qed
qed

lemma put_field_queue: "put_field env p = Inr (r, p') \<Longrightarrow> p_queue p' = p_queue p"
  by (auto simp: put_field_def bind_r_Inr_iff)

lemma end_string_queue: "end_string i p = Inr p' \<Longrightarrow> p_queue p' = p_queue p"
  by (auto simp: end_string_def bind_r_Inr_iff)

lemma parse_tab_queue: "parse_tab env i p = Inr (stop, p') \<Longrightarrow> p_queue p' = p_queue p"
  by (auto simp: parse_tab_def bind_r_Inr_iff put_field_queue dest!: end_string_queue put_field_queue)

section \<open>Runs of one thread and its tracer\<close>

definition hears :: "which \<Rightarrow> daemon \<Rightarrow> daemon \<Rightarrow> bool" where
  "hears w s t \<longleftrightarrow> parser_step w s t
     \<or> (\<exists>f. dn_feed s w \<noteq> Hungup \<and> f \<noteq> Silent \<and> t = s\<lparr>dn_feed := (dn_feed s)(w := f)\<rparr>)"

lemma hears_step: "parser_step w s t \<Longrightarrow> hears w s t"
  by (simp add: hears_def)

lemma hears_runs: "(hears w)\<^sup>*\<^sup>* s t \<Longrightarrow> (sup thread_step world_step)\<^sup>*\<^sup>* s t"
proof (erule rtranclp_mono [THEN predicate2D, rotated], rule predicate2I)
  fix s t assume "hears w s t"
  then show "sup thread_step world_step s t"
    using thread_step.parser world_step.tracer by (auto simp: hears_def)
qed

lemma hears_frame:
  assumes "(hears w)\<^sup>*\<^sup>* s t"
  shows "dn_main t = dn_main s \<and> dn_shutting t = dn_shutting s \<and> dn_shutter t = dn_shutter s \<and> dn_control t = dn_control s
     \<and> (\<forall>v. v \<noteq> w \<longrightarrow> dn_parser t v = dn_parser s v \<and> dn_feed t v = dn_feed s v)"
  using assms
proof (induction rule: rtranclp_induct)
  case (step t u)
  then show ?case by (auto simp: hears_def parser_frame)
qed simp

text \<open>A thread before its \<open>select\<close>, and the same one when it has been told that there is something to read.\<close>

definition listens :: "which \<Rightarrow> daemon \<Rightarrow> bool" where
  "listens w s \<longleftrightarrow> dn_parser s w = PCheck \<and> \<not> dn_shutting s \<and> dn_sock s w \<and> dn_feed s w \<noteq> Hungup"

lemma listens_hears:
  assumes "listens w s" "f \<noteq> Silent"
  shows "\<exists>t. (hears w)\<^sup>*\<^sup>* s t \<and> dn_parser t w = PRecv \<and> dn_feed t w = f \<and> dn_sock t w \<and> \<not> dn_shutting t \<and> dn_queued t = dn_queued s"
proof -
  let ?a = "go w PSelect s"
  let ?b = "?a\<lparr>dn_feed := (dn_feed ?a)(w := f)\<rparr>"
  let ?c = "(go w PRecv ?b)\<lparr>dn_sock := (dn_sock ?b)(w := sock_ready ?b w), dn_kill := (dn_kill ?b)(w := kill_ready ?b w)\<rparr>"
  have "hears w s ?a"
    using assms(1) by (intro hears_step parser_step.go_on) (simp_all add: listens_def)
  moreover have "hears w ?a ?b"
    using assms by (auto simp: hears_def listens_def go_def)
  moreover have "hears w ?b ?c"
    using assms by (intro hears_step parser_step.select) (auto simp: listens_def go_def sock_ready_def)
  ultimately have "(hears w)\<^sup>*\<^sup>* s ?c"
    by (meson r_into_rtranclp rtranclp.rtrancl_into_rtrancl)
  moreover have "dn_parser ?c w = PRecv \<and> dn_feed ?c w = f \<and> dn_sock ?c w \<and> \<not> dn_shutting ?c \<and> dn_queued ?c = dn_queued s"
    using assms by (auto simp: listens_def go_def sock_ready_def)
  ultimately show ?thesis by blast
qed

text \<open>What a run of the thread does to the number of calls in the queues.\<close>

definition counts :: "'c g_ringBuffer \<Rightarrow> 'c g_ringBuffer \<Rightarrow> daemon \<Rightarrow> daemon \<Rightarrow> bool" where
  "counts q q' s t \<longleftrightarrow> grows q q' \<and> dn_queued t + length (ring_list q) = dn_queued s + length (ring_list q')"

lemma counts_same: "ring_inv q \<Longrightarrow> dn_queued t = dn_queued s \<Longrightarrow> counts q q s t"
  by (simp add: counts_def grows_refl)

lemma counts_trans: "counts q q1 s t \<Longrightarrow> counts q1 q2 t u \<Longrightarrow> counts q q2 s u"
  by (auto simp: counts_def grows_def)

lemma counts_add: "grows q q' \<Longrightarrow> dn_queued t = dn_queued s + (length (ring_list q') - length (ring_list q)) \<Longrightarrow> counts q q' s t"
  using grows_length [of q q'] by (simp add: counts_def)

text \<open>The end of a message: the thread goes on, or it leaves.\<close>

lemma reads_message:
  assumes "listens w s" "grows q q'"
  shows "\<exists>t. (hears w)\<^sup>*\<^sup>* s t \<and> counts q q' s t \<and> (if stop then dn_parser t w = PDone else listens w t)"
proof -
  obtain t where t: "(hears w)\<^sup>*\<^sup>* s t" "dn_parser t w = PRecv" "dn_feed t w = HasData" "dn_sock t w" "\<not> dn_shutting t"
    "dn_queued t = dn_queued s"
    using listens_hears [OF assms(1), of HasData] by auto
  let ?k = "length (ring_list q') - length (ring_list q)"
  let ?stop = "(leave w t)\<lparr>dn_queued := dn_queued t + ?k\<rparr>"
  let ?go = "(go w PCheck t)\<lparr>dn_feed := (dn_feed t)(w := Silent), dn_queued := dn_queued t + ?k\<rparr>"
  have "hears w t ?stop" "hears w t ?go"
    using t(2,3) by (intro hears_step parser_step.give_up parser_step.recv; simp)+
  then have "(hears w)\<^sup>*\<^sup>* s (if stop then ?stop else ?go)"
    using t(1) by (auto intro: rtranclp.rtrancl_into_rtrancl)
  moreover have "counts q q' s (if stop then ?stop else ?go)"
    using t(6) by (intro counts_add [OF assms(2)]) simp
  ultimately show ?thesis
    using t(4,5) by (intro exI [of _ "if stop then ?stop else ?go"]) (auto simp: leave_def go_def listens_def)
qed

lemma hears_end:
  assumes "listens w s" "ring_inv q"
  shows "\<exists>t. (hears w)\<^sup>*\<^sup>* s t \<and> counts q q s t \<and> dn_parser t w = PDone"
proof -
  obtain t where t: "(hears w)\<^sup>*\<^sup>* s t" "dn_parser t w = PRecv" "dn_feed t w = Hungup" "dn_queued t = dn_queued s"
    using listens_hears [OF assms(1), of Hungup] by auto
  have "hears w t (leave w t)"
    using t(2,3) by (intro hears_step parser_step.recv_end)
  with t(1,4) assms(2) show ?thesis
    by (intro exI [of _ "leave w t"]) (auto simp: leave_def go_def counts_same intro: rtranclp.rtrancl_into_rtrancl)
qed

lemma hears_failure:
  assumes "listens w s" "ring_inv q"
  shows "\<exists>t. (hears w)\<^sup>*\<^sup>* s t \<and> counts q q s t \<and> dn_parser t w = PDone"
proof -
  let ?a = "go w PSelect s"
  have "hears w s ?a" "hears w ?a (leave w ?a)"
    using assms(1) by (intro hears_step parser_step.go_on parser_step.select_fails; simp add: listens_def go_def)+
  then have "(hears w)\<^sup>*\<^sup>* s (leave w ?a)" by (meson r_into_rtranclp rtranclp.rtrancl_into_rtrancl)
  with assms(2) show ?thesis
    by (intro exI [of _ "leave w ?a"]) (simp add: leave_def go_def counts_same)
qed

fun heard :: "sock_event \<Rightarrow> bool" where
  "heard (RecvError n buf) = False"
| "heard ev = True"

text \<open>
  The interface of both threads: the step that builds a record adds to the queue at most, and a round
  hands the bytes it received to the walk over the buffer.
\<close>

locale queue_writer =
  fixes finish :: "'c parse_env \<Rightarrow> 'c parser \<Rightarrow> (bool \<times> 'c parser) res"
    and round :: "alloc_env \<Rightarrow> (nat \<Rightarrow> 'c parse_env) \<Rightarrow> 'c parser \<Rightarrow> sock_event \<Rightarrow> (bool \<times> 'c parser) res"
    and code :: "nat \<Rightarrow> int"
  assumes finish_grows: "finish env p = Inr (stop, p') \<Longrightarrow> idle_reader env \<Longrightarrow> ring_inv (p_queue p)
      \<Longrightarrow> grows (p_queue p) (p_queue p')"
    and round_fails: "round mem penv p SelectError = Inr (True, p\<lparr>p_ret := -1\<rparr>)"
      "round mem penv p SelectTimeout = Inr (True, p\<lparr>p_ret := 0\<rparr>)"
    and round_ends: "round mem penv p (Received n []) = Inr (True, p\<lparr>p_ret := code n\<rparr>)"
    and round_reads: "bytes \<noteq> [] \<Longrightarrow> round mem penv p (Received n bytes)
      = parse_chunk finish mem penv (p\<lparr>p_ret := code n\<rparr>) bytes (length bytes)"
begin

lemma newline_grows:
  assumes "parse_newline finish env i p = Inr (stop, p')" "idle_reader env" "ring_inv (p_queue p)"
  shows "grows (p_queue p) (p_queue p')"
proof -
  let ?last = "if p_curr p = field_num - 1
      then bind_r (end_string i p) (\<lambda>p. bind_r (put_field (pe_append env) p) (\<lambda>(ret, p). finish env (p\<lparr>p_ret := ret\<rparr>)))
      else Inr (False, p)"
  obtain r1 where r1: "?last = Inr r1" "(case r1 of (stop, p) \<Rightarrow> if stop then Inr (True, p)
      else let p = p\<lparr>p_start := i + 1, p_curr := 0\<rparr> in
         bind_r (flush_all (p_fields p)) (\<lambda>fs. Inr (False, p\<lparr>p_fields := fs\<rparr>))) = Inr (stop, p')"
    using assms(1) unfolding parse_newline_def by (rule bind_r_InrE)
  obtain stop1 p1 where "r1 = (stop1, p1)" by (cases r1)
  with r1 have p1: "?last = Inr (stop1, p1)" "p_queue p' = p_queue p1"
    by (simp_all add: bind_r_Inr_iff Let_def split: if_splits) auto
  show ?thesis
  proof (cases "p_curr p = field_num - 1")
    case True
    then obtain p2 r p3 where p3: "end_string i p = Inr p2" "put_field (pe_append env) p2 = Inr (r, p3)"
      "finish env (p3\<lparr>p_ret := r\<rparr>) = Inr (stop1, p1)"
      using p1(1) by (auto simp: bind_r_Inr_iff)
    then have "p_queue (p3\<lparr>p_ret := r\<rparr>) = p_queue p"
      using end_string_queue put_field_queue by fastforce
    with finish_grows [OF p3(3) assms(2)] assms(3) p1(2) show ?thesis by simp
  next
    case False
    with p1 assms(3) show ?thesis by (simp add: grows_refl)
  qed
qed

lemma char_grows:
  assumes "parse_char finish env i p = Inr (stop, p')" "idle_reader env" "ring_inv (p_queue p)"
  shows "grows (p_queue p) (p_queue p')"
  using assms newline_grows [of env i p stop p'] parse_tab_queue [of env i p stop p']
  by (auto simp: parse_char_def bind_r_Inr_iff grows_refl split: if_splits)

lemma scan_grows:
  "parse_scan finish env n i p = Inr (stop, p') \<Longrightarrow> \<forall>i. idle_reader (env i) \<Longrightarrow> ring_inv (p_queue p)
    \<Longrightarrow> grows (p_queue p) (p_queue p')"
proof (induction n arbitrary: i p)
  case 0
  then show ?case by (simp add: grows_refl)
next
  case (Suc n)
  obtain stop1 p1 where p1: "parse_char finish (env i) i p = Inr (stop1, p1)"
    "(if stop1 then Inr (True, p1) else parse_scan finish env n (i + 1) p1) = Inr (stop, p')"
    using Suc.prems(1) by (auto simp: bind_r_Inr_iff)
  have g: "grows (p_queue p) (p_queue p1)"
    using char_grows [OF p1(1)] Suc.prems(2,3) by blast
  show ?case
  proof (cases stop1)
    case True
    with p1(2) g show ?thesis by simp
  next
    case False
    with Suc.IH [of "i + 1" p1] p1(2) g Suc.prems(2) grows_trans [OF g] show ?thesis
      by (simp add: grows_def)
  qed
qed

lemma chunk_grows:
  assumes "parse_chunk finish mem env p buf rlen = Inr (stop, p')" "\<forall>i. idle_reader (env i)" "ring_inv (p_queue p)"
  shows "grows (p_queue p) (p_queue p')"
proof -
  obtain ret sbuf where s: "sb_appendl mem (p_sbuf p) buf rlen = Inr (ret, sbuf)"
    using assms(1) by (auto simp: parse_chunk_def bind_r_Inr_iff)
  show ?thesis
  proof (cases "ret = 0")
    case False
    with s assms(1,3) show ?thesis by (auto simp: parse_chunk_def Let_def grows_refl)
  next
    case True
    let ?p = "p\<lparr>p_ret := 0, p_sbuf := sbuf\<rparr>"
    have eq: "parse_chunk finish mem env p buf rlen = bind_r (parse_scan finish env (end_pos sbuf + 1) 0 ?p) (\<lambda>(stop, p).
         if stop then Inr (True, p)
         else bind_r (sb_deletehead (p_sbuf p) (p_start p)) (\<lambda>sbuf. Inr (False, p\<lparr>p_sbuf := sbuf, p_start := 0\<rparr>)))"
      using s True by (simp add: parse_chunk_def del: parse_scan.simps)
    obtain r1 where r1: "parse_scan finish env (end_pos sbuf + 1) 0 ?p = Inr r1"
      "(case r1 of (stop, p) \<Rightarrow> if stop then Inr (True, p)
         else bind_r (sb_deletehead (p_sbuf p) (p_start p)) (\<lambda>sbuf. Inr (False, p\<lparr>p_sbuf := sbuf, p_start := 0\<rparr>))) = Inr (stop, p')"
      using assms(1) unfolding eq by (rule bind_r_InrE)
    obtain stop1 p1 where p1: "r1 = (stop1, p1)" by (cases r1)
    with r1(2) have "p_queue p' = p_queue p1"
      by (auto simp: bind_r_Inr_iff split: if_splits)
    with scan_grows [OF r1(1) [unfolded p1] assms(2)] assms(3) show ?thesis by simp
  qed
qed

text \<open>The loop of a thread, as a run in \<open>Daemon\<close>.\<close>

lemma loop_runs:
  assumes "recv_loop (\<lambda>k. round (mem k) (env k)) k p evs = Inr p'" "\<forall>ev \<in> set evs. heard ev"
    "\<forall>k i. idle_reader (env k i)" "ring_inv (p_queue p)" "listens w s"
  shows "\<exists>t. (hears w)\<^sup>*\<^sup>* s t \<and> counts (p_queue p) (p_queue p') s t \<and> (dn_parser t w = PDone \<or> dn_parser t w = PCheck)"
  using assms(1,2,4,5)
proof (induction evs arbitrary: k p s)
  case Nil
  then show ?case by (intro exI [of _ s]) (simp add: counts_same listens_def)
next
  case (Cons ev evs)
  obtain r where r: "round (mem k) (env k) p ev = Inr r"
    "(case r of (stop, p) \<Rightarrow> if stop then Inr p else recv_loop (\<lambda>k. round (mem k) (env k)) (k + 1) p evs) = Inr p'"
    using Cons.prems(1) unfolding recv_loop.simps by (rule bind_r_InrE)
  obtain stop p1 where p1: "r = (stop, p1)" by (cases r)
  note over = hears_failure [OF Cons.prems(4,3)] hears_end [OF Cons.prems(4,3)]
  show ?case
  proof (cases "\<exists>n bytes. ev = Received n bytes \<and> bytes \<noteq> []")
    case False
    then have "ev = SelectError \<or> ev = SelectTimeout \<or> (\<exists>n. ev = Received n [])"
      using Cons.prems(2) by (cases ev) auto
    then have "p_queue p' = p_queue p"
      using r round_fails round_ends by auto
    with over(1) show ?thesis by auto
  next
    case True
    then obtain n bytes where ev: "ev = Received n bytes" "bytes \<noteq> []" by blast
    have g: "grows (p_queue p) (p_queue p1)"
      using chunk_grows [of "mem k" "env k" "p\<lparr>p_ret := code n\<rparr>" bytes "length bytes" stop p1] r(1) p1 ev
        round_reads [OF ev(2)] assms(3) Cons.prems(3) by simp
    obtain t where t: "(hears w)\<^sup>*\<^sup>* s t" "counts (p_queue p) (p_queue p1) s t"
      "if stop then dn_parser t w = PDone else listens w t"
      using reads_message [OF Cons.prems(4) g] by blast
    show ?thesis
    proof (cases stop)
      case True
      with r(2) p1 t show ?thesis by auto
    next
      case False
      then have "recv_loop (\<lambda>k. round (mem k) (env k)) (k + 1) p1 evs = Inr p'" "listens w t"
        using r(2) p1 t(3) by simp_all
      with Cons.IH [of "k + 1" p1 t] Cons.prems(2) g obtain u where
        "(hears w)\<^sup>*\<^sup>* t u" "counts (p_queue p1) (p_queue p') t u" "dn_parser u w = PDone \<or> dn_parser u w = PCheck"
        by (auto simp: grows_def)
      with t(1,2) show ?thesis
        using counts_trans by (meson rtranclp_trans)
    qed
  qed
qed

end

interpretation open_q: queue_writer "surv_openCall_finish hit stat" "surv_openCall_round (surv_openCall_finish hit stat)" "\<lambda>_. NOMINAL"
  for hit stat
proof
  fix env :: "openCall parse_env" and p p' :: "openCall parser" and stop
  assume f: "surv_openCall_finish hit stat env p = Inr (stop, p')" and env: "idle_reader env" and q: "ring_inv (p_queue p)"
  have retry: "retry_write g_ringBuffer_write (pe_pause env) n (p_queue p) x = Inr (r, q') \<Longrightarrow> grows (p_queue p) q'" for n x r q'
    using retry_grows [of n "p_queue p" x r q'] q env by (simp add: idle_reader_def)
  show "grows (p_queue p) (p_queue p')"
    using f q retry by (auto simp: surv_openCall_finish_def bind_r_Inr_iff Let_def grows_refl split: if_splits)
qed (simp_all add: surv_openCall_round_def)

interpretation exec_q: queue_writer surv_execCall_finish "surv_execCall_round surv_execCall_finish" int
proof
  fix env :: "execCall parse_env" and p p' :: "execCall parser" and stop
  assume f: "surv_execCall_finish env p = Inr (stop, p')" and env: "idle_reader env" and q: "ring_inv (p_queue p)"
  have retry: "retry_write g_ringBuffer_write (pe_pause env) n (p_queue p) x = Inr (r, q') \<Longrightarrow> grows (p_queue p) q'" for n x r q'
    using retry_grows [of n "p_queue p" x r q'] q env by (simp add: idle_reader_def)
  show "grows (p_queue p) (p_queue p')"
    using f q retry by (auto simp: surv_execCall_finish_def bind_r_Inr_iff Let_def grows_refl split: if_splits)
qed (simp_all add: surv_execCall_round_def)

section \<open>From the start of a thread\<close>

lemma thread_opens:
  assumes "dn_parser s w = PStart" "\<not> dn_shutting s" "dn_feed s w \<noteq> Hungup"
  shows "\<exists>t. (hears w)\<^sup>*\<^sup>* s t \<and> listens w t \<and> dn_queued t = dn_queued s"
proof -
  let ?a = "(go w PConnect s)\<lparr>dn_busy := (dn_busy s)(w := True)\<rparr>"
  let ?b = "(go w PCheck ?a)\<lparr>dn_sock := (dn_sock ?a)(w := True), dn_kill := (dn_kill ?a)(w := True)\<rparr>"
  have "hears w s ?a" "hears w ?a ?b"
    using assms(1) by (intro hears_step parser_step.start parser_step.connected; simp add: go_def)+
  then have "(hears w)\<^sup>*\<^sup>* s ?b" by (meson r_into_rtranclp rtranclp.rtrancl_into_rtrancl)
  moreover have "listens w ?b \<and> dn_queued ?b = dn_queued s"
    using assms by (simp add: listens_def go_def)
  ultimately show ?thesis by blast
qed

lemma thread_refused:
  assumes "dn_parser s w = PStart" "ring_inv q"
  shows "\<exists>t. (hears w)\<^sup>*\<^sup>* s t \<and> counts q q s t \<and> dn_parser t w = PDone"
proof -
  have "hears w s (leave w s)" using assms(1) by (intro hears_step parser_step.no_memory)
  then show ?thesis
    using assms(2) by (intro exI [of _ "leave w s"]) (simp add: leave_def go_def counts_same r_into_rtranclp)
qed

lemma open_thread_cases:
  assumes "surv_handleOpenCallSocket te hit stat addr q evs = Inr (ret, q')"
  shows "q' = q \<or> (\<exists>p p'. recv_loop (\<lambda>k. surv_openCall_round (surv_openCall_finish hit stat) (te_append te k) (te_parse te k)) 0 p evs = Inr p'
     \<and> p_queue p = q \<and> p_queue p' = q')"
  using assms unfolding surv_handleOpenCallSocket_def
  by (auto simp: bind_r_Inr_iff split: if_splits prod.splits simp del: recv_loop.simps) force+

lemma exec_thread_cases:
  assumes "surv_handleExecCallSocket te addr q evs = Inr (ret, q')"
  shows "q' = q \<or> (\<exists>p p'. recv_loop (\<lambda>k. surv_execCall_round surv_execCall_finish (te_append te k) (te_parse te k)) 0 p evs = Inr p'
     \<and> p_queue p = q \<and> p_queue p' = q')"
  using assms unfolding surv_handleExecCallSocket_def Let_def
  by (auto simp: bind_r_Inr_iff split: if_splits prod.splits simp del: recv_loop.simps) force+

definition begins :: "which \<Rightarrow> daemon \<Rightarrow> bool" where
  "begins w s \<longleftrightarrow> dn_parser s w = PStart \<and> \<not> dn_shutting s \<and> dn_feed s w \<noteq> Hungup"

definition runs_to :: "which \<Rightarrow> 'c g_ringBuffer \<Rightarrow> 'c g_ringBuffer \<Rightarrow> daemon \<Rightarrow> daemon \<Rightarrow> bool" where
  "runs_to w q q' s t \<longleftrightarrow> (hears w)\<^sup>*\<^sup>* s t \<and> counts q q' s t \<and> (dn_parser t w = PDone \<or> dn_parser t w = PCheck)"

lemma open_thread_runs:
  assumes "surv_handleOpenCallSocket te hit stat addr q evs = Inr (ret, q')" "\<forall>ev \<in> set evs. heard ev"
    "\<forall>k i. idle_reader (te_parse te k i)" "ring_inv q" "begins w s"
  shows "\<exists>t. runs_to w q q' s t"
  using open_thread_cases [OF assms(1)]
proof (elim disjE exE conjE)
  assume "q' = q"
  with thread_refused [of s w q] assms(4,5) show ?thesis by (auto simp: begins_def runs_to_def)
next
  fix p p' assume p: "recv_loop (\<lambda>k. surv_openCall_round (surv_openCall_finish hit stat) (te_append te k) (te_parse te k)) 0 p evs = Inr p'"
    "p_queue p = q" "p_queue p' = q'"
  obtain t where t: "(hears w)\<^sup>*\<^sup>* s t" "listens w t" "dn_queued t = dn_queued s"
    using thread_opens [of s w] assms(5) by (auto simp: begins_def)
  have "ring_inv (p_queue p)" using p(2) assms(4) by simp
  from open_q.loop_runs [OF p(1) assms(2,3) this t(2)] t(1,3) p(2,3) show ?thesis
    unfolding runs_to_def counts_def by (metis rtranclp_trans)
qed

lemma exec_thread_runs:
  assumes "surv_handleExecCallSocket te addr q evs = Inr (ret, q')" "\<forall>ev \<in> set evs. heard ev"
    "\<forall>k i. idle_reader (te_parse te k i)" "ring_inv q" "begins w s"
  shows "\<exists>t. runs_to w q q' s t"
  using exec_thread_cases [OF assms(1)]
proof (elim disjE exE conjE)
  assume "q' = q"
  with thread_refused [of s w q] assms(4,5) show ?thesis by (auto simp: begins_def runs_to_def)
next
  fix p p' assume p: "recv_loop (\<lambda>k. surv_execCall_round surv_execCall_finish (te_append te k) (te_parse te k)) 0 p evs = Inr p'"
    "p_queue p = q" "p_queue p' = q'"
  obtain t where t: "(hears w)\<^sup>*\<^sup>* s t" "listens w t" "dn_queued t = dn_queued s"
    using thread_opens [of s w] assms(5) by (auto simp: begins_def)
  have "ring_inv (p_queue p)" using p(2) assms(4) by simp
  from exec_q.loop_runs [OF p(1) assms(2,3) this t(2)] t(1,3) p(2,3) show ?thesis
    unfolding runs_to_def counts_def by (metis rtranclp_trans)
qed

section \<open>Properties\<close>



end
