(* ===== verification/Exit.thy ===== *)
theory Exit
  imports Daemon
begin

text \<open>
  That the daemon ends: runs of the threads of \<open>Daemon\<close> in which every thread that can go on does so
  at some time. The source is \<open>src/src/watchdog/src/watchdog.c\<close>: \<open>main\<close>, \<open>surv_shutdown\<close>, \<open>surv_handleAccess\<close>
  and the two parser threads.
\<close>

section \<open>Fair runs\<close>

datatype thread = Parsing which | Shutting | Controlling | Main

fun moves :: "thread \<Rightarrow> daemon \<Rightarrow> daemon \<Rightarrow> bool" where
  "moves (Parsing w) s t = parser_step w s t"
| "moves Shutting s t = shutdown_step s t"
| "moves Controlling s t = control_step s t"
| "moves Main s t = (main_step s t \<or> join_step s t)"

lemma moves_thread: "thread_step s t \<longleftrightarrow> (\<exists>th. moves th s t)"
proof
  assume "thread_step s t"
  then show "\<exists>th. moves th s t"
    by cases (metis moves.simps)+
next
  assume "\<exists>th. moves th s t"
  then obtain th where "moves th s t" by blast
  then show "thread_step s t"
    by (cases th) (auto intro: thread_step.intros)
qed

text \<open>A step of a run: of a thread, of the world, or none.\<close>

definition run_step :: "daemon \<Rightarrow> daemon \<Rightarrow> bool" where
  "run_step s t \<longleftrightarrow> thread_step s t \<or> world_step s t \<or> t = s"

definition fair_run :: "(nat \<Rightarrow> daemon) \<Rightarrow> bool" where
  "fair_run r \<longleftrightarrow> (\<forall>n. run_step (r n) (r (Suc n)))
     \<and> (\<forall>th n. \<exists>m \<ge> n. (\<forall>t. \<not> moves th (r m) t) \<or> moves th (r m) (r (Suc m)))"

lemma fair_step: "fair_run r \<Longrightarrow> run_step (r n) (r (Suc n))"
  by (simp add: fair_run_def)

text \<open>What every step keeps holds for ever.\<close>

lemma fair_keeps:
  assumes "fair_run r" "\<And>s t. run_step s t \<Longrightarrow> P s \<Longrightarrow> P t" "P (r n)" "n \<le> m"
  shows "P (r m)"
  using assms(4,3)
  by (induction rule: dec_induct) (auto intro: assms(2) fair_step [OF assms(1)])

text \<open>
  A measure that no step lets grow, and that falls in every step of a thread that can make one while
  the measure is not 0, reaches 0.
\<close>

lemma fair_reaches:
  assumes run: "fair_run r" and keep: "\<And>s t. run_step s t \<Longrightarrow> P s \<Longrightarrow> P t"
    and most: "\<And>s t. run_step s t \<Longrightarrow> P s \<Longrightarrow> f t \<le> f s"
    and can: "\<And>s. P s \<Longrightarrow> f s \<noteq> (0::nat) \<Longrightarrow> \<exists>t. moves th s t"
    and falls: "\<And>s t. P s \<Longrightarrow> f s \<noteq> 0 \<Longrightarrow> moves th s t \<Longrightarrow> f t < f s"
    and here: "P (r n)"
  shows "\<exists>m \<ge> n. f (r m) = 0 \<and> P (r m)"
  using here
proof (induction "f (r n)" arbitrary: n rule: less_induct)
  case less
  obtain m where m: "n \<le> m" "(\<forall>t. \<not> moves th (r m) t) \<or> moves th (r m) (r (Suc m))"
    using run unfolding fair_run_def by blast
  have P: "P (r m)" "P (r (Suc m))"
    using fair_keeps [where P = P and r = r and n = n, OF run keep less.prems] m(1) by simp_all
  have "f (r m) \<le> f (r n) \<and> P (r m)"
    using m(1)
  proof (induction rule: dec_induct)
    case (step k)
    then show ?case
      using most [OF fair_step [OF run]] keep [OF fair_step [OF run]] le_trans by blast
  qed (simp add: less.prems)
  show ?case
  proof (cases "f (r m) = 0")
    case True
    with m(1) P(1) show ?thesis by blast
  next
    case False
    with can [OF P(1)] m(2) have "moves th (r m) (r (Suc m))" by blast
    with falls [OF P(1) False] \<open>f (r m) \<le> f (r n) \<and> P (r m)\<close> have "f (r (Suc m)) < f (r n)" by fastforce
    from less.hyps [OF this P(2)] m(1) show ?thesis by (meson Suc_leD le_trans)
  qed
qed

section \<open>The stages of the shutdown\<close>

lemma run_cases:
  assumes "run_step s t"
  obtains w where "parser_step w s t" | "shutdown_step s t" | "control_step s t" | "main_step s t" | "join_step s t"
    | "world_step s t" | "t = s"
  using assms unfolding run_step_def by (auto elim: thread_stepE)

lemma world_frame:
  assumes "world_step s t"
  shows "dn_parser t = dn_parser s" "dn_shutter t = dn_shutter s" "dn_control t = dn_control s" "dn_main t = dn_main s"
    "dn_shutting t = dn_shutting s" "dn_kill_closed t = dn_kill_closed s" "dn_signal t = dn_signal s"
    "dn_queued t = dn_queued s" "dn_comparing t = dn_comparing s" "dn_restart t = dn_restart s"
    "dn_feed s w = Hungup \<Longrightarrow> dn_feed t w = Hungup"
  using assms by (auto elim!: world_step.cases)

lemma main_frame:
  assumes "main_step s t"
  shows "dn_parser t = dn_parser s" "dn_shutter t = dn_shutter s" "dn_control t = dn_control s" "dn_feed t = dn_feed s"
    "dn_kill_closed t = dn_kill_closed s" "dn_signal t = dn_signal s" "dn_restart t = dn_restart s" "dn_main s = MLoop"
    "dn_main t = MLoop \<or> dn_main t = MJoin 0"
  by (use assms in \<open>cases rule: main_step.cases; simp add: main_begin_def\<close>)+

lemma run_keeps_inv: "run_step s t \<Longrightarrow> daemon_inv s \<Longrightarrow> daemon_inv t"
  unfolding run_step_def using thread_keeps_inv world_keeps_inv by blast

text \<open>First, the signal is taken and the pipe is closed.\<close>

definition signalled :: "daemon \<Rightarrow> bool" where
  "signalled s \<longleftrightarrow> dn_shutter s \<noteq> SWait \<or> dn_signal s"

lemma signalled_kept: "run_step s t \<Longrightarrow> signalled s \<Longrightarrow> signalled t"
  using signal_kept [of s t] unfolding run_step_def signalled_def by (metis world_frame(2,7))

definition told :: "daemon \<Rightarrow> bool" where
  "told s \<longleftrightarrow> daemon_inv s \<and> signalled s \<and> (\<forall>w. dn_feed s w = Hungup)"

lemma parser_hungup: "parser_step v s t \<Longrightarrow> dn_feed s w = Hungup \<Longrightarrow> dn_feed t w = Hungup"
  by (auto simp: go_def leave_def elim!: parser_step.cases)

lemma told_kept: "run_step s t \<Longrightarrow> told s \<Longrightarrow> told t"
proof -
  assume step: "run_step s t" and s: "told s"
  then have "daemon_inv t" using run_keeps_inv by (simp add: told_def)
  moreover have "signalled t"
    using signalled_kept [OF step] s by (simp add: told_def)
  moreover have "dn_feed t w = Hungup" for w
  proof -
    have "dn_feed s w = Hungup" using s by (simp add: told_def)
    with step show ?thesis
      by (cases rule: run_cases)
         (auto simp: same_parsers_def world_frame(11) main_frame(4) dest: parser_hungup shutdown_same control_frame(1) join_frame(1))
  qed
  ultimately show "told t" by (simp add: told_def)
qed

lemma shutter_other: "run_step s t \<Longrightarrow> shutdown_left (dn_shutter t) \<le> shutdown_left (dn_shutter s)"
  by (cases rule: run_cases)
     (auto simp: parser_frame(3) control_frame(5) main_frame(2) join_frame(6) world_frame(2) dest: shutdown_step_left)

lemma shutter_ends:
  assumes "fair_run r" "told (r n)"
  shows "\<exists>m \<ge> n. dn_shutter (r m) = SDone \<and> told (r m)"
proof -
  have "\<exists>m \<ge> n. shutdown_left (dn_shutter (r m)) = 0 \<and> told (r m)"
  proof (rule fair_reaches [where th = Shutting and P = told and f = "\<lambda>s. shutdown_left (dn_shutter s)" and r = r and n = n, OF assms(1) told_kept shutter_other _ _ assms(2)])
    fix s assume s: "told s" "shutdown_left (dn_shutter s) \<noteq> 0"
    then have "dn_shutter s \<noteq> SDone" by auto
    with s(1) show "\<exists>t. moves Shutting s t"
      using shutdown_can_end by (auto simp: told_def signalled_def)
  qed (auto dest: shutdown_step_left)
  moreover have "shutdown_left x = 0 \<longleftrightarrow> x = SDone" for x by (cases x) simp_all
  ultimately show ?thesis by simp
qed

text \<open>Then the parser threads end. A thread in \<open>select\<close> has one more step to make than one that has returned from it.\<close>

fun to_end :: "parser_at \<Rightarrow> nat" where
  "to_end PStart = 3"
| "to_end PConnect = 2"
| "to_end PCheck = 1"
| "to_end PSelect = 2"
| "to_end PRecv = 1"
| "to_end PDone = 0"

lemma to_end_0: "to_end p = 0 \<longleftrightarrow> p = PDone"
  by (cases p) simp_all

definition stopping :: "daemon \<Rightarrow> bool" where
  "stopping s \<longleftrightarrow> told s \<and> dn_shutter s = SDone"

lemma stopping_kept: "run_step s t \<Longrightarrow> stopping s \<Longrightarrow> stopping t"
  using shutter_other [of s t] by (cases "dn_shutter t") (auto simp: stopping_def told_kept)

lemma stopping_facts:
  assumes "stopping s"
  shows "dn_shutting s" "dn_kill_closed s" "parser_inv s w" "end_inv s" "dn_feed s w = Hungup"
  using assms by (auto simp: stopping_def told_def daemon_inv_def end_inv_def)

lemma parser_goes_on:
  assumes "stopping s" "dn_parser s w \<noteq> PDone"
  shows "\<exists>t. parser_step w s t"
  using assms(2) stopping_facts(1) [OF assms(1)] stopping_facts(3,5) [OF assms(1), of w]
  by (cases "dn_parser s w") (auto simp: parser_inv_def sock_ready_def intro: parser_step.intros)

lemma parser_falls: "parser_step w s t \<Longrightarrow> stopping s \<Longrightarrow> to_end (dn_parser t w) < to_end (dn_parser s w)"
  using stopping_facts(1) [of s] stopping_facts(5) [of s w] by (auto simp: go_def leave_def elim!: parser_step.cases)

lemma parsers_most:
  assumes "run_step s t" "stopping s"
  shows "to_end (dn_parser t w) \<le> to_end (dn_parser s w)"
  using assms(1)
proof (cases rule: run_cases)
  case (1 v)
  then show ?thesis
    using parser_falls [OF 1 assms(2)] parser_frame(10) [OF 1, of w] by (cases "v = w") auto
qed (auto simp: same_parsers_def main_frame(1) world_frame(1) dest: shutdown_same control_frame(1) join_frame(1))

lemma parser_ends:
  assumes "fair_run r" "stopping (r n)"
  shows "\<exists>m \<ge> n. dn_parser (r m) w = PDone \<and> stopping (r m)"
proof -
  have "\<exists>m \<ge> n. to_end (dn_parser (r m) w) = 0 \<and> stopping (r m)"
    by (rule fair_reaches [where th = "Parsing w" and P = stopping and f = "\<lambda>s. to_end (dn_parser s w)" and r = r and n = n,
          OF assms(1) stopping_kept parsers_most _ _ assms(2)])
       (auto simp: to_end_0 parser_goes_on parser_falls)
  then show ?thesis by (simp add: to_end_0)
qed

text \<open>Then the main thread leaves its loop.\<close>

definition unfed :: "daemon \<Rightarrow> bool" where
  "unfed s \<longleftrightarrow> stopping s \<and> (\<forall>w. dn_parser s w = PDone)"

lemma parser_stays_done: "run_step s t \<Longrightarrow> stopping s \<Longrightarrow> dn_parser s w = PDone \<Longrightarrow> dn_parser t w = PDone"
  using parsers_most [of s t w] by (simp flip: to_end_0)

lemma unfed_kept: "run_step s t \<Longrightarrow> unfed s \<Longrightarrow> unfed t"
  by (auto simp: unfed_def stopping_kept parser_stays_done)

definition loop_left :: "daemon \<Rightarrow> nat" where
  "loop_left s = (if dn_main s = MLoop then Suc (to_do (dn_queued s) (dn_comparing s)) else 0)"

lemma round_falls:
  assumes "main_step s t" "unfed s"
  shows "loop_left t < loop_left s"
  using assms(1)
proof cases
  case (two_calls q)
  then show ?thesis by (simp add: loop_left_def to_do_def main_begin_def)
next
  case (round q b u)
  have "\<not> dn_busy s w" "dn_shutting s" for w
    using assms(2) stopping_facts(1) [of s] stopping_facts(3) [of s w] by (auto simp: unfed_def parser_inv_def)
  then have "q = 0 \<Longrightarrow> main_over u"
    using round(4) by (simp add: main_over_def main_begin_def)
  with round show ?thesis by (auto simp: loop_left_def main_begin_def)
qed

lemma comparing_kept:
  "shutdown_step s t \<Longrightarrow> dn_comparing t = dn_comparing s \<and> dn_queued t = dn_queued s"
  "control_step s t \<Longrightarrow> dn_comparing t = dn_comparing s"
  by (auto elim!: shutdown_step.cases control_step.cases)

lemma loop_most:
  assumes "run_step s t" "unfed s"
  shows "loop_left t \<le> loop_left s"
  using assms(1)
proof (cases rule: run_cases)
  case (1 w)
  then show ?thesis using assms(2) parser_frame(8) [OF 1] by (simp add: unfed_def)
next
  case 2
  then show ?thesis using shutdown_same [OF 2] comparing_kept(1) [OF 2] by (simp add: loop_left_def)
next
  case 3
  then show ?thesis using control_frame(2,4) [OF 3] comparing_kept(2) [OF 3] by (simp add: loop_left_def)
next
  case 4
  then show ?thesis using round_falls [OF 4 assms(2)] by simp
qed (auto simp: loop_left_def world_frame dest: join_frame(3))

lemma loop_ends:
  assumes "fair_run r" "unfed (r n)"
  shows "\<exists>m \<ge> n. dn_main (r m) \<noteq> MLoop \<and> unfed (r m)"
proof -
  have "\<exists>m \<ge> n. loop_left (r m) = 0 \<and> unfed (r m)"
  proof (rule fair_reaches [where th = Main and P = unfed and f = loop_left and r = r and n = n,
        OF assms(1) unfed_kept loop_most _ _ assms(2)])
    fix s assume "unfed s" "loop_left s \<noteq> 0"
    then have "dn_main s = MLoop" by (simp add: loop_left_def split: if_splits)
    then show "\<exists>t. moves Main s t"
      using main_step.round [where s = s and q = 0 and b = False, OF _ _ refl] by auto
  next
    fix s t assume s: "unfed s" "loop_left s \<noteq> 0" "moves Main s t"
    then have "dn_main s = MLoop" by (simp add: loop_left_def split: if_splits)
    with s have "main_step s t" using join_frame(2) by auto
    with s(1) show "loop_left t < loop_left s" by (rule round_falls [rotated])
  qed
  then show ?thesis by (auto simp: loop_left_def split: if_splits)
qed

text \<open>Then the control thread ends, and the main thread has joined all of them.\<close>

definition ending :: "daemon \<Rightarrow> bool" where
  "ending s \<longleftrightarrow> unfed s \<and> dn_main s \<noteq> MLoop"

lemma main_stays:
  assumes "run_step s t" "dn_main s \<noteq> MLoop" "daemon_inv s"
  shows "joins (dn_main s) \<le> joins (dn_main t) \<and> dn_main t \<noteq> MLoop"
  using assms(1)
proof (cases rule: run_cases)
  case 4
  then show ?thesis using assms(2) main_frame(8) by blast
next
  case 5
  have "end_inv s" using assms(3) by (simp add: daemon_inv_def)
  with join_step_left [OF 5] join_frame(3) [OF 5] show ?thesis by simp
qed (use assms(2) in \<open>auto simp: parser_frame(1) control_frame(2) world_frame(4) dest: shutdown_same\<close>)

lemma stopping_inv: "stopping s \<Longrightarrow> daemon_inv s"
  by (simp add: stopping_def told_def)

lemma ending_kept: "run_step s t \<Longrightarrow> ending s \<Longrightarrow> ending t"
  using main_stays [of s t] unfed_kept [of s t] by (auto simp: ending_def unfed_def stopping_inv)

lemma control_most:
  assumes "run_step s t" "ending s"
  shows "control_left (dn_control t) \<le> control_left (dn_control s)"
  using assms(1)
proof (cases rule: run_cases)
  case 3
  have "dn_shutting s" using assms(2) stopping_facts(1) by (simp add: ending_def unfed_def)
  then show ?thesis using control_step_left [OF 3] by simp
qed (auto simp: parser_frame(4) main_frame(3) join_frame(8) world_frame(3) dest: shutdown_step_left)

lemma control_left_0: "control_left c = 0 \<longleftrightarrow> c = CDone"
  by (cases c) simp_all

lemma control_ends:
  assumes "fair_run r" "ending (r n)"
  shows "\<exists>m \<ge> n. dn_control (r m) = CDone \<and> ending (r m)"
proof -
  have shut: "dn_shutting s \<and> dn_kill_closed s" if "ending s" for s
    using that stopping_facts(1,2) by (simp add: ending_def unfed_def)
  have "\<exists>m \<ge> n. control_left (dn_control (r m)) = 0 \<and> ending (r m)"
    by (rule fair_reaches [where th = Controlling and P = ending and f = "\<lambda>s. control_left (dn_control s)" and r = r and n = n,
          OF assms(1) ending_kept control_most _ _ assms(2)])
       (auto simp: control_left_0 intro: control_can_end control_step_left dest: shut)
  then show ?thesis by (simp add: control_left_0)
qed

definition all_ended :: "daemon \<Rightarrow> bool" where
  "all_ended s \<longleftrightarrow> ending s \<and> dn_control s = CDone"

lemma all_ended_kept: "run_step s t \<Longrightarrow> all_ended s \<Longrightarrow> all_ended t"
  using control_most [of s t] ending_kept [of s t] by (simp add: all_ended_def flip: control_left_0)

lemma main_exits:
  assumes "fair_run r" "all_ended (r n)"
  shows "\<exists>m \<ge> n. \<exists>x. dn_main (r m) = MExit x"
proof -
  have inv: "end_inv s" "daemon_inv s" "dn_main s \<noteq> MLoop" if "all_ended s" for s
    using that stopping_facts(4) stopping_inv by (simp_all add: all_ended_def ending_def unfed_def)
  have exits: "4 - joins (dn_main s) = 0 \<longleftrightarrow> (\<exists>x. dn_main s = MExit x)" if "all_ended s" for s
    using inv(1,3) [OF that] by (cases "dn_main s") (simp_all add: end_inv_def)
  have "\<exists>m \<ge> n. 4 - joins (dn_main (r m)) = 0 \<and> all_ended (r m)"
  proof (rule fair_reaches [where th = Main and P = all_ended and f = "\<lambda>s. 4 - joins (dn_main s)" and r = r and n = n,
        OF assms(1) all_ended_kept _ _ _ assms(2)])
    fix s t assume s: "run_step s t" "all_ended s"
    show "4 - joins (dn_main t) \<le> 4 - joins (dn_main s)"
      using main_stays [OF s(1)] inv [OF s(2)] by (simp add: diff_le_mono2)
  next
    fix s assume s: "all_ended s" "4 - joins (dn_main s) \<noteq> 0"
    then obtain k where k: "dn_main s = MJoin k"
      using exits [OF s(1)] inv(3) [OF s(1)] by (cases "dn_main s") auto
    moreover have "joined s k"
      using s(1) by (simp add: joined_def all_ended_def ending_def unfed_def stopping_def)
    ultimately show "\<exists>t. moves Main s t" by (auto intro: join_step.join)
  next
    fix s t assume s: "all_ended s" "4 - joins (dn_main s) \<noteq> 0" "moves Main s t"
    then have "join_step s t" using inv(3) [OF s(1)] main_frame(8) by auto
    from join_step_left [OF this inv(1) [OF s(1)]] s(2) show "4 - joins (dn_main t) < 4 - joins (dn_main s)"
      by linarith
  qed
  with exits show ?thesis by blast
qed

lemma told_exits:
  assumes "fair_run r" "told (r n)"
  shows "\<exists>m \<ge> n. \<exists>x. dn_main (r m) = MExit x"
proof -
  obtain n1 where n1: "n \<le> n1" "stopping (r n1)"
    using shutter_ends [OF assms] by (auto simp: stopping_def)
  obtain n2 where n2: "n1 \<le> n2" "dn_parser (r n2) OpenCalls = PDone" "stopping (r n2)"
    using parser_ends [OF assms(1) n1(2)] by blast
  obtain n3 where n3: "n2 \<le> n3" "dn_parser (r n3) ExecCalls = PDone" "stopping (r n3)"
    using parser_ends [OF assms(1) n2(3)] by blast
  have "stopping (r n3) \<and> dn_parser (r n3) OpenCalls = PDone"
    using n2(2,3) parser_stays_done stopping_kept
    by (intro fair_keeps [where P = "\<lambda>s. stopping s \<and> dn_parser s OpenCalls = PDone", OF assms(1) _ _ n3(1)]) auto
  with n3(2) have "unfed (r n3)"
    using which_cases [of "\<lambda>w. dn_parser (r n3) w = PDone"] by (simp add: unfed_def)
  then obtain n4 where n4: "n3 \<le> n4" "ending (r n4)"
    using loop_ends [OF assms(1)] by (auto simp: ending_def)
  then obtain n5 where n5: "n4 \<le> n5" "all_ended (r n5)"
    using control_ends [OF assms(1)] by (auto simp: all_ended_def)
  from main_exits [OF assms(1) this(2)] n1(1) n2(1) n3(1) n4(1) n5(1) show ?thesis
    by (meson le_trans)
qed

text \<open>A restart that was asked for is not forgotten.\<close>

definition restarts :: "daemon \<Rightarrow> bool" where
  "restarts s \<longleftrightarrow> dn_restart s \<and> dn_main s \<noteq> MExit False"

lemma restarts_kept: "run_step s t \<Longrightarrow> restarts s \<Longrightarrow> restarts t"
proof (erule run_cases)
  assume "main_step s t" "restarts s"
  then show "restarts t" using main_frame(7,9) [of s t] by (auto simp: restarts_def)
next
  assume "control_step s t" "restarts s"
  then show "restarts t"
    by (auto simp: restarts_def answer_client_def Let_def split: client_request.splits if_splits elim!: control_step.cases)
next
  assume "join_step s t" "restarts s"
  then show "restarts t" by (auto simp: restarts_def split: if_splits elim!: join_step.cases)
next
  assume "shutdown_step s t" "restarts s"
  then show "restarts t" by (auto simp: restarts_def elim!: shutdown_step.cases)
qed (auto simp: restarts_def parser_frame(1,7) world_frame(4,10))

text \<open>It is enough that the tracers end at some time after the signal.\<close>

lemma signalled_exits:
  assumes "fair_run r" "daemon_inv (r n)" "signalled (r n)" "n \<le> k" "\<forall>w. dn_feed (r k) w = Hungup"
  shows "\<exists>m \<ge> k. \<exists>x. dn_main (r m) = MExit x \<and> daemon_inv (r m) \<and> (restarts (r n) \<longrightarrow> x)"
proof -
  have inv: "daemon_inv (r m)" if "n \<le> m" for m
    using fair_keeps [where P = daemon_inv, OF assms(1) run_keeps_inv assms(2) that] .
  have "signalled (r k)"
    using fair_keeps [where P = signalled, OF assms(1) signalled_kept assms(3,4)] .
  with inv [OF assms(4)] assms(5) have "told (r k)" by (simp add: told_def)
  then obtain m x where m: "k \<le> m" "dn_main (r m) = MExit x"
    using told_exits [OF assms(1)] by blast
  moreover have "x" if "restarts (r n)"
    using fair_keeps [where P = restarts and m = m, OF assms(1) restarts_kept that] m assms(4) by (simp add: restarts_def)
  ultimately show ?thesis
    using inv [of m] assms(4) by (meson le_trans)
qed

section \<open>Runs as lists\<close>

text \<open>A list of steps of threads, after which no thread can go on, is a fair run.\<close>

definition after :: "(daemon \<Rightarrow> daemon) list \<Rightarrow> daemon \<Rightarrow> daemon" where
  "after = fold (\<lambda>f. f)"

fun acts_ok :: "(daemon \<Rightarrow> daemon) list \<Rightarrow> daemon \<Rightarrow> bool" where
  "acts_ok [] s = True"
| "acts_ok (f # fs) s = (thread_step s (f s) \<and> acts_ok fs (f s))"

lemma after_simps [simp]: "after [] s = s" "after (f # fs) s = after fs (f s)" "after (fs @ gs) s = after gs (after fs s)"
  by (simp_all add: after_def)

lemma acts_ok_append [simp]: "acts_ok (fs @ gs) s \<longleftrightarrow> acts_ok fs s \<and> acts_ok gs (after fs s)"
  by (induction fs arbitrary: s) auto

lemma acts_step: "acts_ok fs s \<Longrightarrow> n < length fs \<Longrightarrow> thread_step (after (take n fs) s) (after (take (Suc n) fs) s)"
proof (induction fs arbitrary: n s)
  case (Cons f fs)
  then show ?case by (cases n) auto
qed simp

lemma acts_fair:
  assumes "acts_ok fs s" "\<And>th t. \<not> moves th (after fs s) t"
  shows "fair_run (\<lambda>n. after (take n fs) s)"
  unfolding fair_run_def
proof (intro conjI allI)
  show "run_step (after (take n fs) s) (after (take (Suc n) fs) s)" for n
    using acts_step [OF assms(1), of n] by (cases "n < length fs") (simp_all add: run_step_def)
  show "\<exists>m \<ge> n. (\<forall>t. \<not> moves th (after (take m fs) s) t) \<or> moves th (after (take m fs) s) (after (take (Suc m) fs) s)" for th n
    using assms(2) by (intro exI [of _ "max n (length fs)"]) simp
qed

section \<open>Properties\<close>

text \<open>
  C14: A daemon that got its signal exits, once its tracers have ended. In every run in which
  each thread that can go on does so at some time, whatever clients ask for meanwhile, the
  process comes to its exit; then no call is left in a queue, all threads have ended, and the
  program is started again if that was asked for.
\<close>

theorem signalled_daemon_exits:
  assumes "fair_run r" "daemon_reach (r n)" "dn_shutter (r n) \<noteq> SWait \<or> dn_signal (r n)"
    and "n \<le> k" "\<forall>w. dn_feed (r k) w = Hungup"
  shows "\<exists>m \<ge> k. \<exists>x. dn_main (r m) = MExit x \<and> (dn_restart (r n) \<and> dn_main (r n) = MLoop \<longrightarrow> x) \<and> dn_queued (r m) = 0
     \<and> dn_parser (r m) OpenCalls = PDone \<and> dn_parser (r m) ExecCalls = PDone \<and> dn_shutter (r m) = SDone
     \<and> dn_control (r m) = CDone"
proof -
  obtain m x where "k \<le> m" "dn_main (r m) = MExit x" "daemon_inv (r m)" "restarts (r n) \<longrightarrow> x"
    using signalled_exits [OF assms(1) reach_inv [OF assms(2)] _ assms(4,5)] assms(3) by (auto simp: signalled_def)
  then show ?thesis
    by (intro exI [of _ m]) (auto simp: daemon_inv_def end_inv_def restarts_def)
qed

text \<open>
  The witness: a client asks for a restart, both tracers have hung up, and the threads end one
  after the other.
\<close>

definition all_hungup :: daemon where
  "all_hungup = daemon_start\<lparr>dn_feed := \<lambda>_. Hungup\<rparr>"

definition demo_told :: daemon where
  "demo_told = all_hungup\<lparr>dn_control := CCheck, dn_signal := True, dn_restart := True\<rparr>"

lemma all_hungup_reach: "daemon_reach all_hungup"
proof -
  let ?s = "daemon_start\<lparr>dn_feed := (dn_feed daemon_start)(OpenCalls := Hungup)\<rparr>"
  let ?t = "?s\<lparr>dn_feed := (dn_feed ?s)(ExecCalls := Hungup)\<rparr>"
  have "daemon_reach ?s"
    by (rule daemon_reach.world [OF daemon_reach.start world_step.tracer]) (simp_all add: daemon_start_def)
  then have "daemon_reach ?t"
    by (rule daemon_reach.world [OF _ world_step.tracer]) (simp_all add: daemon_start_def)
  moreover have "dn_feed ?t w = Hungup" for w by (cases w) simp_all
  then have "?t = all_hungup" by (simp add: all_hungup_def fun_eq_iff)
  ultimately show ?thesis by simp
qed

lemma asked_restart_reach:
  assumes "daemon_reach s" "dn_control s = CStart" "\<not> dn_shutting s" "dn_client s = None"
  shows "daemon_reach (s\<lparr>dn_control := CCheck, dn_signal := True, dn_restart := True\<rparr>)"
proof -
  let ?a = "s\<lparr>dn_control := CCheck\<rparr>"
  let ?b = "?a\<lparr>dn_control := CSelect\<rparr>"
  let ?c = "?b\<lparr>dn_client := Some AskRestart\<rparr>"
  have "daemon_reach ?a"
    by (intro daemon_reach.thread [OF assms(1)] thread_step.control control_step.listening assms(2))
  then have "daemon_reach ?b"
    by (rule daemon_reach.thread) (intro thread_step.control control_step.go_on; simp add: assms(3))
  then have "daemon_reach ?c"
    by (rule daemon_reach.world [OF _ world_step.asks])
  then have "daemon_reach ((answer_client AskRestart ?c)\<lparr>dn_control := CCheck\<rparr>)"
    by (rule daemon_reach.thread) (intro thread_step.control control_step.client; simp)
  moreover have "(answer_client AskRestart ?c)\<lparr>dn_control := CCheck\<rparr>
      = s\<lparr>dn_control := CCheck, dn_signal := True, dn_restart := True\<rparr>"
    using assms(3,4) by (cases s) (simp add: answer_client_def)
  ultimately show ?thesis by metis
qed

lemma demo_told_reach: "daemon_reach demo_told"
  unfolding demo_told_def
  by (rule asked_restart_reach [OF all_hungup_reach]) (simp_all add: all_hungup_def daemon_start_def)

definition shutdown_acts :: "(daemon \<Rightarrow> daemon) list" where
  "shutdown_acts =
     [\<lambda>s. s\<lparr>dn_shutter := SClose, dn_signal := False, dn_shutting := True\<rparr>,
      \<lambda>s. s\<lparr>dn_shutter := SDone, dn_kill_closed := True\<rparr>]"

lemma shutdown_acts_ok: "dn_shutter s = SWait \<Longrightarrow> dn_signal s \<Longrightarrow> acts_ok shutdown_acts s"
  unfolding shutdown_acts_def acts_ok.simps
  by (intro conjI thread_step.shutdown shutdown_step.sigwait shutdown_step.close_pipe TrueI) simp_all

definition parser_acts :: "which \<Rightarrow> (daemon \<Rightarrow> daemon) list" where
  "parser_acts w =
     [\<lambda>s. (go w PConnect s)\<lparr>dn_busy := (dn_busy s)(w := True)\<rparr>,
      \<lambda>s. (go w PCheck s)\<lparr>dn_sock := (dn_sock s)(w := True), dn_kill := (dn_kill s)(w := True)\<rparr>,
      leave w]"

lemma parser_acts_ok: "dn_parser s w = PStart \<Longrightarrow> dn_shutting s \<Longrightarrow> acts_ok (parser_acts w) s"
  unfolding parser_acts_def acts_ok.simps
  by (intro conjI thread_step.parser [of w] parser_step.start parser_step.connected parser_step.told TrueI) (simp_all add: go_def)

definition main_acts :: "(daemon \<Rightarrow> daemon) list" where
  "main_acts =
     [\<lambda>s. s\<lparr>dn_queued := 0, dn_comparing := False, dn_counter := dn_counter s + 1, dn_main := MJoin 0\<rparr>,
      \<lambda>s. s\<lparr>dn_control := CDone\<rparr>]"

lemma main_acts_ok:
  assumes "dn_main s = MLoop" "main_over (s\<lparr>dn_queued := 0\<rparr>)" "dn_control s = CCheck"
  shows "acts_ok main_acts s"
proof -
  let ?t = "(main_begin s)\<lparr>dn_queued := 0, dn_comparing := False, dn_counter := dn_counter s + 1\<rparr>"
  have over: "main_over ?t" "dn_shutting s" using assms(2) by (simp_all add: main_over_def main_begin_def)
  then have "main_step s (?t\<lparr>dn_main := MJoin 0\<rparr>)"
    using main_step.round [of s 0 False ?t] assms(1) by simp
  moreover have "?t\<lparr>dn_main := MJoin 0\<rparr> = s\<lparr>dn_queued := 0, dn_comparing := False, dn_counter := dn_counter s + 1, dn_main := MJoin 0\<rparr>"
    using over(2) by (simp add: main_begin_def)
  ultimately have "thread_step s (s\<lparr>dn_queued := 0, dn_comparing := False, dn_counter := dn_counter s + 1, dn_main := MJoin 0\<rparr>)"
    by (metis thread_step.main)
  then show ?thesis
    using assms(3) over(2) by (auto simp: main_acts_def intro!: thread_step.control control_step.told)
qed

definition join_act :: "nat \<Rightarrow> daemon \<Rightarrow> daemon" where
  "join_act k s = s\<lparr>dn_main := (if k < 3 then MJoin (k + 1) else MExit (dn_restart s))\<rparr>"

lemma join_act_step: "dn_main s = MJoin k \<Longrightarrow> joined s k \<Longrightarrow> thread_step s (join_act k s)"
  unfolding join_act_def by (intro thread_step.join join_step.join)

lemma join_act_simps: "joined (join_act k s) j = joined s j"
  "dn_main (join_act k s) = (if k < 3 then MJoin (k + 1) else MExit (dn_restart s))"
  by (simp_all add: join_act_def joined_def)

lemma join_acts_ok: "dn_main s = MJoin 0 \<Longrightarrow> \<forall>k. joined s k \<Longrightarrow> acts_ok (map join_act [0, 1, 2, 3]) s"
  by (simp add: join_act_step join_act_simps)

definition stop_acts :: "(daemon \<Rightarrow> daemon) list" where
  "stop_acts = shutdown_acts @ parser_acts OpenCalls @ parser_acts ExecCalls @ main_acts @ map join_act [0, 1, 2, 3]"

lemmas acts_defs = shutdown_acts_def parser_acts_def main_acts_def go_def leave_def
  demo_told_def all_hungup_def daemon_start_def

lemma stop_acts_ok: "acts_ok stop_acts demo_told"
  unfolding stop_acts_def acts_ok_append
  by (intro conjI shutdown_acts_ok parser_acts_ok main_acts_ok join_acts_ok)
     (simp_all add: acts_defs main_over_def joined_def)

lemma stop_acts_end: "\<not> moves th (after stop_acts demo_told) t" "dn_main (after stop_acts demo_told) = MExit True"
proof -
  let ?s = "after stop_acts demo_told"
  have s: "dn_parser ?s w = PDone" "dn_shutter ?s = SDone" "dn_control ?s = CDone" "dn_main ?s = MExit True" for w
    by (cases w; simp add: stop_acts_def join_act_def acts_defs)+
  then show "\<not> moves th ?s t"
    by (cases th) (auto elim: parser_step.cases shutdown_step.cases control_step.cases main_step.cases join_step.cases)
  show "dn_main ?s = MExit True" by (rule s)
qed

theorem signalled_daemon_exits_witness: "\<exists>r m. fair_run r \<and> r 0 = demo_told \<and> dn_main (r m) = MExit True \<and> dn_queued (r m) = 0"
proof -
  let ?r = "\<lambda>n. after (take n stop_acts) demo_told"
  have "fair_run ?r" by (rule acts_fair [OF stop_acts_ok stop_acts_end(1)])
  moreover have "\<exists>m \<ge> 0. \<exists>x. dn_main (?r m) = MExit x \<and> (dn_restart (?r 0) \<and> dn_main (?r 0) = MLoop \<longrightarrow> x)
     \<and> dn_queued (?r m) = 0 \<and> dn_parser (?r m) OpenCalls = PDone \<and> dn_parser (?r m) ExecCalls = PDone
     \<and> dn_shutter (?r m) = SDone \<and> dn_control (?r m) = CDone"
    by (rule signalled_daemon_exits [OF calculation, of 0 0])
       (simp_all add: demo_told_reach, simp_all add: demo_told_def all_hungup_def)
  moreover have "dn_restart (?r 0) \<and> dn_main (?r 0) = MLoop"
    by (simp add: demo_told_def all_hungup_def daemon_start_def)
  ultimately show ?thesis by (intro exI [of _ ?r]) auto
qed

end
