(* ===== verification/Control.thy ===== *)
theory Control
  imports Parser Surveiller
begin

text \<open>
  The control interface of the daemon: \<open>surv_handleRequest\<close> and \<open>surv_handleAccess\<close> in
  \<open>src/src/watchdog/src/watchdog.c\<close>, lines 996-1156, and the functions of the open call filter,
  lines 241-259.

  A client sends a command and an argument with a dollar sign between them, and reads an answer.
  The handler cuts the request with \<open>strtok\<close> inside the buffer of the thread, which later requests
  find as it was left, and prints the answer into 256 bytes without looking at its length. The
  radix tree of the filter is a library; its type is a type parameter and inserting a key an
  argument. A run of the thread is a list of what \<open>select\<close>, \<open>accept\<close> and \<open>read\<close> report.
\<close>

section \<open>Requests\<close>

text \<open>
  One call of \<open>strtok\<close> from position \<open>pos\<close> of a block: the token, the position that the next call
  goes on from, and the block with the delimiter after the token overwritten.
\<close>

definition strtok_at ::
  "(char \<Rightarrow> bool) \<Rightarrow> char list \<Rightarrow> nat \<Rightarrow> (string option \<times> nat \<times> char list) res" where
  "strtok_at delim mem pos =
     bind_r (c_str (drop pos mem)) (\<lambda>s.
       let token = takeWhile (\<lambda>c. \<not> delim c) (dropWhile delim s);
           stop = pos + length (takeWhile delim s) + length token in
       if token = [] then Inr (None, stop, mem)
       else if stop < pos + length s then Inr (Some token, stop + 1, mem[stop := NUL])
       else Inr (Some token, stop, mem))"

definition dollar :: "char \<Rightarrow> bool" where
  "dollar c \<longleftrightarrow> c = CHR ''$''"

text \<open>
  The state a request can change: the daemon, the filter, and the number of signals that were sent
  to the thread that shuts the daemon down. \<open>ce_kill\<close> is the code of \<open>pthread_kill\<close>.
\<close>

record 'f control =
  ct_surv :: surveiller
  ct_filter :: 'f
  ct_signals :: nat

record 'f control_env =
  ce_insert :: "'f \<Rightarrow> char list \<Rightarrow> int \<times> 'f"
  ce_kill :: int

definition openCall_filter__add :: "'f control_env \<Rightarrow> 'f \<Rightarrow> string \<Rightarrow> int \<times> 'f" where
  "openCall_filter__add env t filepath = ce_insert env t (filepath @ [NUL])"

text \<open>\<open>sprintf\<close> into the 256 bytes of \<open>answer\<close>.\<close>

definition reply :: "string \<Rightarrow> 'f control \<Rightarrow> (string \<times> 'f control) res" where
  "reply s st = (if length s < 256 then Inr (s, st) else Inl OutOfBounds)"

definition shutdown_signal :: "'f control_env \<Rightarrow> string \<Rightarrow> 'f control \<Rightarrow> (string \<times> 'f control) res" where
  "shutdown_signal env s st =
     (if ce_kill env \<noteq> 0
      then reply (''tried signaling termination and failed!'' @ [NL] @ ''pthread_kill returned: ''
                  @ show_int (ce_kill env) @ [NL]) st
      else reply s (st\<lparr>ct_signals := ct_signals st + 1\<rparr>))"

definition answer_request ::
  "'f control_env \<Rightarrow> 'f control \<Rightarrow> string \<Rightarrow> string option \<Rightarrow> (string \<times> 'f control) res" where
  "answer_request env st command args =
     (if command = ''shutdown'' then
        (if \<not> sv_shutting_down (ct_surv st)
         then shutdown_signal env (''shutting watchdog down...'' @ [NL]) st
         else reply (''already in the process of shutting down!'' @ [NL]) st)
      else if command = ''restart'' then
        (if \<not> sv_shutting_down (ct_surv st)
         then shutdown_signal env (''restarting now...'' @ [NL])
                (st\<lparr>ct_surv := (ct_surv st)\<lparr>sv_restart := True\<rparr>\<rparr>)
         else reply (''already in the process of shutting down!'' @ [NL]) st)
      else if command = ''get_status'' then reply (sv_status_msg (ct_surv st)) st
      else if command = ''add_filter'' then
        (case args of
           Some path \<Rightarrow>
             (case openCall_filter__add env (ct_filter st) path of (ret, t) \<Rightarrow>
                let st = st\<lparr>ct_filter := t\<rparr> in
                if ret \<noteq> 0
                then reply (''Error adding'' @ [NL] @ '' '' @ path @ [NL] @ ''to filter list'') st
                else reply (''Added'' @ [NL] @ '' '' @ path @ [NL] @ '' to filter list'') st)
         | None \<Rightarrow> reply (''Error: Need something to add to filter list!'' @ [NL]) st)
      else if command = ''remove_filter'' then
        (case args of
           Some path \<Rightarrow>
             reply (''Error removing'' @ [NL] @ '' '' @ path @ [NL] @ ''from filter list'') st
         | None \<Rightarrow> reply (''Error: Need something to add to filter list!'' @ [NL]) st)
      else reply ''Request not recognized!!'' st)"

definition surv_handleRequest ::
  "'f control_env \<Rightarrow> 'f control \<Rightarrow> char list \<Rightarrow> (string \<times> 'f control \<times> char list) res" where
  "surv_handleRequest env st request =
     bind_r (strtok_at dollar request 0) (\<lambda>(command, pos, request).
       bind_r (strtok_at dollar request pos) (\<lambda>(args, _, request).
         bind_r (deref command) (\<lambda>command.
           bind_r (answer_request env st command args) (\<lambda>(answer, st).
             Inr (answer, st, request)))))"

section \<open>The thread that serves the clients\<close>

text \<open>
  Its descriptors that are open, its buffer, the answers it has written, and its return code. The
  buffer keeps what a shorter message leaves of an earlier one, and all of it when \<open>read\<close> fails.
\<close>

record 'f access =
  ac_control :: "'f control"
  ac_open :: "nat list"
  ac_buf :: "char list"
  ac_answers :: "(nat \<times> string) list"
  ac_ret :: int

datatype read_result = ReadEnd | ReadData "char list" | ReadError

record 'f access_event =
  ae_select :: int
  ae_ready :: "nat \<Rightarrow> bool"
  ae_accept :: int
  ae_read :: "nat \<Rightarrow> read_result"
  ae_env :: "nat \<Rightarrow> 'f control_env"

definition access_request :: "'f control_env \<Rightarrow> nat \<Rightarrow> 'f access \<Rightarrow> 'f access res" where
  "access_request env i st =
     bind_r (surv_handleRequest env (ac_control st) (ac_buf st)) (\<lambda>(answer, ct, buf).
       Inr (st\<lparr>ac_control := ct, ac_buf := buf, ac_answers := ac_answers st @ [(i, answer)]\<rparr>))"

definition access_client :: "'f access_event \<Rightarrow> nat \<Rightarrow> 'f access \<Rightarrow> 'f access res" where
  "access_client ev i st =
     (case ae_read ev i of
        ReadEnd \<Rightarrow> Inr (st\<lparr>ac_open := removeAll i (ac_open st)\<rparr>)
      | ReadData bytes \<Rightarrow>
          access_request (ae_env ev i) i
            (st\<lparr>ac_buf := take 256 bytes @ drop (length bytes) (ac_buf st)\<rparr>)
      | ReadError \<Rightarrow> access_request (ae_env ev i) i st)"

text \<open>\<open>n\<close> rounds of the loop over the descriptors, from \<open>i\<close> on; \<open>rd\<close> is what \<open>select\<close> left.\<close>

fun access_scan ::
  "'f access_event \<Rightarrow> nat list \<Rightarrow> nat \<Rightarrow> nat \<Rightarrow> nat \<Rightarrow> 'f access \<Rightarrow> 'f access res" where
  "access_scan ev rd rc_fd i 0 st = Inr st"
| "access_scan ev rd rc_fd i (Suc n) st =
     bind_r (if i \<noteq> rc_fd \<and> i \<in> set rd then access_client ev i st else Inr st)
       (access_scan ev rd rc_fd (i + 1) n)"

definition access_round :: "nat \<Rightarrow> nat \<Rightarrow> 'f access_event \<Rightarrow> 'f access \<Rightarrow> 'f access res" where
  "access_round rc_fd fd_size ev st =
     (let rd = filter (ae_ready ev) (ac_open st); st = st\<lparr>ac_ret := ae_select ev\<rparr> in
      if rc_fd \<in> set rd
      then Inr (if 0 \<le> ae_accept ev
                then st\<lparr>ac_open := List.insert (nat (ae_accept ev)) (ac_open st)\<rparr> else st)
      else access_scan ev rd rc_fd 0 fd_size st)"

fun access_loop :: "nat \<Rightarrow> nat \<Rightarrow> 'f access_event list \<Rightarrow> 'f access \<Rightarrow> 'f access res" where
  "access_loop rc_fd fd_size [] st = Inr st"
| "access_loop rc_fd fd_size (ev # evs) st =
     bind_r (access_round rc_fd fd_size ev st) (access_loop rc_fd fd_size evs)"

text \<open>
  The address is built as in the parser threads, except that the first byte tested is that of
  another address.
\<close>

definition ctl_path :: "char list \<Rightarrow> char list \<Rightarrow> char list res" where
  "ctl_path execcall_socketaddr ctl_socketaddr =
     bind_r (slot execcall_socketaddr 0) (\<lambda>c.
       if c = NUL
       then bind_r (c_str (drop 1 ctl_socketaddr)) (\<lambda>s. Inr (NUL # strncpy 106 s @ [NUL]))
       else bind_r (c_str ctl_socketaddr) (\<lambda>s. Inr (strncpy 107 s @ [NUL])))"

record access_env =
  as_ret :: alloc_env
  as_socket :: "nat option"
  as_reuse :: int
  as_bind :: "char list \<Rightarrow> bool"
  as_listen :: bool
  as_killpipe :: nat
  as_fd_size :: nat
  as_buf :: "char list"

text \<open>The return code, the state, and the answers in the order in which they were written.\<close>

definition surv_handleAccess ::
  "access_env \<Rightarrow> char list \<Rightarrow> char list \<Rightarrow> 'f access_event list \<Rightarrow> 'f control
   \<Rightarrow> (int \<times> 'f control \<times> (nat \<times> string) list) res" where
  "surv_handleAccess ae exec_addr ctl_addr events ct =
     (if \<not> can_alloc (as_ret ae) 4 then Inl NullDeref
      else case as_socket ae of None \<Rightarrow> Inr (2, ct, [])
      | Some rc_fd \<Rightarrow>
          bind_r (ctl_path exec_addr ctl_addr) (\<lambda>addr.
            if as_reuse ae \<noteq> 0 then Inr (-1, ct, [])
            else if \<not> as_bind ae addr then Inr (-1, ct, [])
            else if \<not> as_listen ae then Inr (-1, ct, [])
            else bind_r (access_loop rc_fd (as_fd_size ae) events
                   \<lparr>ac_control = ct, ac_open = List.insert (as_killpipe ae) [rc_fd],
                    ac_buf = as_buf ae, ac_answers = [], ac_ret = NOMINAL\<rparr>) (\<lambda>st.
              Inr (ac_ret st, ac_control st, ac_answers st))))"

section \<open>Cutting a request\<close>

lemma token_empty: "takeWhile (\<lambda>c. \<not> delim c) (dropWhile delim s) = [] \<longleftrightarrow> dropWhile delim s = []"
  by (metis hd_dropWhile takeWhile_eq_Nil_iff)

text \<open>The bytes behind the first token.\<close>

lemma behind_token:
  assumes "c_str (drop pos mem) = Inr s"
  obtains rest where "drop (pos + length (takeWhile delim s) + length (takeWhile (\<lambda>c. \<not> delim c) (dropWhile delim s))) mem
     = dropWhile (\<lambda>c. \<not> delim c) (dropWhile delim s) @ NUL # rest"
proof -
  let ?pre = "takeWhile delim s" and ?tok = "takeWhile (\<lambda>c. \<not> delim c) (dropWhile delim s)"
    and ?post = "dropWhile (\<lambda>c. \<not> delim c) (dropWhile delim s)"
  obtain rest where "drop pos mem = s @ NUL # rest"
    using c_str_split [OF assms] by blast
  moreover have "s = ?pre @ ?tok @ ?post" by simp
  ultimately have "drop pos mem = ?pre @ ?tok @ ?post @ NUL # rest" by (metis append.assoc)
  moreover have "drop (pos + length ?pre + length ?tok) mem = drop (length ?pre + length ?tok) (drop pos mem)"
    by (simp add: ac_simps)
  ultimately show ?thesis by (intro that [of rest]) simp
qed

lemma strtok_at_step:
  assumes "c_str (drop pos mem) = Inr s"
  shows "\<exists>pos' mem'. strtok_at delim mem pos = Inr (fst (strtok_step delim s), pos', mem')
     \<and> length mem' = length mem \<and> c_str (drop pos' mem') = Inr (snd (strtok_step delim s))"
proof -
  let ?pre = "takeWhile delim s" and ?tok = "takeWhile (\<lambda>c. \<not> delim c) (dropWhile delim s)"
    and ?post = "dropWhile (\<lambda>c. \<not> delim c) (dropWhile delim s)"
  let ?stop = "pos + length ?pre + length ?tok"
  have s: "s = ?pre @ ?tok @ ?post" by simp
  have nul: "NUL \<notin> set s"
    by (rule c_str_no_NUL [OF assms])
  obtain rest where at: "drop ?stop mem = ?post @ NUL # rest"
    using behind_token [OF assms] .
  note tok_Nil = token_empty [of delim s]
  show ?thesis
  proof (cases "?tok = []")
    case True
    then have e: "dropWhile delim s = []"
      using tok_Nil by blast
    have step: "strtok_step delim s = (None, [])"
      unfolding strtok_step_def e by simp
    have "drop ?stop mem = NUL # rest"
      using at unfolding e by simp
    then have "c_str (drop ?stop mem) = Inr []"
      by (simp add: c_str_def)
    with assms True step show ?thesis
      by (simp add: strtok_at_def Let_def)
  next
    case False
    then obtain c cs where c: "dropWhile delim s = c # cs"
      using tok_Nil by (cases "dropWhile delim s") auto
    have step: "strtok_step delim s = (Some ?tok, drop 1 ?post)"
      using c by (simp add: strtok_step_def)
    have len: "length s = length ?pre + length ?tok + length ?post"
      by (metis s length_append add.assoc)
    show ?thesis
    proof (cases ?post)
      case Nil
      then have "drop ?stop mem = NUL # rest" using at by simp
      then have "c_str (drop ?stop mem) = Inr (drop 1 ?post)"
        unfolding Nil by (simp add: c_str_def)
      moreover have "strtok_at delim mem pos = Inr (Some ?tok, ?stop, mem)"
        using False assms len unfolding Nil by (simp add: strtok_at_def Let_def)
      ultimately show ?thesis
        using step by (intro exI [of _ ?stop] exI [of _ mem]) simp
    next
      case (Cons d ds)
      have "set (d # ds) \<subseteq> set s"
        using Cons by (metis s set_append Un_upper2 order.trans)
      then have ds: "NUL \<notin> set ds"
        using nul by auto
      have "drop (Suc ?stop) (mem[?stop := NUL]) = drop (Suc ?stop) mem"
        by simp
      also have "\<dots> = ds @ NUL # rest"
        using at Cons by (metis append_Cons drop_Suc tl_drop list.sel(3))
      finally have "c_str (drop (?stop + 1) (mem[?stop := NUL])) = Inr ds"
        using ds by simp
      moreover have "strtok_at delim mem pos = Inr (Some ?tok, ?stop + 1, mem[?stop := NUL])"
        using False assms len unfolding Cons by (simp add: strtok_at_def Let_def)
      ultimately show ?thesis
        using step unfolding Cons by (intro exI [of _ "?stop + 1"] exI [of _ "mem[?stop := NUL]"]) simp
    qed
  qed
qed

section \<open>What a request does\<close>

text \<open>The command and the argument of a request.\<close>

definition request_words :: "string \<Rightarrow> string option \<times> string option" where
  "request_words r =
     (case strtok_step dollar r of (command, rest) \<Rightarrow> (command, fst (strtok_step dollar rest)))"

lemma handleRequest_eq:
  assumes "c_str buf = Inr r"
  shows "\<exists>buf'. length buf' = length buf \<and> surv_handleRequest env st buf
     = bind_r (deref (fst (request_words r))) (\<lambda>command.
         bind_r (answer_request env st command (snd (request_words r))) (\<lambda>(answer, st).
           Inr (answer, st, buf')))"
proof -
  have "c_str (drop 0 buf) = Inr r" using assms by simp
  from strtok_at_step [OF this, of dollar] obtain pos1 buf1 where s1:
    "strtok_at dollar buf 0 = Inr (fst (strtok_step dollar r), pos1, buf1)" "length buf1 = length buf"
    "c_str (drop pos1 buf1) = Inr (snd (strtok_step dollar r))" by blast
  from strtok_at_step [OF s1(3), of dollar] obtain pos2 buf2 where
    "strtok_at dollar buf1 pos1
      = Inr (fst (strtok_step dollar (snd (strtok_step dollar r))), pos2, buf2)"
    "length buf2 = length buf1" by blast
  with s1(1,2) show ?thesis
    by (intro exI [of _ buf2]) (simp add: surv_handleRequest_def request_words_def case_prod_beta)
qed

text \<open>A request that can be answered: a command, and not so long that the answer leaves its buffer.\<close>

definition request_ok :: "string \<Rightarrow> bool" where
  "request_ok r \<longleftrightarrow> (\<exists>c \<in> set r. \<not> dollar c) \<and> length r \<le> 222"

lemma strtok_step_length:
  "strtok_step d s = (t, rest) \<Longrightarrow>
     length rest \<le> length s \<and> (case t of None \<Rightarrow> True | Some w \<Rightarrow> length w \<le> length s)"
proof -
  assume *: "strtok_step d s = (t, rest)"
  have "length (dropWhile d s) \<le> length s"
    by (rule length_dropWhile_le)
  moreover have "length (dropWhile (\<lambda>c. \<not> d c) (dropWhile d s)) \<le> length (dropWhile d s)"
    "length (takeWhile (\<lambda>c. \<not> d c) (dropWhile d s)) \<le> length (dropWhile d s)"
    by (rule length_dropWhile_le, rule length_takeWhile_le)
  ultimately show ?thesis
    using * unfolding strtok_step_def by (cases "dropWhile d s") (auto split: if_splits)
qed

lemma request_words_ok:
  assumes "request_ok r"
  shows "\<exists>command. fst (request_words r) = Some command"
    "snd (request_words r) = Some a \<Longrightarrow> length a \<le> 222"
proof -
  obtain t rest where t: "strtok_step dollar r = (t, rest)"
    by (cases "strtok_step dollar r")
  have "dropWhile dollar r \<noteq> []"
    using assms by (auto simp: request_ok_def dropWhile_eq_Nil_conv)
  then show "\<exists>command. fst (request_words r) = Some command"
    by (cases "dropWhile dollar r") (auto simp: request_words_def strtok_step_def)
  show "snd (request_words r) = Some a \<Longrightarrow> length a \<le> 222"
    using strtok_step_length [OF t] strtok_step_length [of dollar rest "Some a"] assms t
    by (cases "strtok_step dollar rest") (auto simp: request_words_def request_ok_def)
qed

text \<open>The state after a request with the words \<open>w\<close>.\<close>

definition wants_end :: "string option \<Rightarrow> bool" where
  "wants_end w \<longleftrightarrow> w = Some ''shutdown'' \<or> w = Some ''restart''"

definition after_request :: "'f control_env \<Rightarrow> string option \<times> string option \<Rightarrow> 'f control \<Rightarrow> 'f control"
  where
  "after_request env w st =
     (let up = \<not> sv_shutting_down (ct_surv st) in
      \<lparr>ct_surv = (ct_surv st)\<lparr>sv_restart :=
          sv_restart (ct_surv st) \<or> up \<and> fst w = Some ''restart''\<rparr>,
       ct_filter = (if fst w = Some ''add_filter'' \<and> snd w \<noteq> None
          then snd (ce_insert env (ct_filter st) (the (snd w) @ [NUL])) else ct_filter st),
       ct_signals = ct_signals st + (if up \<and> wants_end (fst w) \<and> ce_kill env = 0 then 1 else 0)\<rparr>)"

lemma reply_fits: "length s < 256 \<Longrightarrow> reply s st = Inr (s, st)"
  by (simp add: reply_def)

lemma signal_fits:
  assumes "int32_ok (ce_kill env)" "length s < 256"
  shows "\<exists>a. shutdown_signal env s st
     = Inr (a, st\<lparr>ct_signals := ct_signals st + (if ce_kill env = 0 then 1 else 0)\<rparr>) \<and> length a < 256"
  using length_show_int32 [OF assms(1)] assms(2) by (auto simp: shutdown_signal_def reply_def)

lemma answer_request_total:
  assumes "length (sv_status_msg (ct_surv st)) < 256" "int32_ok (ce_kill env)"
    "case args of None \<Rightarrow> True | Some a \<Rightarrow> length a \<le> 222"
  shows "\<exists>answer. answer_request env st command args
     = Inr (answer, after_request env (Some command, args) st) \<and> length answer < 256"
proof -
  consider "command = ''shutdown''" | "command = ''restart''" | "command = ''add_filter''"
    | "command \<noteq> ''shutdown''" "command \<noteq> ''restart''" "command \<noteq> ''add_filter''" by blast
  then show ?thesis
  proof cases
    case 1
    show ?thesis
      unfolding 1 using signal_fits [OF assms(2), of "''shutting watchdog down...'' @ [NL]" st]
      by (auto simp: answer_request_def reply_def after_request_def wants_end_def)
  next
    case 2
    show ?thesis
      unfolding 2 using signal_fits [OF assms(2), of "''restarting now...'' @ [NL]"
          "st\<lparr>ct_surv := (ct_surv st)\<lparr>sv_restart := True\<rparr>\<rparr>"]
      by (auto simp: answer_request_def reply_def after_request_def wants_end_def)
  next
    case 3
    show ?thesis
      unfolding 3 using assms(3)
      by (auto simp: answer_request_def reply_def after_request_def wants_end_def Let_def
          openCall_filter__add_def split: option.splits prod.splits)
  next
    case 4
    then show ?thesis
      using assms(1,3)
      by (auto simp: answer_request_def reply_def after_request_def wants_end_def
          split: option.splits)
  qed
qed

lemma handleRequest_total:
  assumes "c_str buf = Inr r" "request_ok r" "length (sv_status_msg (ct_surv st)) < 256"
    "int32_ok (ce_kill env)"
  shows "\<exists>answer buf'. surv_handleRequest env st buf
     = Inr (answer, after_request env (request_words r) st, buf')
     \<and> length answer < 256 \<and> length buf' = length buf"
proof -
  obtain command where c: "fst (request_words r) = Some command"
    using request_words_ok(1) [OF assms(2)] by blast
  have "case snd (request_words r) of None \<Rightarrow> True | Some a \<Rightarrow> length a \<le> 222"
    using request_words_ok(2) [OF assms(2)] by (auto split: option.splits)
  from answer_request_total [OF assms(3,4) this, of command] obtain answer where
    "answer_request env st command (snd (request_words r))
       = Inr (answer, after_request env (request_words r) st)" "length answer < 256"
    using c by (metis prod.collapse)
  then show ?thesis
    using handleRequest_eq [OF assms(1), of env st] c by auto
qed

section \<open>Serving the clients\<close>

text \<open>
  Clients that behave: what they send is a terminated request that can be answered, and they can be
  read from.
\<close>

definition good_client :: "'f access_event \<Rightarrow> nat \<Rightarrow> bool" where
  "good_client ev i \<longleftrightarrow> int32_ok (ce_kill (ae_env ev i)) \<and>
     (case ae_read ev i of ReadEnd \<Rightarrow> True | ReadError \<Rightarrow> False
      | ReadData bytes \<Rightarrow> length bytes \<le> 256 \<and> (\<exists>r. c_str bytes = Inr r \<and> request_ok r))"

definition sent_words :: "'f access_event \<Rightarrow> nat \<Rightarrow> string option \<times> string option" where
  "sent_words ev i =
     (case ae_read ev i of ReadData bytes \<Rightarrow> (case c_str bytes of Inr r \<Rightarrow> request_words r | Inl _ \<Rightarrow> (None, None))
      | _ \<Rightarrow> (None, None))"

definition senders :: "'f access_event \<Rightarrow> nat list \<Rightarrow> nat \<Rightarrow> nat list \<Rightarrow> nat list" where
  "senders ev rd rc_fd is = filter (\<lambda>i. i \<noteq> rc_fd \<and> i \<in> set rd \<and> ae_read ev i \<noteq> ReadEnd) is"

definition leavers :: "'f access_event \<Rightarrow> nat list \<Rightarrow> nat \<Rightarrow> nat list \<Rightarrow> nat list" where
  "leavers ev rd rc_fd is = filter (\<lambda>i. i \<noteq> rc_fd \<and> i \<in> set rd \<and> ae_read ev i = ReadEnd) is"

definition all_requests :: "'f access_event \<Rightarrow> nat list \<Rightarrow> 'f control \<Rightarrow> 'f control" where
  "all_requests ev is ct = fold (\<lambda>i. after_request (ae_env ev i) (sent_words ev i)) is ct"

text \<open>The thread can go on: its buffer is whole, and the status message fits an answer.\<close>

definition access_ok :: "'f access \<Rightarrow> bool" where
  "access_ok st \<longleftrightarrow> length (ac_buf st) = 256 \<and> length (sv_status_msg (ct_surv (ac_control st))) < 256
     \<and> (\<forall>a \<in> set (ac_answers st). length (snd a) < 256)"

lemma after_request_status [simp]:
  "sv_status_msg (ct_surv (after_request env w st)) = sv_status_msg (ct_surv st)"
  by (simp add: after_request_def Let_def)

lemma c_str_more: "c_str b = Inr r \<Longrightarrow> c_str (b @ x) = Inr r"
  using c_str_split [of b r] c_str_no_NUL [of b r] by auto

lemma access_client_ok:
  assumes "access_ok st" "good_client ev i"
  shows "\<exists>st'. access_client ev i st = Inr st' \<and> access_ok st'
     \<and> (if ae_read ev i = ReadEnd
         then st' = st\<lparr>ac_open := removeAll i (ac_open st)\<rparr>
         else ac_open st' = ac_open st \<and> ac_ret st' = ac_ret st
           \<and> ac_control st' = after_request (ae_env ev i) (sent_words ev i) (ac_control st)
           \<and> map fst (ac_answers st') = map fst (ac_answers st) @ [i])"
proof (cases "ae_read ev i")
  case ReadEnd
  then show ?thesis
    using assms(1) by (simp add: access_client_def access_ok_def)
next
  case (ReadData bytes)
  then obtain r where r: "length bytes \<le> 256" "c_str bytes = Inr r" "request_ok r"
    "int32_ok (ce_kill (ae_env ev i))"
    using assms(2) by (auto simp: good_client_def)
  let ?buf = "take 256 bytes @ drop (length bytes) (ac_buf st)"
  have buf: "c_str ?buf = Inr r" "length ?buf = 256"
    using r(1,2) assms(1) c_str_more by (simp_all add: access_ok_def)
  have "length (sv_status_msg (ct_surv (ac_control st))) < 256"
    using assms(1) by (simp add: access_ok_def)
  from handleRequest_total [OF buf(1) r(3) this r(4)] obtain answer buf' where
    "surv_handleRequest (ae_env ev i) (ac_control st) ?buf
       = Inr (answer, after_request (ae_env ev i) (request_words r) (ac_control st), buf')"
    "length answer < 256" "length buf' = length ?buf" by blast
  with ReadData r(2) buf(2) assms(1) show ?thesis
    by (auto simp: access_client_def access_request_def access_ok_def sent_words_def)
next
  case ReadError
  then show ?thesis
    using assms(2) by (simp add: good_client_def)
qed

lemma access_scan_ok:
  assumes "access_ok st" "\<forall>j. good_client ev j"
  shows "\<exists>st'. access_scan ev rd rc_fd i n st = Inr st' \<and> access_ok st' \<and> ac_ret st' = ac_ret st
     \<and> set (ac_open st') = set (ac_open st) - set (leavers ev rd rc_fd [i..<i + n])
     \<and> ac_control st' = all_requests ev (senders ev rd rc_fd [i..<i + n]) (ac_control st)
     \<and> map fst (ac_answers st') = map fst (ac_answers st) @ senders ev rd rc_fd [i..<i + n]"
  using assms(1)
proof (induction n arbitrary: i st)
  case 0
  then show ?case
    by (simp add: leavers_def senders_def all_requests_def)
next
  case (Suc n)
  have upt: "[i..<i + Suc n] = i # [Suc i..<Suc i + n]"
    by (simp add: upt_conv_Cons)
  show ?case
  proof (cases "i \<noteq> rc_fd \<and> i \<in> set rd")
    case False
    obtain st' where "access_scan ev rd rc_fd (Suc i) n st = Inr st' \<and> access_ok st'
      \<and> ac_ret st' = ac_ret st
      \<and> set (ac_open st') = set (ac_open st) - set (leavers ev rd rc_fd [Suc i..<Suc i + n])
      \<and> ac_control st' = all_requests ev (senders ev rd rc_fd [Suc i..<Suc i + n]) (ac_control st)
      \<and> map fst (ac_answers st') = map fst (ac_answers st) @ senders ev rd rc_fd [Suc i..<Suc i + n]"
      using Suc.IH [OF Suc.prems, of "Suc i"] by blast
    with False show ?thesis
      unfolding upt by (intro exI [of _ st']) (auto simp: leavers_def senders_def)
  next
    case True
    obtain st1 where st1: "access_client ev i st = Inr st1" "access_ok st1"
      "if ae_read ev i = ReadEnd then st1 = st\<lparr>ac_open := removeAll i (ac_open st)\<rparr>
       else ac_open st1 = ac_open st \<and> ac_ret st1 = ac_ret st
           \<and> ac_control st1 = after_request (ae_env ev i) (sent_words ev i) (ac_control st)
           \<and> map fst (ac_answers st1) = map fst (ac_answers st) @ [i]"
      using access_client_ok [OF Suc.prems, of ev i] assms(2) by blast
    obtain st' where st': "access_scan ev rd rc_fd (Suc i) n st1 = Inr st'" "access_ok st'"
      "ac_ret st' = ac_ret st1"
      "set (ac_open st') = set (ac_open st1) - set (leavers ev rd rc_fd [Suc i..<Suc i + n])"
      "ac_control st' = all_requests ev (senders ev rd rc_fd [Suc i..<Suc i + n]) (ac_control st1)"
      "map fst (ac_answers st') = map fst (ac_answers st1) @ senders ev rd rc_fd [Suc i..<Suc i + n]"
      using Suc.IH [OF st1(2), of "Suc i"] by blast
    show ?thesis
    proof (cases "ae_read ev i = ReadEnd")
      case end_i: True
      with True st1 st' show ?thesis
        unfolding upt by (intro exI [of _ st']) (auto simp: leavers_def senders_def)
    next
      case False
      with True st1 st' show ?thesis
        unfolding upt by (intro exI [of _ st']) (auto simp: leavers_def senders_def all_requests_def)
    qed
  qed
qed

lemma access_round_ok:
  assumes "access_ok st" "\<forall>j. good_client ev j" "rc_fd \<in> set (ac_open st)"
  shows "\<exists>st'. access_round rc_fd fd_size ev st = Inr st' \<and> access_ok st' \<and> rc_fd \<in> set (ac_open st')"
proof (cases "ae_ready ev rc_fd")
  case True
  with assms show ?thesis
    by (auto simp: access_round_def access_ok_def Let_def)
next
  case False
  let ?st = "st\<lparr>ac_ret := ae_select ev\<rparr>" and ?rd = "filter (ae_ready ev) (ac_open st)"
  have "access_ok ?st"
    using assms(1) by (simp add: access_ok_def)
  from access_scan_ok [OF this assms(2), of ?rd rc_fd 0 fd_size] False assms(3) show ?thesis
    by (auto simp: access_round_def leavers_def)
qed

lemma access_loop_ok:
  assumes "\<forall>ev \<in> set evs. \<forall>j. good_client ev j" "access_ok st" "rc_fd \<in> set (ac_open st)"
  shows "\<exists>st'. access_loop rc_fd fd_size evs st = Inr st' \<and> access_ok st' \<and> rc_fd \<in> set (ac_open st')"
  using assms
proof (induction evs arbitrary: st)
  case Nil
  then show ?case by simp
next
  case (Cons ev evs)
  then obtain st1 where "access_round rc_fd fd_size ev st = Inr st1" "access_ok st1"
    "rc_fd \<in> set (ac_open st1)"
    using access_round_ok [of st ev rc_fd fd_size] by auto
  with Cons show ?case by simp
qed

section \<open>Properties\<close>

text \<open>The words of a request with one dollar sign.\<close>

definition no_dollar :: "string \<Rightarrow> bool" where
  "no_dollar w \<longleftrightarrow> (\<forall>c \<in> set w. \<not> dollar c)"

lemma strtok_step_word:
  assumes "no_dollar w" "w \<noteq> []"
  shows "strtok_step dollar (w @ CHR ''$'' # rest) = (Some w, rest)"
    "strtok_step dollar w = (Some w, [])"
proof -
  obtain c cs where w: "w = c # cs" using assms(2) by (cases w) auto
  have "takeWhile (\<lambda>c. \<not> dollar c) (w @ CHR ''$'' # rest) = w"
    "dropWhile (\<lambda>c. \<not> dollar c) (w @ CHR ''$'' # rest) = CHR ''$'' # rest"
    using assms(1) by (simp_all add: no_dollar_def dollar_def)
  moreover have "dropWhile dollar (w @ CHR ''$'' # rest) = w @ CHR ''$'' # rest"
    using assms(1) w by (simp add: no_dollar_def)
  ultimately show "strtok_step dollar (w @ CHR ''$'' # rest) = (Some w, rest)"
    using w by (simp add: strtok_step_def)
  have "takeWhile (\<lambda>c. \<not> dollar c) w = w" "dropWhile (\<lambda>c. \<not> dollar c) w = []"
    using assms(1) by (auto simp: no_dollar_def takeWhile_eq_all_conv dropWhile_eq_Nil_conv)
  moreover have "dropWhile dollar w = w"
    using assms(1) w by (simp add: no_dollar_def)
  ultimately show "strtok_step dollar w = (Some w, [])"
    using w by (simp add: strtok_step_def)
qed

lemma request_words_two:
  assumes "no_dollar w" "w \<noteq> []" "no_dollar a" "a \<noteq> []"
  shows "request_words (w @ CHR ''$'' # a) = (Some w, Some a)"
  using strtok_step_word(1) [OF assms(1,2), of a] strtok_step_word(2) [OF assms(3,4)]
  by (simp add: request_words_def)

lemma request_words_one:
  assumes "no_dollar w" "w \<noteq> []"
  shows "request_words (w @ CHR ''$'' # []) = (Some w, None)"
  using strtok_step_word(1) [OF assms, of "[]"]
  by (simp add: request_words_def) (simp add: strtok_step_def)


definition demo_control :: "string list control" where
  "demo_control = \<lparr>ct_surv = demo_surv\<lparr>sv_shutting_down := False\<rparr>, ct_filter = [], ct_signals = 0\<rparr>"

definition demo_control_env :: "string list control_env" where
  "demo_control_env = \<lparr>ce_insert = (\<lambda>t k. (0, k # t)), ce_kill = 0\<rparr>"


theorem request_overflows:
  assumes "c_str buf = Inr (''add_filter'' @ CHR ''$'' # path)" "CHR ''$'' \<notin> set path"
    "233 \<le> length path"
  shows "surv_handleRequest env st buf = Inl OutOfBounds"
proof -
  have "request_words (''add_filter'' @ CHR ''$'' # path) = (Some ''add_filter'', Some path)"
    using assms(2,3) by (intro request_words_two) (auto simp: no_dollar_def dollar_def)
  with handleRequest_eq [OF assms(1), of env st] assms(3) show ?thesis
    by (auto simp: answer_request_def reply_def Let_def split: prod.splits)
qed

theorem request_overflows_witness:
  "surv_handleRequest demo_control_env demo_control
     (c_block (''add_filter'' @ CHR ''$'' # replicate 240 CHR ''a'')) = Inl OutOfBounds"
  by (rule request_overflows [where path = "replicate 240 CHR ''a''"], rule c_str_block)
     (simp_all add: NUL_def)

theorem request_without_command:
  assumes "c_str buf = Inr (replicate n CHR ''$'')"
  shows "surv_handleRequest env st buf = Inl NullDeref"
proof -
  have "dropWhile dollar (replicate n CHR ''$'') = []"
    by (auto simp: dropWhile_eq_Nil_conv dollar_def)
  then have "strtok_step dollar (replicate n CHR ''$'') = (None, [])"
    by (simp only: strtok_step_def list.case)
  then have "fst (request_words (replicate n CHR ''$'')) = None"
    by (simp add: request_words_def)
  with handleRequest_eq [OF assms, of env st] show ?thesis
    by auto
qed

theorem request_without_command_witness:
  "surv_handleRequest demo_control_env demo_control (c_block ''$'') = Inl NullDeref"
  by (rule request_without_command [where n = 1]) (simp add: NUL_def)


definition demo_event :: "string list access_event" where
  "demo_event = \<lparr>ae_select = 2, ae_ready = (\<lambda>i. i = 5 \<or> i = 6), ae_accept = -1,
     ae_read = (\<lambda>i. if i = 5 then ReadData (c_block ''get_status$'') else ReadEnd),
     ae_env = (\<lambda>_. demo_control_env)\<rparr>"

definition demo_access :: "string list access" where
  "demo_access = \<lparr>ac_control = demo_control, ac_open = [6, 5, 4, 3], ac_buf = replicate 256 NUL,
     ac_answers = [], ac_ret = 0\<rparr>"

lemma demo_access_ok: "access_ok demo_access"
  by (simp add: demo_access_def access_ok_def demo_control_def demo_surv_def)

lemma demo_event_good: "good_client demo_event i"
proof -
  have "c_str (c_block ''get_status$'') = Inr ''get_status$''"
    by (rule c_str_block) (simp add: NUL_def)
  then show ?thesis
    by (auto simp: demo_event_def good_client_def demo_control_env_def int32_ok_def request_ok_def
        dollar_def)
qed


theorem handleAccess_safe:
  assumes "\<forall>ev \<in> set events. \<forall>i. good_client ev i" "length (as_buf ae) = 256"
    "length (sv_status_msg (ct_surv ct)) < 256" "can_alloc (as_ret ae) 4"
    "ctl_path exec_addr ctl_addr = Inr path"
  shows "\<exists>ret ct' answers. surv_handleAccess ae exec_addr ctl_addr events ct = Inr (ret, ct', answers)
     \<and> (\<forall>a \<in> set answers. length (snd a) < 256)
     \<and> (as_socket ae = None \<or> as_reuse ae \<noteq> 0 \<or> \<not> as_bind ae path \<or> \<not> as_listen ae
        \<longrightarrow> (ret = 2 \<or> ret = -1) \<and> ct' = ct \<and> answers = [])"
proof (cases "as_socket ae")
  case None
  with assms(4) show ?thesis by (simp add: surv_handleAccess_def)
next
  case (Some rc_fd)
  let ?st = "\<lparr>ac_control = ct, ac_open = List.insert (as_killpipe ae) [rc_fd], ac_buf = as_buf ae,
     ac_answers = [], ac_ret = NOMINAL\<rparr>"
  have "access_ok ?st" "rc_fd \<in> set (ac_open ?st)"
    using assms(2,3) by (simp_all add: access_ok_def)
  from access_loop_ok [OF assms(1) this, of "as_fd_size ae"] obtain st' where
    "access_loop rc_fd (as_fd_size ae) events ?st = Inr st'" "access_ok st'" by blast
  with Some assms(4,5) show ?thesis
    by (auto simp: surv_handleAccess_def access_ok_def)
qed

definition demo_access_env :: access_env where
  "demo_access_env = \<lparr>as_ret = roomy, as_socket = Some 3, as_reuse = 0, as_bind = (\<lambda>_. True),
     as_listen = True, as_killpipe = 4, as_fd_size = 16, as_buf = replicate 256 TAB\<rparr>"

theorem handleAccess_safe_witness:
  "\<exists>ret ct' answers. surv_handleAccess demo_access_env (c_block ''/e'') (c_block ''/c'') [demo_event] demo_control
        = Inr (ret, ct', answers)
     \<and> (\<forall>a \<in> set answers. length (snd a) < 256)"
proof -
  have "ctl_path (c_block ''/e'') (c_block ''/c'') = Inr (strncpy 107 ''/c'' @ [NUL])"
    using c_str_block [of "''/c''"] by (simp add: ctl_path_def slot_def NUL_def c_block_def)
  from handleAccess_safe [OF _ _ _ _ this, of "[demo_event]" demo_access_env demo_control]
  show ?thesis
    using demo_event_good by (auto simp: demo_access_env_def demo_control_def demo_surv_def)
qed

end
