(* ===== verification/ControlProgram.thy ===== *)
theory ControlProgram
  imports Control Database
begin

text \<open>
  The control program, \<open>src/src/watchdog/src/watchdog_ctrl.c\<close>: its options, the query of the database
  and the requests to the daemon.

  The parser \<open>argp\<close> of the C library calls \<open>parse_opt\<close> with one key after the other; a run is given by
  the list of these calls. \<open>realpath\<close> is a parameter: what it leaves in its buffer. The answers of the
  daemon are a parameter too, as bytes.
\<close>

section \<open>Options\<close>

record arguments =
  ar_start :: bool
  ar_stop :: bool
  ar_status :: bool
  ar_abort :: bool
  ar_restart :: bool
  ar_get :: bool
  ar_format :: int
  ar_eCallMode :: int
  ar_no_associated :: bool
  ar_add_file :: string
  ar_remove_file :: string
  ar_arg1 :: "string option"

definition TEXT :: int where
  "TEXT = 0"

definition JSON :: int where
  "JSON = 1"

definition INTERACTIVE :: int where
  "INTERACTIVE = 2"

definition get_opts :: "string list" where
  "get_opts = [''format'', ''ex'', ''no_as'']"

text \<open>
  \<open>getsubopt\<close> of the C library: the number of the first suboption in the list of names (-1 if it is
  not there), its value, and the text after its comma.
\<close>

fun position :: "string \<Rightarrow> string list \<Rightarrow> int" where
  "position x [] = -1"
| "position x (y # ys) = (if x = y then 0 else (case position x ys of k \<Rightarrow> if k < 0 then k else k + 1))"

definition getsubopt :: "string list \<Rightarrow> string \<Rightarrow> int \<times> string option \<times> string" where
  "getsubopt names s =
     (let sub = takeWhile (\<lambda>c. c \<noteq> CHR '','') s; k = position (takeWhile (\<lambda>c. c \<noteq> CHR ''='') sub) names in
      (k, if k = -1 then Some sub
          else (case dropWhile (\<lambda>c. c \<noteq> CHR ''='') sub of [] \<Rightarrow> None | _ # v \<Rightarrow> Some v),
       drop 1 (dropWhile (\<lambda>c. c \<noteq> CHR '','') s)))"

text \<open>\<open>!strncmp(word, value, 1)\<close>: only the first character is compared.\<close>

definition same_start :: "string \<Rightarrow> string \<Rightarrow> bool" where
  "same_start word value = (take 1 word = take 1 value)"

definition set_subopt :: "int \<Rightarrow> string option \<Rightarrow> arguments \<Rightarrow> arguments" where
  "set_subopt k value a =
     (if k = 0 then
        (case value of None \<Rightarrow> a\<lparr>ar_format := TEXT\<rparr>
         | Some v \<Rightarrow> if same_start ''text'' v then a\<lparr>ar_format := TEXT\<rparr>
                     else if same_start ''json'' v then a\<lparr>ar_format := JSON\<rparr>
                     else if same_start ''interactive'' v then a\<lparr>ar_format := INTERACTIVE\<rparr>
                     else a)
      else if k = 1 then
        (case value of None \<Rightarrow> a\<lparr>ar_eCallMode := 1\<rparr>
         | Some v \<Rightarrow> if same_start ''key'' v then a\<lparr>ar_eCallMode := 1\<rparr>
                     else if same_start ''name'' v then a\<lparr>ar_eCallMode := 2\<rparr>
                     else if same_start ''timestamp'' v then a\<lparr>ar_eCallMode := 3\<rparr>
                     else a\<lparr>ar_eCallMode := -1\<rparr>)
      else if k = 2 then a\<lparr>ar_no_associated := True\<rparr>
      else a)"

lemma rest_shorter: "s \<noteq> [] \<Longrightarrow> length (drop 1 (dropWhile P s)) < length s"
proof -
  assume "s \<noteq> []"
  then have "0 < length s" by simp
  then show ?thesis
    using length_dropWhile_le [of P s] unfolding length_drop by linarith
qed

function parse_subopts :: "string \<Rightarrow> arguments \<Rightarrow> arguments" where
  "parse_subopts s a =
     (if s = [] then a
      else case getsubopt get_opts s of (k, value, rest) \<Rightarrow> parse_subopts rest (set_subopt k value a))"
  by pat_completeness auto
termination
  by (relation "measure (\<lambda>(s, a). length s)")
     (use rest_shorter in \<open>auto simp: getsubopt_def Let_def simp del: length_drop drop_Suc\<close>)

declare parse_subopts.simps [simp del]

datatype argp_key = Key char | OPT_ABORT | ARGP_KEY_NO_ARGS | ARGP_KEY_ARG | OtherKey

text \<open>
  The result: whether the key was known, whether parsing ends here, and the arguments. The case of
  \<open>'g'\<close> with suboptions has no \<open>break\<close>, so it runs on into the case of \<open>'r'\<close>.
\<close>

definition parse_opt ::
  "(string \<Rightarrow> string) \<Rightarrow> argp_key \<Rightarrow> string option \<Rightarrow> arguments \<Rightarrow> bool \<times> bool \<times> arguments" where
  "parse_opt realpath key arg a =
     (case key of
        Key c \<Rightarrow>
          (if c = CHR ''s'' then (True, False, a\<lparr>ar_start := True\<rparr>)
           else if c = CHR ''q'' then (True, False, a\<lparr>ar_stop := True\<rparr>)
           else if c = CHR ''g'' then
             (let a = a\<lparr>ar_get := True\<rparr> in
              case arg of None \<Rightarrow> (True, False, a)
              | Some subopts \<Rightarrow> (True, False, (parse_subopts subopts a)\<lparr>ar_restart := True\<rparr>))
           else if c = CHR ''r'' then (True, False, a\<lparr>ar_restart := True\<rparr>)
           else if c = CHR ''u'' then (True, False, a\<lparr>ar_status := True\<rparr>)
           else if c = CHR ''a''
           then (True, False, a\<lparr>ar_add_file := realpath (case arg of None \<Rightarrow> ''./'' | Some f \<Rightarrow> f)\<rparr>)
           else if c = CHR ''d''
           then (True, False, a\<lparr>ar_remove_file := realpath (case arg of None \<Rightarrow> ''./'' | Some f \<Rightarrow> f)\<rparr>)
           else (False, False, a))
      | OPT_ABORT \<Rightarrow> (True, False, a\<lparr>ar_abort := True\<rparr>)
      | ARGP_KEY_NO_ARGS \<Rightarrow> (True, True, a\<lparr>ar_arg1 := arg\<rparr>)
      | ARGP_KEY_ARG \<Rightarrow> (True, True, a\<lparr>ar_arg1 := arg\<rparr>)
      | OtherKey \<Rightarrow> (False, False, a))"

text \<open>
  The options that the program declares to \<open>argp\<close>: name, key, name of the argument, and whether the
  argument can be left out. An entry without a name is the title of a group. The help texts are left out.
\<close>

record argp_option =
  ao_name :: "string option"
  ao_key :: argp_key
  ao_arg :: "string option"
  ao_optional :: bool

definition options :: "argp_option list" where
  "options =
     [\<lparr>ao_name = Some ''start'', ao_key = Key (CHR ''s''), ao_arg = None, ao_optional = False\<rparr>,
      \<lparr>ao_name = Some ''stop'', ao_key = Key (CHR ''q''), ao_arg = None, ao_optional = False\<rparr>,
      \<lparr>ao_name = Some ''restart'', ao_key = Key (CHR ''r''), ao_arg = None, ao_optional = False\<rparr>,
      \<lparr>ao_name = Some ''status'', ao_key = Key (CHR ''u''), ao_arg = None, ao_optional = False\<rparr>,
      \<lparr>ao_name = None, ao_key = OtherKey, ao_arg = None, ao_optional = False\<rparr>,
      \<lparr>ao_name = Some ''add'', ao_key = Key (CHR ''a''), ao_arg = Some ''FILE/DIR'', ao_optional = True\<rparr>,
      \<lparr>ao_name = Some ''delete'', ao_key = Key (CHR ''d''), ao_arg = Some ''FILE/DIR'', ao_optional = True\<rparr>,
      \<lparr>ao_name = None, ao_key = OtherKey, ao_arg = None, ao_optional = False\<rparr>,
      \<lparr>ao_name = Some ''get'', ao_key = Key (CHR ''g''), ao_arg = Some ''Suboption'', ao_optional = True\<rparr>,
      \<lparr>ao_name = None, ao_key = OtherKey, ao_arg = None, ao_optional = False\<rparr>,
      \<lparr>ao_name = Some ''get'', ao_key = Key (CHR ''g''), ao_arg = Some '',format=[text(t),json(j),interactive(i)]'',
        ao_optional = False\<rparr>,
      \<lparr>ao_name = Some ''get'', ao_key = Key (CHR ''g''), ao_arg = Some '',ex=[key(k),name(n),timestamp(t)]'',
        ao_optional = False\<rparr>,
      \<lparr>ao_name = Some ''get'', ao_key = Key (CHR ''g''), ao_arg = Some '',no_as'', ao_optional = False\<rparr>,
      \<lparr>ao_name = None, ao_key = OtherKey, ao_arg = None, ao_optional = False\<rparr>,
      \<lparr>ao_name = Some ''abort'', ao_key = OPT_ABORT, ao_arg = None, ao_optional = False\<rparr>]"

text \<open>
  Every option that is declared is known to \<open>parse_opt\<close>, and every key that it knows is declared. So it
  is never asked for an option that it refuses.
\<close>

lemma options_known:
  assumes "key = OPT_ABORT \<or> (\<exists>k. key = Key k)"
  shows "fst (parse_opt realpath key arg a) \<longleftrightarrow> (\<exists>opt \<in> set options. ao_name opt \<noteq> None \<and> ao_key opt = key)"
  using assms by (auto simp: options_def parse_opt_def Let_def split: option.splits if_splits)

fun parse_keys :: "(string \<Rightarrow> string) \<Rightarrow> (argp_key \<times> string option) list \<Rightarrow> arguments \<Rightarrow> arguments" where
  "parse_keys realpath [] a = a"
| "parse_keys realpath ((key, arg) # ks) a =
     (case parse_opt realpath key arg a of (_, stop, a) \<Rightarrow>
        if stop then a else parse_keys realpath ks a)"

section \<open>The query of the database\<close>

record 'd get_env =
  ge_sb :: alloc_env
  ge_stack :: stringBuffer
  ge_vector :: alloc_env
  ge_vector_stack :: "db_full_Record vector"
  ge_ops :: "'d bdb"
  ge_db :: 'd
  ge_retrieve :: "nat \<Rightarrow> retrieve_env"
  ge_append :: "nat \<Rightarrow> alloc_env"
  ge_json :: "nat \<Rightarrow> nat \<Rightarrow> alloc_env"
  ge_loop :: "nat \<Rightarrow> nat \<Rightarrow> nat \<Rightarrow> alloc_env"
  ge_open :: "nat \<Rightarrow> nat \<Rightarrow> alloc_env"

text \<open>\<open>n\<close> rounds of the loop over the records, from index \<open>i\<close> on; no return code is looked at.\<close>

fun json_records :: "'d get_env \<Rightarrow> nat \<Rightarrow> nat \<Rightarrow> db_full_Record option list \<Rightarrow> stringBuffer \<Rightarrow> stringBuffer res"
  where
  "json_records ge i 0 es sb = Inr sb"
| "json_records ge i (Suc n) es sb =
     bind_r (slot es (int i)) (\<lambda>p. bind_r (deref p) (\<lambda>f.
       bind_r (db_full_Record_jsonsb (ge_json ge i) (ge_loop ge i) (ge_open ge i) f sb) (\<lambda>(_, sb).
         bind_r (sb_append (ge_append ge (i + 2)) sb (c_block '', '')) (\<lambda>(_, sb).
           json_records ge (i + 1) n es sb))))"

definition get_output :: "'d get_env \<Rightarrow> int \<Rightarrow> string \<Rightarrow> db_full_Record vector \<Rightarrow> stringBuffer
    \<Rightarrow> (string \<times> stringBuffer) res" where
  "get_output ge format path v sb =
     (if format = TEXT then
        Inr (if vlength v = 0 then ''No Records Found for query:'' @ [NL] @ '' '' @ path @ [NL]
             else ''Text return not implemented yet'' @ [NL], sb)
      else if format = JSON then
        bind_r (sb_append (ge_append ge 0) sb (c_block ''['')) (\<lambda>(_, sb).
          bind_r (json_records ge 0 (vlength v) (elems v) sb) (\<lambda>sb.
            bind_r (sb_append (ge_append ge 1) sb (c_block ('']'' @ [NL]))) (\<lambda>(_, sb).
              bind_r (c_str (sb_string sb)) (\<lambda>s. Inr (s @ [NL], sb)))))
      else if format = INTERACTIVE then
        Inr (if vlength v = 0 then ''No Records Found for query:'' @ [NL] @ '' '' @ path @ [NL]
             else ''Interactive mode not implemented yet'' @ [NL], sb)
      else Inr (''Error occured: fell through format switch'' @ [NL] @ ''Enum value: ''
                @ show_int format @ [NL], sb))"

fun destroy_records :: "db_full_Record option list \<Rightarrow> unit res" where
  "destroy_records [] = Inr ()"
| "destroy_records (p # ps) =
     bind_r (deref p) (\<lambda>f. bind_r (db_void_full_Record_destroy f) (\<lambda>_. destroy_records ps))"

text \<open>
  The signals that are caught while the database is queried, all that can be but two, and what the handler
  does: it closes the database, and the query then goes on with a copy of the closed handles.
\<close>

definition caught_signals :: "nat list" where
  "caught_signals = filter (\<lambda>sig. sig \<noteq> 9 \<and> sig \<noteq> 19 \<and> sig \<noteq> 32 \<and> sig \<noteq> 33) [1..<64]"

definition handle_signal :: "(db_call \<Rightarrow> int) \<Rightarrow> db_manager \<Rightarrow> int" where
  "handle_signal rc glob_db_man = db_man_close rc glob_db_man"

text \<open>The signal 28 of a window that changes its size is one of them.\<close>

lemma resize_closes_database: "28 \<in> set caught_signals"
  by (simp add: caught_signals_def)

text \<open>The return code and what is printed.\<close>

definition get_from_database ::
  "(string \<Rightarrow> string) \<Rightarrow> 'd get_env \<Rightarrow> arguments \<Rightarrow> (int \<times> string) res" where
  "get_from_database realpath ge a =
     (case sb_init (ge_sb ge) (ge_stack ge) 256 of (ret, sb) \<Rightarrow>
      case vector_init (ge_vector ge) (ge_vector_stack ge) 32 8 of (_, v) \<Rightarrow>
        let path = (if ar_eCallMode a = 0
                    then realpath (case ar_arg1 a of None \<Rightarrow> ''./'' | Some f \<Rightarrow> f) else []) in
        bind_r (if ar_eCallMode a = 0
                then bind_r (retrieveRecords_Path (ge_ops ge) (ge_retrieve ge) v (ge_db ge) (path @ [NUL]))
                       (\<lambda>(_, v). Inr v)
                else Inr v) (\<lambda>v.
          bind_r (get_output ge (ar_format a) path v sb) (\<lambda>(out, _).
            bind_r (vector_destroyd v) (\<lambda>(ps, _).
              bind_r (destroy_records ps) (\<lambda>_. Inr (ret, out))))))"

section \<open>Requests\<close>

text \<open>
  \<open>cl_write k\<close> tells whether request \<open>k\<close> can be sent, \<open>cl_reply k\<close> are the bytes that are read
  then, none if \<open>read\<close> fails. \<open>cl_buf\<close> is what the buffer holds before.
\<close>

record client_env =
  cl_alloc :: "nat \<Rightarrow> alloc_env"
  cl_socket :: bool
  cl_connect :: bool
  cl_fork :: int
  cl_write :: "nat \<Rightarrow> bool"
  cl_reply :: "nat \<Rightarrow> char list"
  cl_buf :: "char list"

text \<open>What was sent, the answers printed, and the buffer of 200 bytes.\<close>

record client =
  cs_sent :: "string list"
  cs_printed :: "string list"
  cs_buf :: "char list"

definition ask :: "client_env \<Rightarrow> string \<Rightarrow> client \<Rightarrow> (bool \<times> client) res" where
  "ask env request st =
     (let k = length (cs_sent st) in
      if \<not> cl_write env k then Inr (False, st)
      else let buf = take 200 (cl_reply env k) @ drop (length (cl_reply env k)) (cs_buf st) in
        bind_r (c_str buf) (\<lambda>answer.
          Inr (True, \<lparr>cs_sent = cs_sent st @ [request], cs_printed = cs_printed st @ [answer],
                      cs_buf = buf\<rparr>)))"

text \<open>\<open>sprintf\<close> into the 300 bytes of \<open>request\<close>.\<close>

definition format_request :: "string \<Rightarrow> string res" where
  "format_request s = (if length s < 300 then Inr s else Inl OutOfBounds)"

definition send_request :: "client_env \<Rightarrow> string \<Rightarrow> client \<Rightarrow> client res" where
  "send_request env s st =
     bind_r (format_request s) (\<lambda>request. bind_r (ask env request st) (\<lambda>(_, st). Inr st))"

text \<open>
  The part with a connection. Each request but the first ends the program; the second test for a
  file to add, where one to remove is meant, is reached with none only.
\<close>

definition client_connected :: "client_env \<Rightarrow> arguments \<Rightarrow> client \<Rightarrow> (int \<times> client) res" where
  "client_connected env a st =
     (if ar_start a then Inr (3, st)
      else bind_r (if ar_status a then ask env ''get_status$'' st else Inr (True, st)) (\<lambda>(go, st).
        if \<not> go then Inr (0, st)
        else if ar_stop a then bind_r (send_request env ''shutdown$'' st) (\<lambda>st. Inr (0, st))
        else if ar_restart a then bind_r (send_request env ''restart$'' st) (\<lambda>st. Inr (0, st))
        else if ar_add_file a \<noteq> []
        then bind_r (send_request env (''add_filter$'' @ ar_add_file a) st) (\<lambda>st. Inr (0, st))
        else if ar_add_file a \<noteq> []
        then bind_r (send_request env (''remove_filter$'' @ ar_remove_file a) st) (\<lambda>st. Inr (0, st))
        else Inr (0, st)))"

definition exit_code :: "int \<Rightarrow> int" where
  "exit_code ret = (if ret \<noteq> 0 then 1 else 0)"

definition no_options :: "arguments \<Rightarrow> arguments" where
  "no_options stack = stack\<lparr>ar_add_file := [], ar_remove_file := [], ar_abort := False,
     ar_eCallMode := 0, ar_get := False, ar_restart := False, ar_status := False, ar_start := False,
     ar_stop := False, ar_format := TEXT\<rparr>"

definition or_status :: "arguments \<Rightarrow> arguments" where
  "or_status a =
     (if ar_stop a \<or> ar_start a \<or> ar_status a \<or> ar_add_file a \<noteq> [] \<or> ar_remove_file a \<noteq> []
         \<or> ar_restart a \<or> ar_get a
      then a else a\<lparr>ar_status := True\<rparr>)"

text \<open>The exit code, and what was sent and printed; \<open>None\<close> when the query was printed instead.\<close>

definition watchdog_ctrl ::
  "(string \<Rightarrow> string) \<Rightarrow> client_env \<Rightarrow> 'd get_env \<Rightarrow> (argp_key \<times> string option) list \<Rightarrow> arguments
   \<Rightarrow> (int \<times> string option \<times> client) res" where
  "watchdog_ctrl realpath env ge keys stack =
     (let st = \<lparr>cs_sent = [], cs_printed = [], cs_buf = cl_buf env\<rparr> in
      if \<not> can_alloc (cl_alloc env 0) 4097 \<or> \<not> can_alloc (cl_alloc env 1) 4097
         \<or> \<not> can_alloc (cl_alloc env 2) 4097 then Inr (1, None, st)
      else let a = parse_keys realpath keys (no_options stack) in
        if ar_abort a then Inr (10, None, st)
        else if ar_start a \<and> ar_stop a then Inr (11, None, st)
        else if ar_stop a \<and> ar_restart a then Inr (11, None, st)
        else if ar_get a
        then bind_r (get_from_database realpath ge a) (\<lambda>(ret, out). Inr (exit_code ret, Some out, st))
        else let a = or_status a in
          if \<not> cl_socket env then Inr (0, None, st)
          else if \<not> cl_connect env then
            (if ar_start a
             then Inr (if cl_fork env < 0 then 1 else 0, None, st)
             else Inr (exit_code 3, None, st))
          else bind_r (client_connected env a st) (\<lambda>(ret, st). Inr (exit_code ret, None, st)))"

section \<open>The output of a query\<close>

text \<open>The records of a list as text, and the surroundings in which nothing runs out.\<close>

definition records_json :: "(oCallRecord \<times> eCallRecord list) list \<Rightarrow> string" where
  "records_json rs = concat (map (\<lambda>(r, es). full_json r es @ '', '') rs)"

definition good_get :: "'d get_env \<Rightarrow> bool" where
  "good_get ge \<longleftrightarrow> can_alloc (ge_sb ge) 256 \<and> can_alloc (ge_vector ge) 256
     \<and> (\<forall>k. good_retrieve (ge_retrieve ge k)) \<and> (\<forall>i n. grants (ge_append ge i) n)
     \<and> (\<forall>k i n. grants (ge_json ge k i) n \<and> grants (ge_open ge k i) n)
     \<and> (\<forall>k i j n. grants (ge_loop ge k i j) n)"

definition shows_record :: "db_full_Record \<Rightarrow> oCallRecord \<times> eCallRecord list \<Rightarrow> bool" where
  "shows_record f p \<longleftrightarrow> fr_openCall f = fst p \<and> oCall_ok (fst p) \<and> vec_wf (fr_execCalls f)
     \<and> vec_list (fr_execCalls f) = map Some (snd p) \<and> (\<forall>e \<in> set (snd p). eCall_ok e)"

lemma full_json_no_NUL:
  assumes "oCall_ok r" "\<forall>e \<in> set es. eCall_ok e"
  shows "NUL \<notin> set (full_json r es)"
proof -
  have "NUL \<notin> set (exec_json e)" if "e \<in> set es" for e
    using assms(2) that numbers_no_NUL(1) [of e]
    by (auto simp: exec_json_def eCall_ok_def str_ok_def) (auto simp: NUL_def)
  moreover have "NUL \<notin> set (open_json r)"
    using assms(1) numbers_no_NUL(2) [of r]
    by (auto simp: open_json_def oCall_ok_def str_ok_def) (auto simp: NUL_def)
  ultimately show ?thesis
    by (auto simp: full_json_def) (auto simp: NUL_def NL_def)
qed

lemma json_records_append:
  assumes "good_get ge" "sb_ready b" "i + n \<le> length es"
    "list_all2 (\<lambda>p q. \<exists>f. p = Some f \<and> shows_record f q) (take n (drop i es)) rs"
    "length (sb_text b) + length (records_json rs) < 2 ^ 32"
  shows "\<exists>b'. json_records ge i n es b = Inr b' \<and> sb_ready b' \<and> sb_text b' = sb_text b @ records_json rs"
  using assms(2-)
proof (induction n arbitrary: i b rs)
  case 0
  then show ?case by (simp add: records_json_def)
next
  case (Suc n)
  have i: "i < length es" using Suc.prems(2) by simp
  have "list_all2 (\<lambda>p q. \<exists>f. p = Some f \<and> shows_record f q)
      (es ! i # take n (drop (Suc i) es)) rs"
    using Suc.prems(3) take_Suc_drop [OF i, of n] by simp
  then obtain f q rs1 where r: "es ! i = Some f" "shows_record f q" "rs = q # rs1"
    "list_all2 (\<lambda>p q. \<exists>f. p = Some f \<and> shows_record f q) (take n (drop (Suc i) es)) rs1"
    by (auto simp: list_all2_Cons1)
  obtain r es1 where q: "q = (r, es1)" by (cases q)
  have len: "length (sb_text b) + length (full_json r es1) + 2 + length (records_json rs1) < 2 ^ 32"
    using Suc.prems(4) r(3) q by (simp add: records_json_def)
  have mem: "\<forall>k n. grants (ge_json ge i k) n" "\<forall>k j n. grants (ge_loop ge i k j) n"
    "\<forall>k n. grants (ge_open ge i k) n" "\<forall>n. grants (ge_append ge (i + 2)) n"
    using assms(1) by (simp_all add: good_get_def)
  have f: "oCall_ok (fr_openCall f)" "vec_wf (fr_execCalls f)" "vec_list (fr_execCalls f) = map Some es1"
    "\<forall>e \<in> set es1. eCall_ok e" "fr_openCall f = r"
    using r(2) q by (simp_all add: shows_record_def)
  obtain b1 where b1: "db_full_Record_jsonsb (ge_json ge i) (ge_loop ge i) (ge_open ge i) f b = Inr (0, b1)"
    "sb_ready b1" "sb_text b1 = sb_text b @ full_json r es1"
    using full_jsonsb_appends [OF f(1-4) Suc.prems(1) mem(1-3)] len f(5) by auto
  obtain b2 where b2: "sb_append (ge_append ge (i + 2)) b1 (c_block '', '') = Inr (0, b2)" "sb_ready b2"
    "sb_text b2 = sb_text b1 @ '', ''"
    using put_piece [OF b1(2), of "'', ''" "ge_append ge (i + 2)"] mem(4) b1(3) len
    by (auto simp: NUL_def)
  obtain b3 where "json_records ge (Suc i) n es b2 = Inr b3" "sb_ready b3"
    "sb_text b3 = sb_text b2 @ records_json rs1"
    using Suc.IH [OF b2(2) _ r(4)] Suc.prems(2) b1(3) b2(3) len by auto
  with b1 b2 r(1,3) i q show ?case
    by (simp add: records_json_def)
qed

lemma get_output_json:
  assumes "good_get ge" "sb_ready b" "sb_text b = []" "vec_wf v"
    "list_all2 (\<lambda>p q. \<exists>f. p = Some f \<and> shows_record f q) (vec_list v) rs"
    "length (records_json rs) < 2 ^ 31"
  shows "\<exists>b'. get_output ge JSON path v b = Inr (''['' @ records_json rs @ '']'' @ [NL, NL], b')"
proof -
  have mem: "\<forall>n. grants (ge_append ge 0) n" "\<forall>n. grants (ge_append ge 1) n"
    using assms(1) by (simp_all add: good_get_def)
  obtain b1 where b1: "sb_append (ge_append ge 0) b (c_block ''['') = Inr (0, b1)" "sb_ready b1"
    "sb_text b1 = ''[''"
    using put_piece [OF assms(2), of "''[''" "ge_append ge 0"] mem(1) assms(3) by (auto simp: NUL_def)
  have v: "vlength v \<le> length (elems v)"
    "list_all2 (\<lambda>p q. \<exists>f. p = Some f \<and> shows_record f q) (take (vlength v) (drop 0 (elems v))) rs"
    using assms(4,5) by (auto simp: vec_wf_def vec_list_def)
  obtain b2 where b2: "json_records ge 0 (vlength v) (elems v) b1 = Inr b2" "sb_ready b2"
    "sb_text b2 = ''['' @ records_json rs"
    using json_records_append [OF assms(1) b1(2) _ v(2)] v(1) assms(6) b1(3) by auto
  obtain b3 where b3: "sb_append (ge_append ge 1) b2 (c_block ('']'' @ [NL])) = Inr (0, b3)" "sb_ready b3"
    "sb_text b3 = ''['' @ records_json rs @ '']'' @ [NL]"
    using put_piece [OF b2(2), of "'']'' @ [NL]" "ge_append ge 1"] mem(2) assms(6) b2(3)
    by (auto simp: NUL_def NL_def)
  have "NUL \<notin> set (records_json rs)"
  proof -
    have "NUL \<notin> set (full_json (fst q) (snd q) @ '', '')" if q: "q \<in> set rs" for q
    proof -
      obtain k where "k < length rs" "rs ! k = q"
        using q by (auto simp: in_set_conv_nth)
      then obtain f where "shows_record f q"
        using list_all2_nthD2 [OF assms(5), of k] by auto
      then have "NUL \<notin> set (full_json (fst q) (snd q))"
        by (intro full_json_no_NUL) (auto simp: shows_record_def)
      then show ?thesis by (simp add: NUL_def)
    qed
    then show ?thesis
      unfolding records_json_def case_prod_beta by (auto simp: NUL_def)
  qed
  then have "NUL \<notin> set (sb_text b3)"
    unfolding b3(3) by (simp add: NUL_def NL_def)
  then have "c_str (sb_string b3) = Inr (sb_text b3)"
    using sb_string_split [of b3] b3(2) by (auto simp: sb_ready_def)
  with b1(1) b2(1) b3(1,3) show ?thesis
    by (simp add: get_output_def TEXT_def JSON_def)
qed

lemma chain_ok:
  assumes "finds ops db pad look" "e \<in> set (chain_of look k)"
  shows "eCall_ok e"
proof -
  obtain e' where e': "look k = Some e'" "e = e'\<lparr>er_parentEcall := eCallKey_zero\<rparr>"
    using assms(2) by (cases "look k") (auto simp: chain_of_def split: if_splits)
  have "eCall_ok e'"
    using assms(1) e'(1) by (auto simp: finds_def dest!: spec [of _ k])
  then show ?thesis
    using e'(2) by (simp add: eCall_ok_def)
qed

lemma full_of_shows:
  assumes "finds ops db pad look" "full_of look r f" "oCall_ok r"
  shows "shows_record f (r, chain_of look (or_eCallKey r))"
  using assms chain_ok [OF assms(1)] by (auto simp: full_of_def shows_record_def)

lemma destroy_records_total:
  assumes "\<forall>p \<in> set ps. \<exists>f q. p = Some f \<and> shows_record f q"
  shows "destroy_records ps = Inr ()"
  using assms
proof (induction ps)
  case Nil
  then show ?case by simp
next
  case (Cons p ps)
  then obtain f q where f: "p = Some f" "shows_record f q" by auto
  have "vlength (fr_execCalls f) \<le> length (elems (fr_execCalls f))"
    using f(2) by (simp add: shows_record_def vec_wf_def)
  then have "\<exists>x. db_void_full_Record_destroy f = Inr x"
    using destroy_elems_total [of 0 "vlength (fr_execCalls f)" "elems (fr_execCalls f)"]
    by (simp add: db_void_full_Record_destroy_def Let_def)
  with Cons f(1) show ?case by auto
qed

section \<open>Suboptions and requests\<close>

text \<open>A suboption with a value, and a list of them as text.\<close>

definition subopt :: "nat \<times> string \<Rightarrow> string" where
  "subopt kv = get_opts ! fst kv @ CHR ''='' # snd kv"

fun subopts_text :: "(nat \<times> string) list \<Rightarrow> string" where
  "subopts_text [] = []"
| "subopts_text [kv] = subopt kv"
| "subopts_text (kv # kv' # kvs) = subopt kv @ CHR '','' # subopts_text (kv' # kvs)"

definition subopt_ok :: "nat \<times> string \<Rightarrow> bool" where
  "subopt_ok kv \<longleftrightarrow> fst kv < 3 \<and> CHR '','' \<notin> set (snd kv)"

lemma takeWhile_stop:
  assumes "c \<notin> set s"
  shows "takeWhile (\<lambda>x. x \<noteq> c) (s @ c # t) = s" "dropWhile (\<lambda>x. x \<noteq> c) (s @ c # t) = c # t"
    "takeWhile (\<lambda>x. x \<noteq> c) s = s" "dropWhile (\<lambda>x. x \<noteq> c) s = []"
  using assms by (induction s) auto

lemma get_opts_names:
  assumes "k < 3"
  shows "position (get_opts ! k) get_opts = int k" "CHR ''='' \<notin> set (get_opts ! k)"
    "CHR '','' \<notin> set (get_opts ! k)"
proof -
  have "k = 0 \<or> k = 1 \<or> k = 2" using assms by auto
  then show "position (get_opts ! k) get_opts = int k" "CHR ''='' \<notin> set (get_opts ! k)"
    "CHR '','' \<notin> set (get_opts ! k)"
    by (auto simp: get_opts_def)
qed

lemma getsubopt_subopt:
  assumes "subopt_ok (k, v)"
  shows "getsubopt get_opts (subopt (k, v) @ CHR '','' # t) = (int k, Some v, t)"
    "getsubopt get_opts (subopt (k, v)) = (int k, Some v, [])"
proof -
  let ?s = "get_opts ! k @ CHR ''='' # v"
  have k: "k < 3" "CHR '','' \<notin> set v"
    using assms by (simp_all add: subopt_ok_def)
  have comma: "CHR '','' \<notin> set ?s"
    using k get_opts_names(3) by simp
  note eq = takeWhile_stop(1,2) [OF get_opts_names(2) [OF k(1)], of v]
  show "getsubopt get_opts (subopt (k, v) @ CHR '','' # t) = (int k, Some v, t)"
    unfolding getsubopt_def Let_def subopt_def fst_conv snd_conv takeWhile_stop(1,2) [OF comma] eq
      get_opts_names(1) [OF k(1)] by simp
  show "getsubopt get_opts (subopt (k, v)) = (int k, Some v, [])"
    unfolding getsubopt_def Let_def subopt_def fst_conv snd_conv takeWhile_stop(3,4) [OF comma] eq
      get_opts_names(1) [OF k(1)] by simp
qed

lemma subopt_not_Nil: "subopt kv \<noteq> []"
  by (simp add: subopt_def)

lemma parse_subopts_text:
  assumes "\<forall>kv \<in> set kvs. subopt_ok kv"
  shows "parse_subopts (subopts_text kvs) a = fold (\<lambda>(k, v). set_subopt (int k) (Some v)) kvs a"
  using assms
proof (induction kvs arbitrary: a rule: subopts_text.induct)
  case 1
  then show ?case by (simp add: parse_subopts.simps)
next
  case (2 kv)
  then show ?case
    using getsubopt_subopt(2) [of "fst kv" "snd kv"] subopt_not_Nil [of kv]
    by (simp add: parse_subopts.simps [of "subopt kv"] parse_subopts.simps [of "[]"] case_prod_beta)
next
  case (3 kv kv' kvs)
  let ?t = "subopts_text (kv' # kvs)"
  have "getsubopt get_opts (subopt kv @ CHR '','' # ?t) = (int (fst kv), Some (snd kv), ?t)"
    using getsubopt_subopt(1) [of "fst kv" "snd kv" ?t] "3.prems" by simp
  then have "parse_subopts (subopts_text (kv # kv' # kvs)) a
      = parse_subopts ?t (set_subopt (int (fst kv)) (Some (snd kv)) a)"
    by (simp add: parse_subopts.simps [of "subopt kv @ CHR '','' # ?t"])
  with "3.IH" "3.prems" show ?case
    by (simp add: case_prod_beta)
qed

text \<open>The requests of a run with a connection, in order.\<close>

definition requests_of :: "arguments \<Rightarrow> string list" where
  "requests_of a =
     (if ar_start a then []
      else (if ar_status a then [''get_status$''] else [])
        @ (if ar_stop a then [''shutdown$'']
           else if ar_restart a then [''restart$'']
           else if ar_add_file a \<noteq> [] then [''add_filter$'' @ ar_add_file a] else []))"

text \<open>The daemon answers with a terminated text that fits the buffer, and requests can be sent.\<close>

definition good_peer :: "client_env \<Rightarrow> bool" where
  "good_peer env \<longleftrightarrow> (\<forall>k. cl_write env k \<and> length (cl_reply env k) \<le> 200 \<and> NUL \<in> set (cl_reply env k))"

lemma ask_ok:
  assumes "good_peer env"
  shows "\<exists>st'. ask env req st = Inr (True, st') \<and> cs_sent st' = cs_sent st @ [req]
     \<and> length (cs_printed st') = Suc (length (cs_printed st))"
  using assms by (simp add: good_peer_def ask_def Let_def c_str_def)

lemma send_ok:
  assumes "good_peer env" "length req < 300"
  shows "\<exists>st'. send_request env req st = Inr st' \<and> cs_sent st' = cs_sent st @ [req]
     \<and> length (cs_printed st') = Suc (length (cs_printed st))"
  using ask_ok [OF assms(1), of req st] assms(2) by (auto simp: send_request_def format_request_def)

lemma client_connected_ok:
  assumes "good_peer env" "length (ar_add_file a) < 289"
  shows "\<exists>st'. client_connected env a st = Inr (if ar_start a then 3 else 0, st')
     \<and> cs_sent st' = cs_sent st @ requests_of a
     \<and> length (cs_printed st') = length (cs_printed st) + length (requests_of a)"
proof (cases "ar_start a")
  case True
  then show ?thesis by (simp add: client_connected_def requests_of_def)
next
  case False
  obtain st1 where st1: "(if ar_status a then ask env ''get_status$'' st else Inr (True, st)) = Inr (True, st1)"
    "cs_sent st1 = cs_sent st @ (if ar_status a then [''get_status$''] else [])"
    "length (cs_printed st1) = length (cs_printed st) + (if ar_status a then 1 else 0)"
    using ask_ok [OF assms(1), of "''get_status$''" st] by (cases "ar_status a") auto
  have len: "length (''add_filter$'' @ ar_add_file a) < 300"
    using assms(2) by simp
  note send = send_ok [OF assms(1), of "''shutdown$''" st1] send_ok [OF assms(1), of "''restart$''" st1]
    send_ok [OF assms(1) len, of st1]
  consider "ar_stop a" | "\<not> ar_stop a" "ar_restart a" | "\<not> ar_stop a" "\<not> ar_restart a" by blast
  then show ?thesis
  proof cases
    case 1
    with False st1 send(1) show ?thesis
      unfolding client_connected_def requests_of_def by auto
  next
    case 2
    with False st1 send(2) show ?thesis
      unfolding client_connected_def requests_of_def by auto
  next
    case 3
    with False st1 send(3) show ?thesis
      unfolding client_connected_def requests_of_def by auto
  qed
qed

text \<open>A request to remove is never sent, whatever the daemon answers.\<close>

lemma ask_sent: "ask env req st = Inr (go, st') \<Longrightarrow> set (cs_sent st') \<subseteq> insert req (set (cs_sent st))"
  by (auto simp: ask_def Let_def bind_r_Inr_iff split: if_splits)

lemma send_sent: "send_request env req st = Inr st' \<Longrightarrow> set (cs_sent st') \<subseteq> insert req (set (cs_sent st))"
  by (auto simp: send_request_def format_request_def bind_r_Inr_iff split: if_splits dest!: ask_sent)

lemma client_connected_sent:
  assumes "client_connected env a st = Inr (ret, st')"
  shows "set (cs_sent st') \<subseteq> set (cs_sent st)
     \<union> {''get_status$'', ''shutdown$'', ''restart$'', ''add_filter$'' @ ar_add_file a}"
  using assms unfolding client_connected_def
  by (auto simp: bind_r_Inr_iff split: if_splits dest!: ask_sent send_sent) (blast+)?

section \<open>Properties\<close>


definition demo_args :: arguments where
  "demo_args = \<lparr>ar_start = False, ar_stop = False, ar_status = False, ar_abort = False, ar_restart = False,
     ar_get = True, ar_format = JSON, ar_eCallMode = 0, ar_no_associated = False, ar_add_file = [],
     ar_remove_file = [], ar_arg1 = Some ''a''\<rparr>"

definition demo_get :: "list_db get_env" where
  "demo_get = \<lparr>ge_sb = roomy, ge_stack = sb_null, ge_vector = roomy, ge_vector_stack = demo_list,
     ge_ops = list_store, ge_db = demo_db, ge_retrieve = (\<lambda>_. demo_retrieve), ge_append = (\<lambda>_. roomy),
     ge_json = (\<lambda>_ _. roomy), ge_loop = (\<lambda>_ _ _. roomy), ge_open = (\<lambda>_ _. roomy)\<rparr>"

lemma demo_get_good: "good_get demo_get"
  using demo_retrieve_good by (simp add: demo_get_def good_get_def)

lemma demo_get_chain: "length (records_json (map (\<lambda>r. (r, chain_of demo_look (or_eCallKey r))) [demo_open_record]))
    < 2 ^ 31"
proof -
  have "chain_of demo_look (or_eCallKey demo_open_record) = [] \<or>
      chain_of demo_look (or_eCallKey demo_open_record) = [demo_exec_record\<lparr>er_parentEcall := eCallKey_zero\<rparr>]"
    by (auto simp: chain_of_def demo_look_def)
  then show ?thesis
    using demo_json_length
    by (auto simp: records_json_def full_json_def exec_json_def exec_numbers_def)
qed


theorem subopts_roundtrip:
  assumes "\<forall>kv \<in> set kvs. subopt_ok kv"
  shows "parse_opt realpath (Key CHR ''g'') (Some (subopts_text kvs)) a
    = (True, False, (fold (\<lambda>(k, v). set_subopt (int k) (Some v)) kvs (a\<lparr>ar_get := True\<rparr>))\<lparr>ar_restart := True\<rparr>)"
  using parse_subopts_text [OF assms] by (simp add: parse_opt_def)

theorem subopts_roundtrip_witness:
  "parse_opt id (Key CHR ''g'') (Some ''ex=name,format=json'') (demo_args\<lparr>ar_format := TEXT\<rparr>)
    = (True, False, demo_args\<lparr>ar_eCallMode := 2, ar_restart := True\<rparr>)"
  using subopts_roundtrip [of "[(1, ''name''), (0, ''json'')]" id "demo_args\<lparr>ar_format := TEXT\<rparr>"]
  by (simp add: subopt_ok_def subopt_def get_opts_def set_subopt_def same_start_def demo_args_def)

text \<open>Memory, a socket and a connection are there, and nothing stops the program before it uses them.\<close>

definition connected :: "client_env \<Rightarrow> bool" where
  "connected env \<longleftrightarrow> (\<forall>k < 3. can_alloc (cl_alloc env k) 4097) \<and> cl_socket env \<and> cl_connect env"

definition plain_run :: "arguments \<Rightarrow> bool" where
  "plain_run a \<longleftrightarrow> \<not> ar_abort a \<and> \<not> (ar_start a \<and> ar_stop a) \<and> \<not> (ar_stop a \<and> ar_restart a) \<and> \<not> ar_get a"

lemma watchdog_ctrl_connected:
  assumes "connected env" "plain_run (parse_keys realpath keys (no_options stack))"
  shows "watchdog_ctrl realpath env ge keys stack
     = bind_r (client_connected env (or_status (parse_keys realpath keys (no_options stack)))
         \<lparr>cs_sent = [], cs_printed = [], cs_buf = cl_buf env\<rparr>) (\<lambda>(ret, st). Inr (exit_code ret, None, st))"
  using assms by (auto simp: connected_def plain_run_def watchdog_ctrl_def Let_def)

theorem ctl_sends_requests:
  assumes "connected env" "good_peer env" "plain_run (parse_keys realpath keys (no_options stack))"
    "length (ar_add_file (parse_keys realpath keys (no_options stack))) < 289"
  shows "\<exists>st'. watchdog_ctrl realpath env ge keys stack
       = Inr (if ar_start (parse_keys realpath keys (no_options stack)) then 1 else 0, None, st')
     \<and> cs_sent st' = requests_of (or_status (parse_keys realpath keys (no_options stack)))
     \<and> length (cs_printed st') = length (cs_sent st')"
proof -
  let ?a = "or_status (parse_keys realpath keys (no_options stack))"
  have a: "length (ar_add_file ?a) < 289"
    "ar_start ?a = ar_start (parse_keys realpath keys (no_options stack))"
    using assms(4) by (simp_all add: or_status_def)
  from client_connected_ok [OF assms(2) a(1), of "\<lparr>cs_sent = [], cs_printed = [], cs_buf = cl_buf env\<rparr>"]
  show ?thesis
    using a(2) by (auto simp: watchdog_ctrl_connected [OF assms(1,3)] exit_code_def)
qed

definition demo_peer :: client_env where
  "demo_peer = \<lparr>cl_alloc = (\<lambda>_. roomy), cl_socket = True, cl_connect = True, cl_fork = 1,
     cl_write = (\<lambda>_. True), cl_reply = (\<lambda>_. c_block ''ok''), cl_buf = replicate 200 TAB\<rparr>"

lemma demo_peer_good: "connected demo_peer" "good_peer demo_peer"
  by (simp_all add: demo_peer_def connected_def good_peer_def c_block_def)

theorem ctl_sends_requests_witness:
  "\<exists>st'. watchdog_ctrl id demo_peer demo_get [(Key CHR ''u'', None), (Key CHR ''q'', None)] demo_args
       = Inr (0, None, st') \<and> cs_sent st' = [''get_status$'', ''shutdown$'']
     \<and> length (cs_printed st') = length (cs_sent st')"
  using ctl_sends_requests [OF demo_peer_good, of id "[(Key CHR ''u'', None), (Key CHR ''q'', None)]"
      demo_args demo_get]
  by (simp add: parse_opt_def no_options_def demo_args_def plain_run_def or_status_def requests_of_def)

theorem ctl_never_removes:
  assumes "watchdog_ctrl realpath env ge keys stack = Inr (ret, out, st)"
  shows "\<forall>req \<in> set (cs_sent st). take 7 req \<noteq> ''remove_''"
proof -
  have "set (cs_sent st) \<subseteq> {''get_status$'', ''shutdown$'', ''restart$''} \<union> range (\<lambda>f. ''add_filter$'' @ f)"
    using assms unfolding watchdog_ctrl_def Let_def
    by (auto simp: bind_r_Inr_iff split: if_splits dest!: client_connected_sent)
  then show ?thesis by fastforce
qed

theorem ctl_never_removes_witness:
  "\<exists>st. watchdog_ctrl id demo_peer demo_get [(Key CHR ''d'', Some ''/tmp'')] demo_args = Inr (0, None, st)
     \<and> cs_sent st = [] \<and> (\<forall>req \<in> set (cs_sent st). take 7 req \<noteq> ''remove_'')"
proof -
  have p: "plain_run (parse_keys id [(Key CHR ''d'', Some ''/tmp'')] (no_options demo_args))"
    by (simp add: parse_opt_def no_options_def demo_args_def plain_run_def)
  have "client_connected demo_peer (or_status (parse_keys id [(Key CHR ''d'', Some ''/tmp'')] (no_options demo_args)))
      st = Inr (0, st)" for st
    by (simp add: parse_opt_def no_options_def demo_args_def or_status_def client_connected_def)
  then have "watchdog_ctrl id demo_peer demo_get [(Key CHR ''d'', Some ''/tmp'')] demo_args
      = Inr (0, None, \<lparr>cs_sent = [], cs_printed = [], cs_buf = cl_buf demo_peer\<rparr>)"
    by (simp add: watchdog_ctrl_connected [OF demo_peer_good(1) p] exit_code_def)
  from ctl_never_removes [OF this] this show ?thesis by auto
qed

theorem ctl_add_reaches_filter:
  assumes "connected env" "good_peer env" "path = realpath file" "path \<noteq> []" "length path \<le> 211"
    "CHR ''$'' \<notin> set path" "NUL \<notin> set path"
    and "length (sv_status_msg (ct_surv ct)) < 256" "int32_ok (ce_kill cenv)"
  shows "\<exists>st req answer buf. watchdog_ctrl realpath env ge [(Key CHR ''a'', Some file)] stack = Inr (0, None, st)
     \<and> cs_sent st = [req] \<and> surv_handleRequest cenv ct (c_block req @ rest)
        = Inr (answer, ct\<lparr>ct_filter := snd (ce_insert cenv (ct_filter ct) (path @ [NUL]))\<rparr>, buf)"
proof -
  let ?keys = "[(Key CHR ''a'', Some file)]" and ?req = "''add_filter'' @ CHR ''$'' # path"
  let ?a = "or_status (parse_keys realpath ?keys (no_options stack))"
  have a: "plain_run (parse_keys realpath ?keys (no_options stack))" "length (ar_add_file ?a) < 289"
    "\<not> ar_start ?a" "requests_of ?a = [?req]"
    using assms(3-5)
    by (simp_all add: parse_opt_def no_options_def plain_run_def or_status_def requests_of_def)
  obtain st where st: "client_connected env ?a \<lparr>cs_sent = [], cs_printed = [], cs_buf = cl_buf env\<rparr>
      = Inr (0, st)" "cs_sent st = [?req]"
    using client_connected_ok [OF assms(2) a(2), of "\<lparr>cs_sent = [], cs_printed = [], cs_buf = cl_buf env\<rparr>"]
      a(3,4) by auto
  have "c_str (c_block ?req) = Inr ?req"
    using assms(7) by (intro c_str_block) (simp add: NUL_def)
  then have buf: "c_str (c_block ?req @ rest) = Inr ?req"
    by (rule c_str_more)
  have words: "request_words ?req = (Some ''add_filter'', Some path)"
    using assms(4,6) by (intro request_words_two) (auto simp: no_dollar_def dollar_def)
  have ok: "request_ok ?req"
    using assms(5) by (auto simp: request_ok_def dollar_def)
  obtain answer b where h: "surv_handleRequest cenv ct (c_block ?req @ rest)
      = Inr (answer, after_request cenv (request_words ?req) ct, b)"
    using handleRequest_total [OF buf ok assms(8,9)] by blast
  have "after_request cenv (request_words ?req) ct
      = ct\<lparr>ct_filter := snd (ce_insert cenv (ct_filter ct) (path @ [NUL]))\<rparr>"
    unfolding words by (simp add: after_request_def wants_end_def)
  with h st show ?thesis
    by (auto simp: watchdog_ctrl_connected [OF assms(1) a(1)] exit_code_def)
qed

theorem ctl_add_reaches_filter_witness:
  "\<exists>st req answer buf. watchdog_ctrl (\<lambda>f. ''/tmp/'' @ f) demo_peer demo_get [(Key CHR ''a'', Some ''x'')] demo_args
        = Inr (0, None, st)
     \<and> cs_sent st = [req] \<and> surv_handleRequest demo_control_env demo_control (c_block req @ ''junk'')
        = Inr (answer, demo_control\<lparr>ct_filter
             := snd (ce_insert demo_control_env (ct_filter demo_control) (''/tmp/x'' @ [NUL]))\<rparr>, buf)"
  by (rule ctl_add_reaches_filter [OF demo_peer_good])
     (simp_all add: NUL_def demo_control_def demo_surv_def demo_control_env_def int32_ok_def)

end
