(* ===== verification/Stopping.thy ===== *)
theory Stopping
  imports ControlProgram Exit
begin

text \<open>
  From the command line to the exit of the daemon: a request of \<open>ControlProgram\<close> is answered by
  \<open>surv_handleRequest\<close> of \<open>Control\<close>, which is a step of the control thread in \<open>Daemon\<close>, and \<open>Exit\<close> says
  what follows.
\<close>

section \<open>A request is a step of the control thread\<close>

definition asked_for :: "string option \<Rightarrow> client_request" where
  "asked_for w = (if w = Some ''shutdown'' then AskShutdown else if w = Some ''restart'' then AskRestart else AskOther)"

text \<open>The flags of the daemon are those of the relation, and a signal that was sent is pending or taken.\<close>

definition controls :: "daemon \<Rightarrow> 'f control \<Rightarrow> bool" where
  "controls s ct \<longleftrightarrow> sv_shutting_down (ct_surv ct) = dn_shutting s \<and> sv_restart (ct_surv ct) = dn_restart s
     \<and> (0 < ct_signals ct \<longrightarrow> signalled s)"

lemma request_controls:
  assumes "controls s ct" "ce_kill cenv = 0" "dn_control s = CSelect" "dn_client s = Some (asked_for (fst w))"
  shows "\<exists>t. control_step s t \<and> controls t (after_request cenv w ct) \<and> dn_control t = CCheck
     \<and> t = (answer_client (asked_for (fst w)) s)\<lparr>dn_control := CCheck\<rparr>
     \<and> (dn_signal t \<longleftrightarrow> dn_signal s \<or> ct_signals (after_request cenv w ct) \<noteq> ct_signals ct)"
  using control_step.client [OF assms(3,4)] assms(1,2)
  by (auto simp: controls_def after_request_def answer_client_def asked_for_def wants_end_def signalled_def Let_def)

section \<open>Properties\<close>

text \<open>
  C11: A request that is answered is a step of the control thread in the relation between the
  threads: the flags agree before and after, and the thread for the shutdown gets its signal
  exactly if the request sends one.
\<close>

theorem request_is_control_step:
  assumes "c_str buf = Inr r" "request_ok r" "length (sv_status_msg (ct_surv ct)) < 256" "ce_kill cenv = 0"
    and "controls s ct" "dn_control s = CSelect" "dn_client s = Some (asked_for (fst (request_words r)))"
  shows "\<exists>answer ct' buf' t. surv_handleRequest cenv ct buf = Inr (answer, ct', buf') \<and> control_step s t \<and> controls t ct'
     \<and> (dn_signal t \<longleftrightarrow> dn_signal s \<or> ct_signals ct' \<noteq> ct_signals ct)"
proof -
  have "int32_ok (ce_kill cenv)" using assms(4) by (simp add: int32_ok_def)
  from handleRequest_total [OF assms(1-3) this] request_controls [OF assms(5,4,6,7)] show ?thesis by blast
qed

definition at_select :: "client_request \<Rightarrow> daemon" where
  "at_select q = daemon_start\<lparr>dn_control := CSelect, dn_client := Some q\<rparr>"

lemma demo_controls: "controls (at_select q) demo_control"
  by (simp add: controls_def at_select_def daemon_start_def demo_control_def demo_surv_def)

lemma shutdown_words: "request_words ''shutdown$'' = (Some ''shutdown'', None)"
  "request_words ''restart$'' = (Some ''restart'', None)"
  using request_words_one [of "''shutdown''"] request_words_one [of "''restart''"]
  by (simp_all add: no_dollar_def dollar_def)

lemma end_request_ok: "request_ok ''shutdown$''" "request_ok ''restart$''"
  by (simp_all add: request_ok_def dollar_def)

lemma end_request_str: "c_str (c_block ''shutdown$'' @ rest) = Inr ''shutdown$''"
  "c_str (c_block ''restart$'' @ rest) = Inr ''restart$''"
  by (intro c_str_more c_str_block; simp add: NUL_def)+

theorem request_is_control_step_witness:
  "\<exists>answer ct' buf' t. surv_handleRequest demo_control_env demo_control (c_block ''shutdown$'') = Inr (answer, ct', buf')
     \<and> control_step (at_select AskShutdown) t \<and> controls t ct'
     \<and> (dn_signal t \<longleftrightarrow> dn_signal (at_select AskShutdown) \<or> ct_signals ct' \<noteq> ct_signals demo_control)"
  by (rule request_is_control_step [OF _ end_request_ok(1) _ _ demo_controls])
     (use end_request_str(1) [of "[]"] in
       \<open>simp_all add: shutdown_words asked_for_def at_select_def demo_control_def demo_control_env_def demo_surv_def\<close>)

text \<open>
  C15: From the command line to the exit. The control program that is run to stop or to restart
  the daemon sends one request. The daemon that receives it, and was not shutting down before,
  sends the signal; and from then on it exits in every fair run in which its tracers end,
  whatever other clients ask for, and is started again if that was the option.
\<close>

theorem ctl_stop_exits:
  assumes "connected env" "good_peer env" "c = CHR ''q'' \<or> c = CHR ''r''"
    and "length (sv_status_msg (ct_surv ct)) < 256" "ce_kill cenv = 0"
    and "daemon_reach s" "controls s ct" "\<not> dn_shutting s" "dn_control s = CSelect"
    and "dn_client s = Some (if c = CHR ''r'' then AskRestart else AskShutdown)"
  shows "\<exists>st req answer ct' buf t.
       watchdog_ctrl realpath env ge [(Key c, None)] stack = Inr (0, None, st) \<and> cs_sent st = [req]
     \<and> surv_handleRequest cenv ct (c_block req @ rest) = Inr (answer, ct', buf)
     \<and> control_step s t \<and> controls t ct' \<and> ct_signals ct' = ct_signals ct + 1
     \<and> (\<forall>r k. fair_run r \<and> r 0 = t \<and> (\<forall>w. dn_feed (r k) w = Hungup)
          \<longrightarrow> (\<exists>m \<ge> k. \<exists>x. dn_main (r m) = MExit x \<and> (c = CHR ''r'' \<longrightarrow> x)))"
proof -
  let ?req = "if c = CHR ''r'' then ''restart$'' else ''shutdown$''"
  let ?a = "or_status (parse_keys realpath [(Key c, None)] (no_options stack))"
  let ?st = "\<lparr>cs_sent = [], cs_printed = [], cs_buf = cl_buf env\<rparr>"
  have a: "plain_run (parse_keys realpath [(Key c, None)] (no_options stack))" "length (ar_add_file ?a) < 289"
    "\<not> ar_start ?a" "requests_of ?a = [?req]"
    using assms(3) by (auto simp: parse_opt_def no_options_def plain_run_def or_status_def requests_of_def)
  obtain st where "client_connected env ?a ?st = Inr (0, st)" "cs_sent st = [?req]"
    using client_connected_ok [OF assms(2) a(2), of ?st] a(3,4) by auto
  then have sent: "watchdog_ctrl realpath env ge [(Key c, None)] stack = Inr (0, None, st)" "cs_sent st = [?req]"
    by (simp_all add: watchdog_ctrl_connected [OF assms(1) a(1)] exit_code_def)
  let ?ct = "after_request cenv (request_words ?req) ct"
  have "int32_ok (ce_kill cenv)" using assms(5) by (simp add: int32_ok_def)
  moreover have "request_ok ?req" "c_str (c_block ?req @ rest) = Inr ?req"
    using end_request_ok end_request_str by simp_all
  ultimately obtain answer buf where h: "surv_handleRequest cenv ct (c_block ?req @ rest) = Inr (answer, ?ct, buf)"
    using handleRequest_total assms(4) by blast
  have q: "asked_for (fst (request_words ?req)) = (if c = CHR ''r'' then AskRestart else AskShutdown)"
    by (simp add: shutdown_words asked_for_def)
  obtain t where t: "control_step s t" "controls t ?ct"
      "t = (answer_client (if c = CHR ''r'' then AskRestart else AskShutdown) s)\<lparr>dn_control := CCheck\<rparr>"
    using request_controls [OF assms(7,5,9), of "request_words ?req"] assms(10) unfolding q by blast
  have inv: "daemon_inv s" "daemon_inv t"
    using reach_inv [OF assms(6)] thread_keeps_inv [OF thread_step.control [OF t(1)]] by simp_all
  then have loop: "dn_main s = MLoop"
    using assms(8) by (auto simp: daemon_inv_def end_inv_def)
  have sig: "signalled t" "c = CHR ''r'' \<Longrightarrow> restarts t"
    using assms(8) loop by (simp_all add: t(3) signalled_def restarts_def answer_client_def)
  have "ct_signals ?ct = ct_signals ct + 1"
    using assms(3,5,7,8) by (auto simp: controls_def after_request_def wants_end_def shutdown_words)
  moreover have "\<exists>m \<ge> k. \<exists>x. dn_main (r m) = MExit x \<and> (c = CHR ''r'' \<longrightarrow> x)"
    if "fair_run r" "r 0 = t" "\<forall>w. dn_feed (r k) w = Hungup" for r k
    using signalled_exits [OF that(1), of 0 k] that(2,3) inv(2) sig by auto
  ultimately show ?thesis
    using sent h t(1,2) by blast
qed

lemma at_select_reach: "daemon_reach (at_select q)"
proof -
  let ?a = "daemon_start\<lparr>dn_control := CCheck\<rparr>"
  let ?b = "?a\<lparr>dn_control := CSelect\<rparr>"
  have "daemon_reach ?a"
    by (intro daemon_reach.thread [OF daemon_reach.start] thread_step.control control_step.listening)
       (simp add: daemon_start_def)
  then have "daemon_reach ?b"
    by (rule daemon_reach.thread) (intro thread_step.control control_step.go_on; simp add: daemon_start_def)
  then have "daemon_reach (?b\<lparr>dn_client := Some q\<rparr>)"
    by (rule daemon_reach.world [OF _ world_step.asks])
  then show ?thesis by (simp add: at_select_def)
qed

theorem ctl_stop_exits_witness:
  "\<exists>st req answer ct' buf t.
       watchdog_ctrl id demo_peer demo_get [(Key CHR ''r'', None)] demo_args = Inr (0, None, st) \<and> cs_sent st = [req]
     \<and> surv_handleRequest demo_control_env demo_control (c_block req @ ''junk'') = Inr (answer, ct', buf)
     \<and> control_step (at_select AskRestart) t \<and> controls t ct' \<and> ct_signals ct' = 1"
proof -
  have "\<exists>st req answer ct' buf t.
       watchdog_ctrl id demo_peer demo_get [(Key CHR ''r'', None)] demo_args = Inr (0, None, st) \<and> cs_sent st = [req]
     \<and> surv_handleRequest demo_control_env demo_control (c_block req @ ''junk'') = Inr (answer, ct', buf)
     \<and> control_step (at_select AskRestart) t \<and> controls t ct' \<and> ct_signals ct' = ct_signals demo_control + 1
     \<and> (\<forall>r k. fair_run r \<and> r 0 = t \<and> (\<forall>w. dn_feed (r k) w = Hungup)
          \<longrightarrow> (\<exists>m \<ge> k. \<exists>x. dn_main (r m) = MExit x \<and> (CHR ''r'' = CHR ''r'' \<longrightarrow> x)))"
    by (rule ctl_stop_exits [OF demo_peer_good _ _ _ at_select_reach demo_controls])
       (simp_all add: demo_control_def demo_surv_def demo_control_env_def at_select_def daemon_start_def)
  then show ?thesis by (simp add: demo_control_def) blast
qed

end
