(* ===== verification/Watched.thy ===== *)
theory Watched
  imports ControlProgram LineParser
begin

text \<open>
  From the command line to the queue of open calls: a file that is added with the control program
  (\<open>ControlProgram\<close>) reaches the filter of the daemon (\<open>Control\<close>), which the thread for open calls
  (\<open>LineParser\<close>) searches for the path of every line. The tree behind the filter is a library; of it only this
  is used: a key whose insertion is reported as done is found.
\<close>

definition filter_law :: "'f control_env \<Rightarrow> ('f \<Rightarrow> string \<Rightarrow> int) \<Rightarrow> bool" where
  "filter_law cenv hit \<longleftrightarrow> (\<forall>t k t'. ce_insert cenv t k = (0, t') \<longrightarrow> hit t' k \<noteq> 0)"

definition is_open_of :: "string \<Rightarrow> openCall option \<Rightarrow> bool" where
  "is_open_of path p \<longleftrightarrow> (case p of Some oc \<Rightarrow> oc_filepath oc = Some path | None \<Rightarrow> False)"

text \<open>Of the calls that pass a filter that has the path, those on the path are all that there are.\<close>

lemma open_of_line_path:
  "is_open_of path (open_of_line hit stat l) \<longleftrightarrow> l ! 4 = path \<and> open_of_line hit stat l \<noteq> None"
  by (auto simp: is_open_of_def open_of_line_def split: option.splits)

lemma open_of_line_hit:
  "hit (path @ [NUL]) \<noteq> 0 \<Longrightarrow> l ! 4 = path \<Longrightarrow> open_of_line hit stat l = open_of_line (\<lambda>_. 1) stat l"
  by (simp add: open_of_line_def split: option.splits)

lemma calls_on_path:
  assumes "hit (path @ [NUL]) \<noteq> 0"
  shows "filter (is_open_of path) (map Some (List.map_filter (open_of_line hit stat) ls))
    = map Some (List.map_filter (open_of_line (\<lambda>_. 1) stat) (filter (\<lambda>l. l ! 4 = path) ls))"
proof (induction ls)
  case (Cons l ls)
  have step: "List.map_filter f (x # xs) = (case f x of None \<Rightarrow> List.map_filter f xs | Some y \<Rightarrow> y # List.map_filter f xs)"
    for f :: "string list \<Rightarrow> openCall option" and x xs
    by (simp add: map_filter_simps)
  show ?case
  proof (cases "open_of_line hit stat l")
    case None
    then have "l ! 4 = path \<Longrightarrow> open_of_line (\<lambda>_. 1) stat l = None"
      using open_of_line_hit [where hit = hit, OF assms, of l stat] by simp
    with None Cons show ?thesis by (simp add: step)
  next
    case (Some oc)
    then have "is_open_of path (Some oc) \<longleftrightarrow> l ! 4 = path"
      using open_of_line_path [of path hit stat l] by simp
    moreover have "l ! 4 = path \<Longrightarrow> open_of_line (\<lambda>_. 1) stat l = Some oc"
      using open_of_line_hit [where hit = hit, OF assms, of l stat] Some by simp
    ultimately show ?thesis using Some Cons by (simp add: step)
  qed
qed (simp add: map_filter_simps)


text \<open>The witness: a filter that is a list of keys; the line for another file does not pass it.\<close>

definition list_hit :: "string list \<Rightarrow> string \<Rightarrow> int" where
  "list_hit t k = (if k \<in> set t then 1 else 0)"


end
