(* ===== verification/Log.thy ===== *)
theory Log
  imports Bytes
begin

text \<open>
  The log of the daemon and the version of the program: \<open>src/src/watchdog/src/definitions.c\<close>. A log
  file is the text that was written to it. The clock and the text that \<open>strftime\<close> makes of the local time are
  parameters; of \<open>vfprintf\<close> the conversions are modelled that the messages of the daemon use, \<open>%i\<close> and
  \<open>%s\<close>.
\<close>

definition getVersion :: string where
  "getVersion = ''0.0.1-dev''"

datatype log_arg = Number int | Text "string option"

text \<open>
  The text of a message. A conversion without an argument of its kind reads what is not there, and one that no
  message uses is a fault as well.
\<close>

fun vfprintf :: "string \<Rightarrow> log_arg list \<Rightarrow> string res" where
  "vfprintf [] args = Inr []"
| "vfprintf [c] args = (if c = CHR ''%'' then Inl OutOfBounds else Inr [c])"
| "vfprintf (c # d # fmt) args =
     (if c \<noteq> CHR ''%'' then bind_r (vfprintf (d # fmt) args) (\<lambda>s. Inr (c # s))
      else if d = CHR ''i'' then
        (case args of Number n # args \<Rightarrow> bind_r (vfprintf fmt args) (\<lambda>s. Inr (show_int n @ s))
         | _ \<Rightarrow> Inl OutOfBounds)
      else if d = CHR ''s'' then
        (case args of Text p # args \<Rightarrow> bind_r (deref p) (\<lambda>t. bind_r (vfprintf fmt args) (\<lambda>s. Inr (t @ s)))
         | _ \<Rightarrow> Inl OutOfBounds)
      else Inl OutOfBounds)"

text \<open>The time of a call, and the 128 bytes of \<open>timestr\<close> after \<open>strftime\<close>.\<close>

record log_env =
  lg_time :: timeval
  lg_timestr :: "char list"

definition log_print :: "log_env \<Rightarrow> string \<Rightarrow> string \<Rightarrow> log_arg list \<Rightarrow> string res" where
  "log_print env log fmt args =
     bind_r (c_str (lg_timestr env)) (\<lambda>t.
       let log = log @ ''>>>'' @ t @ ''.'' @ show_int (tv_usec (lg_time env)) @ '': '' in
       bind_r (vfprintf fmt args) (\<lambda>s. Inr (log @ s @ ''<<<'' @ [NL])))"

section \<open>What a log holds\<close>

lemma vfprintf_plain: "CHR ''%'' \<notin> set s \<Longrightarrow> vfprintf (s @ fmt) args = bind_r (vfprintf fmt args) (\<lambda>t. Inr (s @ t))"
proof (induction s)
  case Nil
  then show ?case by (cases "vfprintf fmt args") simp_all
next
  case (Cons c s)
  then show ?case
    by (cases "s @ fmt") (cases "vfprintf fmt args"; auto)+
qed

lemma vfprintf_number: "vfprintf (''%i'' @ fmt) (Number n # args) = bind_r (vfprintf fmt args) (\<lambda>t. Inr (show_int n @ t))"
  by simp

lemma vfprintf_text: "vfprintf (''%s'' @ fmt) (Text (Some s) # args) = bind_r (vfprintf fmt args) (\<lambda>t. Inr (s @ t))"
  by simp

definition entry :: "log_env \<Rightarrow> string \<Rightarrow> string" where
  "entry env s = ''>>>'' @ takeWhile (\<lambda>c. c \<noteq> NUL) (lg_timestr env) @ ''.'' @ show_int (tv_usec (lg_time env)) @ '': '' @ s @ ''<<<'' @ [NL]"

text \<open>The log only grows, by an entry for each call.\<close>

lemma log_print_appends:
  assumes "NUL \<in> set (lg_timestr env)" "vfprintf fmt args = Inr s"
  shows "log_print env log fmt args = Inr (log @ entry env s)"
  using assms by (simp add: log_print_def entry_def c_str_def)

text \<open>The message at the end of a parser thread, with its return code.\<close>

lemma log_thread_end:
  assumes "NUL \<in> set (lg_timestr env)"
  shows "log_print env log (''Shutting down parse thread'' @ [NL] @ ''Return Value: %i'' @ [NL]) [Number ret]
    = Inr (log @ entry env (''Shutting down parse thread'' @ [NL] @ ''Return Value: '' @ show_int ret @ [NL]))"
proof -
  let ?a = "''Shutting down parse thread'' @ [NL] @ ''Return Value: ''"
  have "vfprintf (?a @ ''%i'' @ [NL]) [Number ret] = Inr (?a @ show_int ret @ [NL])"
    by (subst vfprintf_plain) (simp_all add: NL_def)
  then show ?thesis
    using log_print_appends [OF assms] by simp
qed

text \<open>A format that asks for more than it is given.\<close>

lemma log_print_missing: "NUL \<in> set (lg_timestr env) \<Longrightarrow> log_print env log ''%i'' [] = Inl OutOfBounds"
  by (simp add: log_print_def c_str_def)

end
