(* ===== verification/Program.thy ===== *)
theory Program
  imports Control Drain
begin

text \<open>
  The daemon as a program: \<open>main\<close> of \<open>src/src/watchdog/src/watchdog.c\<close> from its start to its exit, lines
  1220-1435, around the loop of \<open>MainLoop\<close>; with what is left of the records (printing, and the
  destructor that frees the pointer too) and of the open call filter, lines 125-259.

  The radix tree of the filter is a library; its functions are parameters.
\<close>

section \<open>Printing\<close>

text \<open>
  The text on the standard output. A null pointer for a string is a fault: \<open>printf\<close> is not defined
  for it.
\<close>

definition openCall_print :: "openCall \<Rightarrow> string res" where
  "openCall_print this =
     bind_r (deref (oc_cmdName this)) (\<lambda>cmd. bind_r (deref (oc_filepath this)) (\<lambda>path.
       Inr (''Command: '' @ cmd @ '' with PID: '' @ show_int (oc_pid this) @ '' opened'' @ [NL]
         @ '' '' @ path @ '' '' @ [NL] @ '' inode:'' @ show_nat (oc_inode this) @ '' '' @ [NL]
         @ '' ts: '' @ show_int (tv_sec (oc_time_stamp this)) @ ''s.''
         @ show_int (tv_usec (oc_time_stamp this)) @ [NL])))"

text \<open>The loop over the open calls: \<open>n\<close> of them from \<open>i\<close> on.\<close>

fun print_calls :: "openCall option list \<Rightarrow> nat \<Rightarrow> nat \<Rightarrow> string res" where
  "print_calls buf i 0 = Inr []"
| "print_calls buf i (Suc n) =
     bind_r (slot buf (int i)) (\<lambda>p. bind_r (deref p) (\<lambda>oc. bind_r (openCall_print oc) (\<lambda>s.
       bind_r (print_calls buf (i + 1) n) (\<lambda>t. Inr (s @ t)))))"

definition exec_lines :: "execCall \<Rightarrow> string \<Rightarrow> string \<Rightarrow> string" where
  "exec_lines this cmd args =
     cmd @ ''-> pid: '' @ show_int (ec_pid this) @ '' ppid: '' @ show_int (ec_ppid this)
     @ '' time: '' @ show_int (tv_sec (ec_time_stamp this)) @ ''.''
     @ show_int (tv_usec (ec_time_stamp this)) @ [NL] @ '' args: '' @ args @ [NL]
     @ '' tracked: '' @ show_int (ec_tracked this) @ [NL]
     @ '' openCalls: '' @ show_int (ec_call_num this) @ [NL]"

definition execCall_print :: "execCall \<Rightarrow> string res" where
  "execCall_print this =
     bind_r (deref (ec_cmdName this)) (\<lambda>cmd. bind_r (deref (ec_args this)) (\<lambda>args.
       bind_r (print_calls (ec_callBuff this) 0 (nat (ec_call_num this))) (\<lambda>calls.
         Inr (exec_lines this cmd args @ calls))))"

text \<open>As \<open>execCall_destroy\<close>, but the record is freed too: the local pointer is null afterwards.\<close>

definition execCallPtr_destroy :: "execCall option \<Rightarrow> (openCall list \<times> execCall option) res" where
  "execCallPtr_destroy this =
     bind_r (deref this) (\<lambda>e.
       bind_r (destroy_calls 0 (nat (ec_call_num e)) (ec_callBuff e)) (\<lambda>(ocs, _). Inr (ocs, None)))"

section \<open>The filter\<close>

definition openCall_filter__init :: "('f \<Rightarrow> int \<times> 'f) \<Rightarrow> 'f \<Rightarrow> int \<times> 'f" where
  "openCall_filter__init art_tree_init filter_trie = art_tree_init filter_trie"

definition openCall_filter__destroy :: "('f \<Rightarrow> 'f) \<Rightarrow> 'f \<Rightarrow> 'f" where
  "openCall_filter__destroy art_tree_destroy filter_trie = art_tree_destroy filter_trie"

section \<open>From the start to the exit\<close>

datatype exit_way = EXIT_SUCCESS | EXIT_FAILURE | Exec_argv

text \<open>
  Up to the loop. The two pointers to calls are not initialised: \<open>te\<close> and \<open>toc\<close> are what the stack holds.
  One path is always added to the filter; the code of that is not looked at.
\<close>

definition main_prepare ::
  "init_env \<Rightarrow> 'f control_env \<Rightarrow> int \<Rightarrow> surveiller \<Rightarrow> 'f \<Rightarrow> 'd \<Rightarrow> execCall option \<Rightarrow> openCall option
   \<Rightarrow> (exit_way + 'd main_state \<times> 'f) res" where
  "main_prepare env cenv ownPID surv tree db te toc =
     (if get_max_PID (ie_pid_max env) = -1 then Inr (Inl EXIT_FAILURE)
      else bind_r (surv_init env ownPID surv) (\<lambda>(ret, surv).
        if ret \<noteq> 0 then Inr (Inl EXIT_FAILURE)
        else case openCall_filter__add cenv tree ''/home/userofdoom/Berufspraktikum/test'' of (_, tree) \<Rightarrow>
          Inr (Inr (\<lparr>m_surv = surv, m_db = db, m_tempEcall = te, m_tempOcall = toc, m_compMode = False,
            m_ready_calls = False, m_counter = 1, m_done = 0\<rparr>, tree))))"

text \<open>After the threads were joined. If \<open>execvp\<close> returns, the program exits.\<close>

definition main_leave :: "bool \<Rightarrow> surveiller \<Rightarrow> exit_way res" where
  "main_leave exec_ok surv =
     (let restart = sv_restart surv in
      bind_r (surv_destroy surv) (\<lambda>_. Inr (if restart \<and> exec_ok then Exec_argv else EXIT_SUCCESS)))"

text \<open>The program, with \<open>n\<close> rounds of its loop; \<open>world\<close> is what the other threads do before each.\<close>

definition watchdog_main ::
  "init_env \<Rightarrow> 'f control_env \<Rightarrow> 'd main_env \<Rightarrow> (nat \<Rightarrow> surveiller \<Rightarrow> surveiller) \<Rightarrow> bool \<Rightarrow> nat \<Rightarrow> int
   \<Rightarrow> surveiller \<Rightarrow> 'f \<Rightarrow> 'd \<Rightarrow> execCall option \<Rightarrow> openCall option \<Rightarrow> (exit_way \<times> 'd) option res" where
  "watchdog_main ienv cenv env world exec_ok n ownPID surv tree db te toc =
     bind_r (main_prepare ienv cenv ownPID surv tree db te toc) (\<lambda>p. case p of
       Inl way \<Rightarrow> Inr (Some (way, db))
     | Inr (st, _) \<Rightarrow> bind_r (main_loop env world 0 n st) (\<lambda>(ended, st).
         if ended then bind_r (main_leave exec_ok (m_surv st)) (\<lambda>way. Inr (Some (way, m_db st)))
         else Inr None))"

section \<open>What is printed\<close>

lemma openCall_print_ok: "tidy_open oc \<Longrightarrow> \<exists>s. openCall_print oc = Inr s"
  by (auto simp: openCall_print_def tidy_open_def short_def str_ok_def)

lemma print_calls_ok:
  assumes "i + n \<le> length buf" "\<forall>k. i \<le> k \<and> k < i + n \<longrightarrow> (\<exists>oc. buf ! k = Some oc \<and> tidy_open oc)"
  shows "\<exists>ss. print_calls buf i n = Inr (concat ss) \<and> length ss = n
     \<and> (\<forall>k < n. openCall_print (the (buf ! (i + k))) = Inr (ss ! k))"
  using assms
proof (induction n arbitrary: i)
  case (Suc n)
  obtain oc where "buf ! i = Some oc" "tidy_open oc"
    using Suc.prems(2) by (auto dest!: spec [of _ i])
  then obtain s where oc: "buf ! i = Some oc" "openCall_print oc = Inr s"
    using openCall_print_ok by blast
  obtain ss where "print_calls buf (i + 1) n = Inr (concat ss)" "length ss = n"
    "\<forall>k < n. openCall_print (the (buf ! (i + 1 + k))) = Inr (ss ! k)"
    using Suc.IH [of "i + 1"] Suc.prems by fastforce
  with oc Suc.prems(1) show ?case
    by (intro exI [of _ "s # ss"]) (auto simp: less_Suc_eq_0_disj)
qed simp

text \<open>A sound record is printed without a fault, all its open calls in order.\<close>

lemma execCall_print_ok:
  assumes "record_ok e" "calls_wf e"
  shows "\<exists>ss. execCall_print e = Inr (exec_lines e (the (ec_cmdName e)) (the (ec_args e)) @ concat ss) \<and> length ss = length (calls_of e)
     \<and> (\<forall>k < length ss. openCall_print (calls_of e ! k) = Inr (ss ! k))"
proof -
  let ?n = "nat (ec_call_num e)"
  have n: "?n \<le> length (ec_callBuff e)" "\<And>k. k < ?n \<Longrightarrow> \<exists>oc. ec_callBuff e ! k = Some oc"
    using assms(2) by (auto simp: calls_wf_def)
  have len: "length (calls_of e) = ?n"
    using n(1) by (simp add: calls_of_def)
  have at: "calls_of e ! k = the (ec_callBuff e ! k)" "calls_of e ! k \<in> set (calls_of e)" if "k < ?n" for k
    using that n(1) len nth_mem [of k "calls_of e"] by (simp_all add: calls_of_def)
  have "\<forall>k. 0 \<le> k \<and> k < 0 + ?n \<longrightarrow> (\<exists>oc. ec_callBuff e ! k = Some oc \<and> tidy_open oc)"
    using n(2) at assms(1) by (fastforce simp: record_ok_def)
  from print_calls_ok [OF _ this] n(1) obtain ss where "print_calls (ec_callBuff e) 0 ?n = Inr (concat ss)" "length ss = ?n"
    "\<forall>k < ?n. openCall_print (the (ec_callBuff e ! (0 + k))) = Inr (ss ! k)" by auto
  moreover obtain cmd args where "ec_cmdName e = Some cmd" "ec_args e = Some args"
    using assms(1) by (auto simp: record_ok_def tidy_exec_def short_def str_ok_def)
  moreover have "\<forall>k < ?n. openCall_print (calls_of e ! k) = Inr (ss ! k)"
    using calculation(3) at(1) by simp
  ultimately show ?thesis
    using len by (intro exI [of _ ss]) (simp add: execCall_print_def)
qed

section \<open>The program runs\<close>

lemma no_records:
  assumes "pi_wf ix" "pi_lookup ix = (\<lambda>_. None)"
  shows "records_ok (procs ix)" "calls_in (procs ix) = {#}" "occupied (procs ix) = 0"
proof -
  have "procs ix ! i = None" if "i < length (procs ix)" for i
  proof (cases i)
    case 0
    with slot0_empty [OF assms(1)] show ?thesis by simp
  next
    case (Suc k)
    have "int k + 1 < psize ix" using that Suc pi_wfD(1) [OF assms(1)] by linarith
    then have "has_slot ix (int k)" by (simp add: has_slot_def)
    from lookup_slot [OF this] assms(2) Suc show ?thesis by (simp add: nat_add_distrib)
  qed
  then have "procs ix = replicate (length (procs ix)) None"
    by (intro nth_equalityI) simp_all
  then show "records_ok (procs ix)" "calls_in (procs ix) = {#}" "occupied (procs ix) = 0"
    by (metis records_ok_simps(4), metis calls_in_simps(4), metis occupied_simps(4))
qed

lemma surv_init_index:
  assumes "good_init env" "surv_init env pid sv = Inr (0, sv')"
  shows "procindex_init (ie_procs env) (ie_pid_max env) (sv_procs sv) pid = (0, sv_procs sv')"
proof -
  obtain ix where "procindex_init (ie_procs env) (ie_pid_max env) (sv_procs sv) pid = (0, ix)"
    using procindex_init_spec [of "ie_pid_max env" "ie_procs env" "sv_procs sv" pid] assms(1)
    by (auto simp: good_init_def)
  with assms show ?thesis
    by (auto simp: surv_init_def Let_def good_init_def split: if_splits prod.splits)
qed

lemma surv_init_maxPid:
  assumes "good_init env" "surv_init env pid sv = Inr (0, sv')"
  shows "maxPid (sv_procs sv') = get_max_PID (ie_pid_max env)"
  using surv_init_index [OF assms] procindex_init_spec [of "ie_pid_max env" "ie_procs env" "sv_procs sv" pid] assms(1)
  by (auto simp: good_init_def)

lemma prepare_sound:
  assumes init: "good_init ienv" "get_max_PID (ie_pid_max ienv) < 2 ^ 30"
  shows "\<exists>st tree'. main_prepare ienv cenv ownPID surv tree db te toc = Inr (Inr (st, tree'))
     \<and> main_ok st \<and> in_flight st = {#} \<and> crowd (m_surv st) = 0 \<and> m_db st = db \<and> boot_ok (sv_boot_time (m_surv st))
     \<and> queued (False, False, False, 1) st [] [] \<and> \<not> m_compMode st"
proof -
  obtain sv where sv: "surv_init ienv ownPID surv = Inr (0, sv)" "surv_wf sv" "\<not> sv_shutting_down sv"
    "sv_boot_time sv = get_boot_time (ie_stat ienv) mod 2 ^ 32" "pi_lookup (sv_procs sv) = (\<lambda>_. None)"
    "ring_list (sv_dispatchQueue sv) = []" "ring_list (sv_commandQueue sv) = []" "ring_list (sv_openQueue sv) = []"
    using surv_init_ok [OF init(1)] by blast
  have idle: "\<not> sv_processing_opencall_socket sv" "\<not> sv_processing_execcall_socket sv"
    using sv(1) by (auto simp: surv_init_def Let_def bind_r_Inr_iff split: if_splits prod.splits)
  have ix: "pi_wf (sv_procs sv)" "ring_inv (sv_commandQueue sv)" "ring_inv (sv_openQueue sv)"
    using sv(2) by (simp_all add: surv_wf_def)
  note none = no_records [OF ix(1) sv(5)]
  obtain tree' c where tree: "openCall_filter__add cenv tree ''/home/userofdoom/Berufspraktikum/test'' = (c, tree')"
    by (cases "openCall_filter__add cenv tree ''/home/userofdoom/Berufspraktikum/test''")
  let ?st = "\<lparr>m_surv = sv, m_db = db, m_tempEcall = te, m_tempOcall = toc, m_compMode = False,
            m_ready_calls = False, m_counter = 1, m_done = 0\<rparr>"
  have "main_prepare ienv cenv ownPID surv tree db te toc = Inr (Inr (?st, tree'))"
    using sv(1) tree init(1) by (simp add: main_prepare_def good_init_def)
  moreover have "main_ok ?st"
    using sv(2,6-8) ix none(1) surv_init_maxPid [OF init(1) sv(1)] init(2)
    by (simp add: main_ok_def flow_ok_def index_ok_def queue_of_def)
  moreover have "in_flight ?st = {#}" "crowd (m_surv ?st) = 0"
    using none sv(6-8) by (simp_all add: in_flight_def between_def held_def queue_calls_def crowd_def)
  moreover have "boot_ok (sv_boot_time (m_surv ?st))"
    using sv(4) pos_mod_bound [of "2 ^ 32" "get_boot_time (ie_stat ienv)"] by (simp add: boot_ok_def)
  moreover have "queued (False, False, False, 1) ?st [] []"
    using sv(3,7,8) ix idle by (simp add: queued_def flags_def holds_list_def)
  ultimately show ?thesis by auto
qed

lemma loop_alone:
  "\<forall>j \<ge> k. world j = (\<lambda>sv. sv) \<Longrightarrow> main_loop env world k n st = main_loop env (\<lambda>_ sv. sv) k n st"
proof (induction n arbitrary: k st)
  case (Suc n)
  then have IH: "main_loop env world (k + 1) n = main_loop env (\<lambda>_ sv. sv) (k + 1) n"
    by (intro ext) simp
  have "world k = (\<lambda>sv. sv)" using Suc.prems by simp
  with IH show ?case by (simp only: main_loop.simps)
qed simp

lemma leave_returns: "surv_wf sv \<Longrightarrow> \<exists>way. main_leave exec_ok sv = Inr way \<and> way \<noteq> EXIT_FAILURE"
  using surv_destroy_all [of sv] by (simp add: main_leave_def Let_def)

section \<open>Properties\<close>

text \<open>What the other threads do in the run that the property is about: calls have come, and the daemon is told to stop.\<close>

definition stop_with :: "execCall g_ringBuffer \<Rightarrow> openCall g_ringBuffer \<Rightarrow> bool \<Rightarrow> nat \<Rightarrow> surveiller \<Rightarrow> surveiller" where
  "stop_with cq oq restart k sv =
     (if k = 0 then sv\<lparr>sv_commandQueue := cq, sv_openQueue := oq, sv_shutting_down := True, sv_restart := restart\<rparr> else sv)"



end
