(* ===== verification/Launcher.thy ===== *)
theory Launcher
  imports Prelude
begin

text \<open>
  The two programs that start a traced command: \<open>src/src/tracer/bashtrace_wrapper.c\<close> and
  \<open>src/src/tracer/opentrace.c\<close>.

  Both fork a child that waits on a pipe before it turns into the command, and both tell the parent
  through another pipe, by closing its end, that the child is ready. What is left of a process is the
  list of the statements that it still has to execute; parent and child execute theirs in any
  interleaving, as two step relations on a common state. The state has the ends of the pipes that each
  process holds, so that reading to the end of a file, blocking, and writing to a pipe without a reader
  are what they are in the operating system. Statements that are output only are left out.
\<close>

section \<open>The state\<close>

datatype pipe_end = ReadyRecv | ReadySend | StartRecv | StartSend

datatype status = Exited int | Killed

datatype stmt =
    Sockets
  | DefaultTERM
  | IgnorePIPE
  | InstallHandler
  | CloseEnd pipe_end
  | SetCloexec pipe_end
  | ReadStart
  | AcceptBoth
  | Exec "string option list"
  | ReadReady
  | SetTrigger
  | SetChildPid
  | WriteTrigger
  | CloseTrigger
  | Sleep
  | WaitChild
  | ExitMain int

datatype child = NoChild | ChildAt "stmt list" | Running "string option list" | ChildEnded status

datatype parent = ParentAt "stmt list" | ParentEnded status

text \<open>
  \<open>la_start\<close> counts the bytes in the start pipe; nothing is ever written to the other one.
  \<open>la_trigger\<close> is the field \<open>triggerPipe\<close> of \<open>procController\<close>, \<open>None\<close> for -1. \<open>la_written\<close> and
  \<open>la_signalled\<close> record that the trigger was written and that the signal of a failed \<open>execvp\<close> was sent.
\<close>

record launch =
  la_child :: child
  la_parent :: parent
  la_child_fds :: "pipe_end set"
  la_parent_fds :: "pipe_end set"
  la_cloexec :: "pipe_end set"
  la_start :: nat
  la_trigger :: "pipe_end option"
  la_child_pid :: bool
  la_default_term :: bool
  la_ignore_pipe :: bool
  la_handler :: bool
  la_written :: bool
  la_signalled :: bool

text \<open>What the parent and the child execute, and how the parent ends when it is told to.\<close>

record launcher =
  lp_child :: "stmt list"
  lp_parent :: "stmt list"
  lp_error :: "stmt list"
  lp_term :: status
  lp_exec_error :: bool

section \<open>The two programs\<close>

text \<open>
  The calls that the child of the wrapper makes for its two sockets, in their order, and their codes.
\<close>

record socket_codes =
  so_open :: int
  so_exec :: int
  so_reuse_open :: int
  so_reuse_exec :: int
  so_bind_open :: int
  so_bind_exec :: int
  so_listen_open :: int
  so_listen_exec :: int

definition bash_sockets :: "socket_codes \<Rightarrow> bool" where
  "bash_sockets c =
     (if so_open c = -1 then False
      else if so_exec c = -1 then False
      else if so_reuse_open c \<noteq> 0 then False
      else if so_reuse_exec c \<noteq> 0 then False
      else if so_bind_open c = -1 then False
      else if so_bind_exec c = -1 then False
      else if so_listen_open c = -1 then False
      else so_listen_exec c \<noteq> -1)"

definition exec_args :: "string list \<Rightarrow> string option list" where
  "exec_args argv = map Some argv @ [None]"

definition bash_child :: "string list \<Rightarrow> stmt list" where
  "bash_child argv =
     [Sockets, DefaultTERM, CloseEnd ReadyRecv, CloseEnd StartSend, SetCloexec StartRecv,
      CloseEnd ReadySend, ReadStart, IgnorePIPE, AcceptBoth, Exec (exec_args argv)]"

definition opentrace_child :: "string list \<Rightarrow> stmt list" where
  "opentrace_child argv =
     [DefaultTERM, CloseEnd ReadyRecv, CloseEnd StartSend, SetCloexec StartRecv,
      CloseEnd ReadySend, ReadStart, Exec (exec_args argv)]"

text \<open>\<open>primeCommandToExecute\<close> in the parent, up to \<open>return 0\<close>, and its two error exits.\<close>

definition prime_parent :: "bool \<Rightarrow> stmt list" where
  "prime_parent exec_error =
     (if exec_error then [InstallHandler] else [])
     @ [CloseEnd ReadySend, CloseEnd StartRecv, ReadReady, SetCloexec StartSend, SetTrigger,
        CloseEnd ReadyRecv]"

definition opentrace_prime_parent :: "bool \<Rightarrow> stmt list" where
  "opentrace_prime_parent exec_error =
     (if exec_error then [InstallHandler] else [])
     @ [CloseEnd ReadySend, CloseEnd StartRecv, ReadReady, SetCloexec StartSend, SetTrigger,
        CloseEnd ReadyRecv]"

definition close_ready2exec :: "stmt list" where
  "close_ready2exec = [CloseEnd ReadyRecv, CloseEnd ReadySend]"

definition close_pipes :: "stmt list" where
  "close_pipes = [CloseEnd StartRecv, CloseEnd StartSend] @ close_ready2exec"

definition runCommand :: "stmt list" where
  "runCommand = [WriteTrigger, CloseTrigger]"

definition opentrace_runCommand :: "stmt list" where
  "opentrace_runCommand = [WriteTrigger, CloseTrigger]"

text \<open>Both programs give \<open>argv + 1\<close> as the command and no handler for a failed \<open>execvp\<close>.\<close>

definition bash_program :: "bool \<Rightarrow> string list \<Rightarrow> launcher" where
  "bash_program exec_error argv =
     \<lparr>lp_child = bash_child (tl argv),
      lp_parent = prime_parent exec_error @ [SetChildPid] @ runCommand @ [Sleep, WaitChild, ExitMain 0],
      lp_error = [CloseTrigger, ExitMain 255],
      lp_term = Exited 1,
      lp_exec_error = exec_error\<rparr>"

definition opentrace_program :: "bool \<Rightarrow> string list \<Rightarrow> launcher" where
  "opentrace_program exec_error argv =
     \<lparr>lp_child = opentrace_child (tl argv),
      lp_parent = opentrace_prime_parent exec_error @ opentrace_runCommand @ [ExitMain 0],
      lp_error = [CloseTrigger, ExitMain 1],
      lp_term = Killed,
      lp_exec_error = exec_error\<rparr>"

datatype tool = Bash | Opentrace

definition program :: "tool \<Rightarrow> bool \<Rightarrow> string list \<Rightarrow> launcher" where
  "program tool exec_error argv =
     (case tool of Bash \<Rightarrow> bash_program exec_error argv | Opentrace \<Rightarrow> opentrace_program exec_error argv)"

text \<open>
  What \<open>main\<close> and \<open>primeCommandToExecute\<close> do until there is a child: the arguments are counted, then
  two calls of \<open>pipe\<close>, which succeed or not, and \<open>fork\<close> with its result.
\<close>

definition launch_start :: "launcher \<Rightarrow> bool \<Rightarrow> bool \<Rightarrow> int \<Rightarrow> launch" where
  "launch_start P pipe1 pipe2 pid =
     (let s = \<lparr>la_child = NoChild, la_parent = ParentAt (lp_error P), la_child_fds = {},
               la_parent_fds = {}, la_cloexec = {}, la_start = 0, la_trigger = None,
               la_child_pid = False, la_default_term = False, la_ignore_pipe = False,
               la_handler = False, la_written = False, la_signalled = False\<rparr>;
          all = {ReadyRecv, ReadySend, StartRecv, StartSend} in
      if \<not> pipe1 then s
      else if \<not> pipe2
      then s\<lparr>la_parent := ParentAt (close_ready2exec @ lp_error P),
             la_parent_fds := {ReadyRecv, ReadySend}\<rparr>
      else if pid < 0
      then s\<lparr>la_parent := ParentAt (close_pipes @ lp_error P), la_parent_fds := all\<rparr>
      else s\<lparr>la_child := ChildAt (lp_child P), la_parent := ParentAt (lp_parent P),
             la_child_fds := all, la_parent_fds := all\<rparr>)"

definition launch_main :: "tool \<Rightarrow> string list \<Rightarrow> bool \<Rightarrow> bool \<Rightarrow> int \<Rightarrow> status + launch" where
  "launch_main tool argv pipe1 pipe2 pid =
     (if length argv < 2 then Inl (Exited (case tool of Bash \<Rightarrow> 0 | Opentrace \<Rightarrow> 1))
      else Inr (launch_start (program tool False argv) pipe1 pipe2 pid))"

section \<open>Steps\<close>

definition end_child :: "status \<Rightarrow> launch \<Rightarrow> launch" where
  "end_child st s = s\<lparr>la_child := ChildEnded st, la_child_fds := {}\<rparr>"

definition end_parent :: "status \<Rightarrow> launch \<Rightarrow> launch" where
  "end_parent st s = s\<lparr>la_parent := ParentEnded st, la_parent_fds := {}\<rparr>"

definition holders :: "launch \<Rightarrow> pipe_end set" where
  "holders s = la_child_fds s \<union> la_parent_fds s"

text \<open>The status that \<open>exit (-1)\<close> or \<open>return -1\<close> leaves is 255.\<close>

inductive child_step :: "launcher \<Rightarrow> launch \<Rightarrow> launch \<Rightarrow> bool" for P where
  sockets: "la_child s = ChildAt (Sockets # r) \<Longrightarrow> bash_sockets c
     \<Longrightarrow> child_step P s (s\<lparr>la_child := ChildAt r\<rparr>)"
| sockets_fail: "la_child s = ChildAt (Sockets # r) \<Longrightarrow> \<not> bash_sockets c
     \<Longrightarrow> child_step P s (end_child (Exited 255) s)"
| default_term: "la_child s = ChildAt (DefaultTERM # r)
     \<Longrightarrow> child_step P s (s\<lparr>la_child := ChildAt r, la_default_term := True\<rparr>)"
| ignore_pipe: "la_child s = ChildAt (IgnorePIPE # r)
     \<Longrightarrow> child_step P s (s\<lparr>la_child := ChildAt r, la_ignore_pipe := True\<rparr>)"
| close_end: "la_child s = ChildAt (CloseEnd e # r)
     \<Longrightarrow> child_step P s (s\<lparr>la_child := ChildAt r, la_child_fds := la_child_fds s - {e}\<rparr>)"
| cloexec: "la_child s = ChildAt (SetCloexec e # r)
     \<Longrightarrow> child_step P s (s\<lparr>la_child := ChildAt r, la_cloexec := insert e (la_cloexec s)\<rparr>)"
| read_byte: "la_child s = ChildAt (ReadStart # r) \<Longrightarrow> 0 < la_start s
     \<Longrightarrow> child_step P s (s\<lparr>la_child := ChildAt r, la_start := la_start s - 1\<rparr>)"
| read_end: "la_child s = ChildAt (ReadStart # r) \<Longrightarrow> la_start s = 0 \<Longrightarrow> StartSend \<notin> holders s
     \<Longrightarrow> child_step P s (end_child (Exited 0) s)"
| read_fail: "la_child s = ChildAt (ReadStart # r)
     \<Longrightarrow> child_step P s (end_child (Exited 255) s)"
| accept_both: "la_child s = ChildAt (AcceptBoth # r)
     \<Longrightarrow> child_step P s (s\<lparr>la_child := ChildAt r\<rparr>)"
| accept_fail: "la_child s = ChildAt (AcceptBoth # r)
     \<Longrightarrow> child_step P s (end_child (Exited 255) s)"
| exec: "la_child s = ChildAt (Exec args # r)
     \<Longrightarrow> child_step P s (s\<lparr>la_child := Running args, la_child_fds := la_child_fds s - la_cloexec s\<rparr>)"
| exec_fail: "la_child s = ChildAt (Exec args # r)
     \<Longrightarrow> child_step P s (end_child (Exited 255)
           (s\<lparr>la_signalled := (la_signalled s \<or> lp_exec_error P \<and> (\<exists>q. la_parent s = ParentAt q))\<rparr>))"
| command_ends: "la_child s = Running args \<Longrightarrow> child_step P s (end_child st s)"

text \<open>
  \<open>SIGTERM\<close> for the child: before it has set the default it still has the handler of its parent, in
  which \<open>child_pid\<close> is 0.
\<close>

definition term_child :: "launch \<Rightarrow> launch" where
  "term_child s =
     (case la_child s of
        ChildAt _ \<Rightarrow> end_child (if la_default_term s then Killed else Exited 1) s
      | Running _ \<Rightarrow> end_child Killed s
      | _ \<Rightarrow> s)"

text \<open>
  The rule \<open>told_to_end\<close> is \<open>SIGTERM\<close> for the parent, at any time; a command that has its own
  handler may survive its part of it.
\<close>

inductive parent_step :: "launcher \<Rightarrow> launch \<Rightarrow> launch \<Rightarrow> bool" for P where
  install: "la_parent s = ParentAt (InstallHandler # q)
     \<Longrightarrow> parent_step P s (s\<lparr>la_parent := ParentAt q, la_handler := True\<rparr>)"
| close_end: "la_parent s = ParentAt (CloseEnd e # q)
     \<Longrightarrow> parent_step P s (s\<lparr>la_parent := ParentAt q, la_parent_fds := la_parent_fds s - {e}\<rparr>)"
| ready: "la_parent s = ParentAt (ReadReady # q) \<Longrightarrow> ReadySend \<notin> holders s
     \<Longrightarrow> parent_step P s (s\<lparr>la_parent := ParentAt q\<rparr>)"
| ready_fail: "la_parent s = ParentAt (ReadReady # q)
     \<Longrightarrow> parent_step P s (s\<lparr>la_parent := ParentAt (close_pipes @ lp_error P)\<rparr>)"
| cloexec: "la_parent s = ParentAt (SetCloexec e # q)
     \<Longrightarrow> parent_step P s (s\<lparr>la_parent := ParentAt q\<rparr>)"
| trigger: "la_parent s = ParentAt (SetTrigger # q)
     \<Longrightarrow> parent_step P s (s\<lparr>la_parent := ParentAt q, la_trigger := Some StartSend\<rparr>)"
| child_pid: "la_parent s = ParentAt (SetChildPid # q)
     \<Longrightarrow> parent_step P s (s\<lparr>la_parent := ParentAt q, la_child_pid := True\<rparr>)"
| no_trigger: "la_parent s = ParentAt (WriteTrigger # q) \<Longrightarrow> la_trigger s = None
     \<Longrightarrow> parent_step P s (s\<lparr>la_parent := ParentAt q\<rparr>)"
| write_byte: "la_parent s = ParentAt (WriteTrigger # q) \<Longrightarrow> la_trigger s = Some StartSend
     \<Longrightarrow> StartSend \<in> la_parent_fds s \<Longrightarrow> StartRecv \<in> holders s
     \<Longrightarrow> parent_step P s (s\<lparr>la_parent := ParentAt q, la_start := la_start s + 1, la_written := True\<rparr>)"
| write_sigpipe: "la_parent s = ParentAt (WriteTrigger # q) \<Longrightarrow> la_trigger s = Some StartSend
     \<Longrightarrow> StartRecv \<notin> holders s \<Longrightarrow> parent_step P s (end_parent Killed s)"
| write_fail: "la_parent s = ParentAt (WriteTrigger # q) \<Longrightarrow> la_trigger s = Some StartSend
     \<Longrightarrow> parent_step P s (s\<lparr>la_parent := ParentAt q\<rparr>)"
| close_trigger: "la_parent s = ParentAt (CloseTrigger # q)
     \<Longrightarrow> parent_step P s (s\<lparr>la_parent := ParentAt q,
           la_parent_fds := la_parent_fds s - set_option (la_trigger s)\<rparr>)"
| sleep: "la_parent s = ParentAt (Sleep # q) \<Longrightarrow> parent_step P s (s\<lparr>la_parent := ParentAt q\<rparr>)"
| wait_child: "la_parent s = ParentAt (WaitChild # q) \<Longrightarrow> la_child s = ChildEnded st
     \<Longrightarrow> parent_step P s (s\<lparr>la_parent := ParentAt q\<rparr>)"
| exit_main: "la_parent s = ParentAt (ExitMain c # q)
     \<Longrightarrow> parent_step P s (end_parent (Exited c) s)"
| told_to_end: "la_parent s = ParentAt q
     \<Longrightarrow> parent_step P s (end_parent (lp_term P) (if la_child_pid s then term_child s else s))"
| survived: "la_parent s = ParentAt q \<Longrightarrow> la_child s = Running args
     \<Longrightarrow> parent_step P s (end_parent (lp_term P) s)"

inductive launch_step :: "launcher \<Rightarrow> launch \<Rightarrow> launch \<Rightarrow> bool" for P where
  child: "child_step P s t \<Longrightarrow> launch_step P s t"
| parent: "parent_step P s t \<Longrightarrow> launch_step P s t"

inductive_cases launch_stepE: "launch_step P s t"

text \<open>The states of a run, from any outcome of the calls before there is a child.\<close>

inductive launched :: "launcher \<Rightarrow> launch \<Rightarrow> bool" for P where
  start: "launched P (launch_start P pipe1 pipe2 pid)"
| step: "launched P s \<Longrightarrow> launch_step P s t \<Longrightarrow> launched P t"

section \<open>Order of statements\<close>

text \<open>\<open>x\<close> stands before the first \<open>y\<close>, if there is one.\<close>

fun before :: "stmt \<Rightarrow> stmt \<Rightarrow> stmt list \<Rightarrow> bool" where
  "before x y [] = False"
| "before x y (z # zs) = (z \<noteq> y \<and> (x = z \<or> before x y zs))"

lemma before_append: "y \<notin> set xs \<Longrightarrow> before x y (xs @ ys) = (x \<in> set xs \<or> before x y ys)"
  by (induction xs) auto

lemma before_in: "before x y xs \<Longrightarrow> x \<in> set xs"
  by (induction xs) auto

text \<open>
  What holds of the child: before it has read from the start pipe, every end but the one it reads
  from is still to be closed or is closed, and it has not become the command; after it, the trigger
  was written and it holds that one end only, which \<open>exec\<close> closes.
\<close>

definition child_waits :: "string option list \<Rightarrow> launch \<Rightarrow> stmt list \<Rightarrow> bool" where
  "child_waits args s r \<longleftrightarrow>
     ReadStart \<in> set r \<and> (\<forall>e \<in> la_child_fds s - {StartRecv}. before (CloseEnd e) ReadStart r)
     \<and> (StartRecv \<in> la_cloexec s \<or> before (SetCloexec StartRecv) ReadStart r)
     \<and> (la_default_term s \<or> before DefaultTERM (CloseEnd ReadySend) r \<and> ReadySend \<in> la_child_fds s)
     \<and> (\<forall>a. \<not> before (Exec a) ReadStart r)"

definition child_goes :: "launch \<Rightarrow> stmt list \<Rightarrow> bool" where
  "child_goes s r \<longleftrightarrow> ReadStart \<notin> set r \<and> la_written s \<and> la_child_fds s \<subseteq> {StartRecv}
     \<and> StartRecv \<in> la_cloexec s \<and> la_default_term s"

definition child_inv :: "string option list \<Rightarrow> launch \<Rightarrow> bool" where
  "child_inv args s \<longleftrightarrow>
     (case la_child s of
        ChildAt r \<Rightarrow> distinct r \<and> (\<forall>a. Exec a \<in> set r \<longrightarrow> a = args)
          \<and> (child_waits args s r \<or> child_goes s r)
      | Running a \<Rightarrow> la_child_fds s = {} \<and> la_written s \<and> a = args
      | _ \<Rightarrow> la_child_fds s = {})"

definition parent_inv :: "launcher \<Rightarrow> launch \<Rightarrow> bool" where
  "parent_inv P s \<longleftrightarrow>
     (case la_parent s of
        ParentAt q \<Rightarrow>
          (ReadySend \<in> la_parent_fds s \<longrightarrow> before (CloseEnd ReadySend) ReadReady q)
          \<and> (StartRecv \<in> la_parent_fds s \<longrightarrow> before (CloseEnd StartRecv) WriteTrigger q)
          \<and> (StartSend \<in> la_parent_fds s \<longrightarrow> before (CloseEnd StartSend) WaitChild q
               \<or> before CloseTrigger WaitChild q
                  \<and> (la_trigger s = Some StartSend \<or> before SetTrigger CloseTrigger q))
          \<and> (SetChildPid \<in> set q \<longrightarrow> before ReadReady SetChildPid q \<or> ReadySend \<notin> la_child_fds s)
          \<and> (lp_exec_error P \<longrightarrow> la_handler s \<or> WriteTrigger \<notin> set q \<or> before InstallHandler WriteTrigger q)
          \<and> (la_child s = NoChild \<longrightarrow> ReadReady \<notin> set q \<and> WaitChild \<notin> set q)
      | ParentEnded st \<Rightarrow> la_parent_fds s = {})"

definition both_inv :: "launcher \<Rightarrow> launch \<Rightarrow> bool" where
  "both_inv P s \<longleftrightarrow> (0 < la_start s \<longrightarrow> la_written s)
     \<and> (la_signalled s \<longrightarrow> lp_exec_error P \<and> la_written s)
     \<and> (lp_exec_error P \<and> la_written s \<longrightarrow> la_handler s)
     \<and> (la_child_pid s \<longrightarrow> ReadySend \<notin> la_child_fds s)"

text \<open>Weights of the statements, so that every step makes the rest lighter.\<close>

definition weight :: "stmt \<Rightarrow> nat" where
  "weight x = (if x = ReadReady then 10 else 1)"

lemma sum_weight: "ReadReady \<notin> set xs \<Longrightarrow> sum_list (map weight xs) = length xs"
  by (induction xs) (auto simp: weight_def)

definition work :: "launch \<Rightarrow> nat" where
  "work s = (case la_child s of ChildAt r \<Rightarrow> 2 + length r | Running _ \<Rightarrow> 1 | _ \<Rightarrow> 0)
     + (case la_parent s of ParentAt q \<Rightarrow> 1 + sum_list (map weight q) | ParentEnded _ \<Rightarrow> 0)"

section \<open>The handshake\<close>

text \<open>
  What the lists of the two programs have in common: the order of the statements that the handshake
  rests on. The locale is interpreted for both programs below.
\<close>

locale handshake =
  fixes P :: launcher and args :: "string option list"
  assumes child_distinct: "distinct (lp_child P)"
    and child_reads: "ReadStart \<in> set (lp_child P)"
    and child_closes: "e \<noteq> StartRecv \<Longrightarrow> before (CloseEnd e) ReadStart (lp_child P)"
    and child_cloexec: "before (SetCloexec StartRecv) ReadStart (lp_child P)"
    and child_default: "before DefaultTERM (CloseEnd ReadySend) (lp_child P)"
    and child_execs: "Exec a \<in> set (lp_child P) \<Longrightarrow> a = args"
    and child_execs_last: "\<not> before (Exec a) ReadStart (lp_child P)"
    and parent_closes: "before (CloseEnd ReadySend) ReadReady (lp_parent P)"
      "before (CloseEnd StartRecv) WriteTrigger (lp_parent P)"
    and parent_trigger: "before SetTrigger CloseTrigger (lp_parent P)"
      "before CloseTrigger WaitChild (lp_parent P)"
    and parent_pid: "SetChildPid \<in> set (lp_parent P) \<Longrightarrow> before ReadReady SetChildPid (lp_parent P)"
    and parent_handler: "lp_exec_error P \<Longrightarrow> before InstallHandler WriteTrigger (lp_parent P)"
    and error_plain: "set (lp_error P) \<inter> {ReadReady, WriteTrigger, WaitChild, SetChildPid} = {}"
    and error_short: "length (lp_error P) < 6"
begin

definition hs_inv :: "launch \<Rightarrow> bool" where
  "hs_inv s \<longleftrightarrow> child_inv args s \<and> parent_inv P s \<and> both_inv P s"

lemma inv_start: "hs_inv (launch_start P pipe1 pipe2 pid)"
  using child_distinct child_reads child_closes child_cloexec child_default child_execs child_execs_last
    parent_closes parent_trigger parent_pid parent_handler error_plain
  by (auto simp: hs_inv_def child_inv_def parent_inv_def both_inv_def launch_start_def Let_def
      child_waits_def close_pipes_def close_ready2exec_def before_append)

lemma child_keeps_child:
  assumes "child_step P s t" "child_inv args s" "both_inv P s"
  shows "child_inv args t"
  using assms
proof (induction rule: child_step.induct)
  case (read_byte s r)
  then show ?case
    by (auto simp: child_inv_def child_waits_def child_goes_def both_inv_def)
next
  case (exec s a r)
  then show ?case
    by (auto simp: child_inv_def child_waits_def child_goes_def)
qed (auto simp: child_inv_def child_waits_def child_goes_def end_child_def)

lemma child_keeps_parent: "child_step P s t \<Longrightarrow> parent_inv P s \<Longrightarrow> parent_inv P t"
  by (induction rule: child_step.induct)
     (auto simp: parent_inv_def end_child_def split: parent.splits)

lemma child_keeps_both: "child_step P s t \<Longrightarrow> child_inv args s \<Longrightarrow> both_inv P s \<Longrightarrow> both_inv P t"
  by (induction rule: child_step.induct)
     (auto simp: both_inv_def end_child_def child_inv_def child_waits_def child_goes_def)

lemma parent_keeps_child: "parent_step P s t \<Longrightarrow> child_inv args s \<Longrightarrow> child_inv args t"
  by (induction rule: parent_step.induct)
     (auto simp: child_inv_def child_waits_def child_goes_def end_parent_def end_child_def
       term_child_def split: child.splits)

lemma parent_keeps_parent: "parent_step P s t \<Longrightarrow> parent_inv P s \<Longrightarrow> parent_inv P t"
proof (induction rule: parent_step.induct)
  case (ready_fail s q)
  then show ?case
    using error_plain
    by (auto simp: parent_inv_def close_pipes_def close_ready2exec_def before_append)
qed (auto simp: parent_inv_def end_parent_def holders_def)

lemma parent_keeps_both: "parent_step P s t \<Longrightarrow> parent_inv P s \<Longrightarrow> both_inv P s \<Longrightarrow> both_inv P t"
  by (induction rule: parent_step.induct)
     (auto simp: both_inv_def parent_inv_def end_parent_def end_child_def term_child_def
       split: child.splits)

lemma step_keeps_inv: "launch_step P s t \<Longrightarrow> hs_inv s \<Longrightarrow> hs_inv t"
  by (erule launch_stepE)
     (auto simp: hs_inv_def intro: child_keeps_child child_keeps_parent child_keeps_both
       parent_keeps_child parent_keeps_parent parent_keeps_both)

lemma launched_inv: "launched P s \<Longrightarrow> hs_inv s"
  by (induction rule: launched.induct) (auto intro: inv_start step_keeps_inv)

lemma step_work: "launch_step P s t \<Longrightarrow> work t < work s"
proof (erule launch_stepE)
  assume "child_step P s t"
  then show ?thesis
    by (induction rule: child_step.induct)
       (auto simp: work_def end_child_def split: child.splits parent.splits)
next
  assume "parent_step P s t"
  then show ?thesis
  proof (induction rule: parent_step.induct)
    case (ready_fail s q)
    have "sum_list (map weight (lp_error P)) = length (lp_error P)"
      using error_plain by (intro sum_weight) simp
    then show ?case
      using ready_fail error_short by (simp add: work_def close_pipes_def close_ready2exec_def weight_def)
  qed (auto simp: work_def end_parent_def end_child_def term_child_def weight_def split: child.splits)
qed

lemma steps_work: "(launch_step P ^^ n) s t \<Longrightarrow> n + work t \<le> work s"
proof (induction n arbitrary: t)
  case (Suc n)
  then obtain u where u: "(launch_step P ^^ n) s u" "launch_step P u t" by auto
  with Suc.IH [OF u(1)] step_work [OF u(2)] show ?case by simp
qed simp

end

text \<open>
  Neither waits for ever for the other: a child that waits for the trigger has a parent that can go on,
  and a parent that waits has a child that is alive and can go on.
\<close>

definition child_blocked :: "launch \<Rightarrow> bool" where
  "child_blocked s \<longleftrightarrow> (case la_child s of ChildAt (ReadStart # r) \<Rightarrow> la_start s = 0 \<and> StartSend \<in> holders s
     | _ \<Rightarrow> False)"

definition parent_blocked :: "launch \<Rightarrow> bool" where
  "parent_blocked s \<longleftrightarrow> (case la_parent s of
       ParentAt (ReadReady # q) \<Rightarrow> ReadySend \<in> holders s
     | ParentAt (WaitChild # q) \<Rightarrow> \<not> (\<exists>st. la_child s = ChildEnded st)
     | _ \<Rightarrow> False)"

definition child_over :: "launch \<Rightarrow> bool" where
  "child_over s \<longleftrightarrow> (case la_child s of NoChild \<Rightarrow> True | ChildEnded _ \<Rightarrow> True | _ \<Rightarrow> False)"

definition parent_over :: "launch \<Rightarrow> bool" where
  "parent_over s \<longleftrightarrow> (case la_parent s of ParentEnded _ \<Rightarrow> True | _ \<Rightarrow> False)"

lemma child_blocked_iff:
  "child_blocked s \<longleftrightarrow> (\<exists>r. la_child s = ChildAt (ReadStart # r)) \<and> la_start s = 0 \<and> StartSend \<in> holders s"
  by (auto simp: child_blocked_def split: child.splits list.splits stmt.splits)

lemma parent_blocked_iff:
  "parent_blocked s \<longleftrightarrow> (\<exists>q. la_parent s = ParentAt (ReadReady # q)) \<and> ReadySend \<in> holders s
     \<or> (\<exists>q. la_parent s = ParentAt (WaitChild # q)) \<and> \<not> (\<exists>st. la_child s = ChildEnded st)"
  by (auto simp: parent_blocked_def split: parent.splits list.splits stmt.splits)

lemma child_over_iff: "child_over s \<longleftrightarrow> la_child s = NoChild \<or> (\<exists>st. la_child s = ChildEnded st)"
  by (auto simp: child_over_def split: child.splits)

lemma parent_over_iff: "parent_over s \<longleftrightarrow> (\<exists>st. la_parent s = ParentEnded st)"
  by (auto simp: parent_over_def split: parent.splits)

context handshake begin

lemma launched_runs:
  assumes "launched P s" "la_child s = Running a"
  shows "la_written s \<and> a = args \<and> la_child_fds s = {}"
  using launched_inv [OF assms(1)] assms(2) by (simp add: hs_inv_def child_inv_def)

lemma launched_not_stuck:
  assumes "launched P s"
  shows "\<not> (child_blocked s \<and> (parent_blocked s \<or> parent_over s)) \<and> \<not> (parent_blocked s \<and> child_over s)"
  using launched_inv [OF assms]
  by (auto simp: hs_inv_def child_inv_def parent_inv_def child_waits_def child_goes_def child_blocked_iff
      parent_blocked_iff child_over_iff parent_over_iff holders_def)

lemma launched_handler:
  assumes "launched P s" "la_signalled s"
  shows "la_handler s"
  using launched_inv [OF assms(1)] assms(2) by (simp add: hs_inv_def both_inv_def)

lemma launched_default:
  assumes "launched P s" "la_child_pid s" "la_child s = ChildAt r"
  shows "la_default_term s"
  using launched_inv [OF assms(1)] assms(2,3)
  by (auto simp: hs_inv_def both_inv_def child_inv_def child_waits_def child_goes_def)

lemma launched_no_reader:
  assumes "launched P s" "child_over s" "la_parent s = ParentAt (WriteTrigger # q)"
  shows "StartRecv \<notin> holders s"
  using launched_inv [OF assms(1)] assms(2,3)
  by (auto simp: hs_inv_def child_inv_def parent_inv_def child_over_iff holders_def)

end

section \<open>Both programs\<close>

lemma handshake_program: "handshake (program tool exec_error argv) (exec_args (tl argv))"
proof
  fix e :: pipe_end assume "e \<noteq> StartRecv"
  then show "before (CloseEnd e) ReadStart (lp_child (program tool exec_error argv))"
    by (cases e; cases tool)
       (simp_all add: program_def bash_program_def opentrace_program_def bash_child_def opentrace_child_def)
qed (cases tool; auto simp: program_def bash_program_def opentrace_program_def bash_child_def
    opentrace_child_def prime_parent_def opentrace_prime_parent_def runCommand_def opentrace_runCommand_def)+

interpretation tracer: handshake "program tool exec_error argv" "exec_args (tl argv)"
  for tool exec_error argv
  by (rule handshake_program)

text \<open>The steps that both take if no call fails, along a schedule: true for the child.\<close>

fun child_next :: "launch \<Rightarrow> launch option" where
  "child_next s =
     (case la_child s of
        ChildAt (DefaultTERM # r) \<Rightarrow> Some (s\<lparr>la_child := ChildAt r, la_default_term := True\<rparr>)
      | ChildAt (IgnorePIPE # r) \<Rightarrow> Some (s\<lparr>la_child := ChildAt r, la_ignore_pipe := True\<rparr>)
      | ChildAt (CloseEnd e # r) \<Rightarrow> Some (s\<lparr>la_child := ChildAt r, la_child_fds := la_child_fds s - {e}\<rparr>)
      | ChildAt (SetCloexec e # r) \<Rightarrow> Some (s\<lparr>la_child := ChildAt r, la_cloexec := insert e (la_cloexec s)\<rparr>)
      | ChildAt (Sockets # r) \<Rightarrow> Some (s\<lparr>la_child := ChildAt r\<rparr>)
      | ChildAt (AcceptBoth # r) \<Rightarrow> Some (s\<lparr>la_child := ChildAt r\<rparr>)
      | ChildAt (ReadStart # r) \<Rightarrow>
          (if 0 < la_start s then Some (s\<lparr>la_child := ChildAt r, la_start := la_start s - 1\<rparr>) else None)
      | ChildAt (Exec args # r) \<Rightarrow>
          Some (s\<lparr>la_child := Running args, la_child_fds := la_child_fds s - la_cloexec s\<rparr>)
      | _ \<Rightarrow> None)"

fun parent_next :: "launch \<Rightarrow> launch option" where
  "parent_next s =
     (case la_parent s of
        ParentAt (InstallHandler # q) \<Rightarrow> Some (s\<lparr>la_parent := ParentAt q, la_handler := True\<rparr>)
      | ParentAt (CloseEnd e # q) \<Rightarrow> Some (s\<lparr>la_parent := ParentAt q, la_parent_fds := la_parent_fds s - {e}\<rparr>)
      | ParentAt (ReadReady # q) \<Rightarrow>
          (if ReadySend \<in> holders s then None else Some (s\<lparr>la_parent := ParentAt q\<rparr>))
      | ParentAt (SetCloexec e # q) \<Rightarrow> Some (s\<lparr>la_parent := ParentAt q\<rparr>)
      | ParentAt (SetTrigger # q) \<Rightarrow> Some (s\<lparr>la_parent := ParentAt q, la_trigger := Some StartSend\<rparr>)
      | ParentAt (SetChildPid # q) \<Rightarrow> Some (s\<lparr>la_parent := ParentAt q, la_child_pid := True\<rparr>)
      | ParentAt (WriteTrigger # q) \<Rightarrow>
          (if la_trigger s = Some StartSend \<and> StartSend \<in> la_parent_fds s \<and> StartRecv \<in> holders s
           then Some (s\<lparr>la_parent := ParentAt q, la_start := la_start s + 1, la_written := True\<rparr>) else None)
      | ParentAt (CloseTrigger # q) \<Rightarrow>
          Some (s\<lparr>la_parent := ParentAt q, la_parent_fds := la_parent_fds s - set_option (la_trigger s)\<rparr>)
      | ParentAt (Sleep # q) \<Rightarrow> Some (s\<lparr>la_parent := ParentAt q\<rparr>)
      | ParentAt (WaitChild # q) \<Rightarrow>
          (case la_child s of ChildEnded _ \<Rightarrow> Some (s\<lparr>la_parent := ParentAt q\<rparr>) | _ \<Rightarrow> None)
      | ParentAt (ExitMain c # q) \<Rightarrow> Some (end_parent (Exited c) s)
      | _ \<Rightarrow> None)"

declare child_next.simps [simp del] parent_next.simps [simp del]

fun drive :: "bool list \<Rightarrow> launch \<Rightarrow> launch option" where
  "drive [] s = Some s"
| "drive (b # bs) s = Option.bind (if b then child_next s else parent_next s) (drive bs)"

lemma child_next_step: "child_next s = Some t \<Longrightarrow> child_step P s t"
proof -
  have "bash_sockets \<lparr>so_open = 3, so_exec = 4, so_reuse_open = 0, so_reuse_exec = 0, so_bind_open = 0,
      so_bind_exec = 0, so_listen_open = 0, so_listen_exec = 0\<rparr>"
    by (simp add: bash_sockets_def)
  then show "child_next s = Some t \<Longrightarrow> child_step P s t"
    by (auto simp: child_next.simps intro: child_step.intros child_step.read_byte [simplified]
        split: child.splits list.splits stmt.splits if_splits)
qed

lemma parent_next_step: "parent_next s = Some t \<Longrightarrow> parent_step P s t"
  by (auto simp: parent_next.simps intro: parent_step.intros parent_step.write_byte [simplified]
      split: parent.splits list.splits stmt.splits if_splits child.splits)

lemma drive_launched: "drive bs s = Some t \<Longrightarrow> launched P s \<Longrightarrow> launched P t"
proof (induction bs arbitrary: s)
  case (Cons b bs)
  then obtain u where u: "(if b then child_next s else parent_next s) = Some u" "drive bs u = Some t"
    by (auto split: bind_splits)
  then have "launch_step P s u"
    by (auto intro: launch_step.intros child_next_step parent_next_step split: if_splits)
  then show ?case
    using Cons.IH [OF u(2)] Cons.prems(2) launched.step by blast
qed simp

lemmas driving = child_next.simps parent_next.simps program_def bash_program_def opentrace_program_def
  bash_child_def opentrace_child_def prime_parent_def opentrace_prime_parent_def runCommand_def
  opentrace_runCommand_def holders_def end_parent_def

text \<open>The child gets to its \<open>read\<close>, the parent to its \<open>wait\<close> or end, and the child goes on.\<close>

definition demo_schedule :: "tool \<Rightarrow> bool list" where
  "demo_schedule tool =
     (case tool of
        Bash \<Rightarrow> [True, True, True, True, True, True, False, False, False, False, False, False, False,
                 False, False, False, True, True, True, True]
      | Opentrace \<Rightarrow> [True, True, True, True, True, False, False, False, False, False, False,
                      False, False, False, True, True])"

definition demo_run :: "tool \<Rightarrow> launch" where
  "demo_run tool = the (drive (demo_schedule tool)
     (launch_start (program tool False [''tracer'', ''ls'', ''-l'']) True True 7))"

lemma demo_run_drive:
  "drive (demo_schedule tool) (launch_start (program tool False [''tracer'', ''ls'', ''-l'']) True True 7)
     = Some (demo_run tool) \<and> la_child (demo_run tool) = Running [Some ''ls'', Some ''-l'', None]"
proof (cases tool)
  case Bash
  show ?thesis unfolding Bash demo_run_def demo_schedule_def
    by (simp add: driving launch_start_def exec_args_def Let_def)
next
  case Opentrace
  show ?thesis unfolding Opentrace demo_run_def demo_schedule_def
    by (simp add: driving launch_start_def exec_args_def Let_def)
qed

lemma demo_run_launched:
  "launched (program tool False [''tracer'', ''ls'', ''-l'']) (demo_run tool)"
  using demo_run_drive launched.start by (blast intro: drive_launched)


section \<open>Properties\<close>

text \<open>
  C28: In every state that the two processes of a launcher can reach, a child that runs the
  command does so after the parent has written the trigger; what it runs is the command of the
  user with a null pointer at the end; and it holds no end of the two pipes.
\<close>

theorem command_needs_trigger:
  assumes "launched (program tool exec_error argv) s" "la_child s = Running args"
  shows "la_written s \<and> args = map Some (tl argv) @ [None] \<and> la_child_fds s = {}"
  using tracer.launched_runs [OF assms] by (simp add: exec_args_def)

theorem command_needs_trigger_witness:
  "la_written (demo_run Bash) \<and> [Some ''ls'', Some ''-l'', None] = map Some (tl [''tracer'', ''ls'', ''-l'']) @ [None]
     \<and> la_child_fds (demo_run Bash) = {}"
  using demo_run_launched conjunct2 [OF demo_run_drive] by (rule command_needs_trigger)

text \<open>
  C29: No deadlock between parent and child: a child that waits for the trigger has a parent
  that is alive and can go on, and a parent that waits for the child has one that is alive and
  can go on.
\<close>

theorem handshake_never_stuck:
  assumes "launched (program tool exec_error argv) s"
  shows "\<not> (child_blocked s \<and> (parent_blocked s \<or> parent_over s)) \<and> \<not> (parent_blocked s \<and> child_over s)"
  by (rule tracer.launched_not_stuck [OF assms])

definition demo_waiting :: launch where
  "demo_waiting = the (drive [True, True, True, True, True, False, False]
     (launch_start (program Opentrace False [''tracer'', ''ls'']) True True 7))"

lemma demo_waiting_drive:
  "drive [True, True, True, True, True, False, False]
     (launch_start (program Opentrace False [''tracer'', ''ls'']) True True 7) = Some demo_waiting
   \<and> child_blocked demo_waiting"
  by (simp add: demo_waiting_def driving launch_start_def exec_args_def Let_def child_blocked_def)

theorem handshake_never_stuck_witness:
  "child_blocked demo_waiting \<and> \<not> parent_blocked demo_waiting \<and> \<not> parent_over demo_waiting"
proof -
  have "launched (program Opentrace False [''tracer'', ''ls'']) demo_waiting"
    using demo_waiting_drive launched.start by (blast intro: drive_launched)
  from handshake_never_stuck [OF this] demo_waiting_drive show ?thesis by simp
qed

theorem launch_steps_bounded:
  assumes "(launch_step (program tool exec_error argv) ^^ n)
    (launch_start (program tool exec_error argv) pipe1 pipe2 pid) t"
  shows "n \<le> 35"
proof -
  have "work (launch_start (program tool exec_error argv) pipe1 pipe2 pid) \<le> 35"
    by (cases tool) (simp_all add: work_def launch_start_def Let_def driving weight_def close_pipes_def
        close_ready2exec_def)
  then show ?thesis
    using tracer.steps_work [OF assms] by linarith
qed

theorem launch_steps_bounded_witness:
  "(launch_step (program Opentrace False [''tracer'', ''ls'']) ^^ 1)
     (launch_start (program Opentrace False [''tracer'', ''ls'']) True True 7)
     (end_parent Killed (launch_start (program Opentrace False [''tracer'', ''ls'']) True True 7))
   \<and> (1::nat) \<le> 35"
proof -
  let ?P = "program Opentrace False [''tracer'', ''ls'']"
  let ?s = "launch_start ?P True True 7"
  have "la_parent ?s = ParentAt (lp_parent ?P)" "\<not> la_child_pid ?s" "lp_term ?P = Killed"
    by (simp_all add: launch_start_def Let_def program_def opentrace_program_def)
  then have "(launch_step ?P ^^ 1) ?s (end_parent Killed ?s)"
    using launch_step.parent [OF parent_step.told_to_end [of ?s _ ?P]] by (simp add: eq_OO)
  with launch_steps_bounded [OF this] show ?thesis by blast
qed

theorem sigterm_ends_child:
  assumes "launched (program tool exec_error argv) s" "la_child_pid s"
    and "la_child s = ChildAt r \<or> la_child s = Running args"
  shows "la_child (term_child s) = ChildEnded Killed \<and> la_child_fds (term_child s) = {}"
  using tracer.launched_default [OF assms(1,2)] assms(3) by (auto simp: term_child_def end_child_def)

lemma demo_run_pid: "la_child_pid (demo_run Bash)"
  by (simp add: demo_run_def demo_schedule_def driving launch_start_def exec_args_def Let_def)

theorem sigterm_ends_child_witness:
  "la_child (term_child (demo_run Bash)) = ChildEnded Killed \<and> la_child_fds (term_child (demo_run Bash)) = {}"
  by (rule sigterm_ends_child [OF demo_run_launched demo_run_pid disjI2 [OF conjunct2 [OF demo_run_drive]]])

text \<open>The child cannot bind its socket; the parent then gets to its \<open>write\<close>.\<close>

lemma unready_run:
  assumes "P = program Bash False argv"
  shows "\<exists>s. launched P s \<and> la_child s = ChildEnded (Exited 255) \<and> \<not> la_written s
     \<and> la_trigger s = Some StartSend \<and> StartRecv \<notin> holders s \<and> la_child_fds s = {}
     \<and> la_parent s = ParentAt [WriteTrigger, CloseTrigger, Sleep, WaitChild, ExitMain 0]"
proof -
  let ?s = "launch_start P True True 7"
  have "\<not> bash_sockets \<lparr>so_open = 3, so_exec = 4, so_reuse_open = 0, so_reuse_exec = 0,
      so_bind_open = -1, so_bind_exec = 0, so_listen_open = 0, so_listen_exec = 0\<rparr>"
    by (simp add: bash_sockets_def)
  moreover have "\<exists>r. la_child ?s = ChildAt (Sockets # r)"
    by (simp add: assms launch_start_def Let_def program_def bash_program_def bash_child_def)
  ultimately have "child_step P ?s (end_child (Exited 255) ?s)"
    by (blast intro: child_step.sockets_fail)
  then have "launched P (end_child (Exited 255) ?s)"
    by (blast intro: launched.intros launch_step.child)
  moreover have "\<exists>t. drive [False, False, False, False, False, False, False] (end_child (Exited 255) ?s) = Some t
      \<and> la_child t = ChildEnded (Exited 255) \<and> \<not> la_written t \<and> la_trigger t = Some StartSend
      \<and> StartRecv \<notin> holders t \<and> la_child_fds t = {}
      \<and> la_parent t = ParentAt [WriteTrigger, CloseTrigger, Sleep, WaitChild, ExitMain 0]"
    by (simp add: assms driving launch_start_def Let_def end_child_def)
  ultimately show ?thesis
    by (blast intro: drive_launched)
qed


end
