(* ===== verification/Ftracer.thy ===== *)
theory Ftracer
  imports Bytes
begin

text \<open>
  The tracer on top of \<open>ptrace\<close>, \<open>src/src/ftracer/main.c\<close>: waiting for the next stop at a system
  call, reading a file name from the memory of the worker, and the loop that prints every call of
  \<open>open\<close>.

  What \<open>waitpid\<close> stores and what \<open>ptrace\<close> reads at that stop is a parameter, a list of events: the
  status, none if \<open>waitpid\<close> fails, and the registers and the memory of the worker. A run over a finite
  list either returns or is still waiting at its end.
\<close>

section \<open>The worker as it is seen by its tracer\<close>

text \<open>\<open>tr_peek a\<close> is the word of eight bytes at address \<open>a\<close>, none if it cannot be read.\<close>

record tracee =
  tr_orig_rax :: int
  tr_rax :: int
  tr_rdi :: nat
  tr_rsi :: int
  tr_peek :: "nat \<Rightarrow> char list option"

datatype wait_status = WStopped nat | WExited | WSignaled

type_synonym wait_event = "wait_status option \<times> tracee"

section \<open>Waiting\<close>

text \<open>
  The status is a local variable without an initial value, \<open>status\<close>; when \<open>waitpid\<close> fails, it keeps
  the value it has. The result is the return code, the rest of the events, and the stopped worker, or
  \<open>None\<close> while the function still waits.
\<close>

definition syscall_stop :: "wait_status \<Rightarrow> bool" where
  "syscall_stop st = (case st of WStopped sig \<Rightarrow> sig div 128 mod 2 = 1 | _ \<Rightarrow> False)"

fun wait_for_syscall ::
  "wait_status \<Rightarrow> wait_event list \<Rightarrow> (int \<times> tracee \<times> wait_event list) option" where
  "wait_for_syscall status [] = None"
| "wait_for_syscall status ((st, t) # evs) =
     (let status = (case st of None \<Rightarrow> status | Some st \<Rightarrow> st) in
      if syscall_stop status then Some (0, t, evs)
      else if status = WExited then Some (1, t, evs)
      else wait_for_syscall status evs)"

lemma wait_shorter: "wait_for_syscall status evs = Some (r, t, evs') \<Longrightarrow> length evs' < length evs"
  by (induction status evs rule: wait_for_syscall.induct)
     (auto simp: Let_def split: if_splits option.splits dest: less_SucI)

section \<open>The name of a file\<close>

text \<open>
  \<open>errno_ok\<close> is what \<open>errno\<close> holds after a word was read. The size of the block is a signed integer
  that is doubled; neither allocation is checked.
\<close>

definition grow_name :: "alloc_env \<Rightarrow> nat \<Rightarrow> int \<Rightarrow> char list option \<Rightarrow> int \<times> char list option" where
  "grow_name env total_read allocated mem =
     (if allocated mod 2 ^ 64 < int total_read + 8 then
        let size = to_int32 (allocated * 2); bytes = nat (size mod 2 ^ 64) in
        (size, if can_alloc env bytes
               then Some (realloc_bytes env (case mem of None \<Rightarrow> [] | Some v \<Rightarrow> v) bytes) else None)
      else (allocated, mem))"

fun filename_loop ::
  "nat \<Rightarrow> alloc_env \<Rightarrow> int \<Rightarrow> (nat \<Rightarrow> char list option) \<Rightarrow> nat \<Rightarrow> nat \<Rightarrow> int \<Rightarrow> char list option
   \<Rightarrow> char list res" where
  "filename_loop 0 env errno_ok peek addr total_read allocated mem = Inl Diverges"
| "filename_loop (Suc n) env errno_ok peek addr total_read allocated mem =
     (case grow_name env total_read allocated mem of (allocated, mem) \<Rightarrow>
      case peek ((addr + total_read) mod 2 ^ 64) of
        None \<Rightarrow> bind_r (deref mem) (\<lambda>v. set_slot v (int total_read) NUL)
      | Some tmp \<Rightarrow>
          if errno_ok \<noteq> 0 then bind_r (deref mem) (\<lambda>v. set_slot v (int total_read) NUL)
          else bind_r (deref mem) (\<lambda>v. bind_r (write_at v total_read tmp) (\<lambda>v.
            if NUL \<in> set tmp then Inr v
            else filename_loop n env errno_ok peek addr (total_read + 8) allocated (Some v))))"

definition get_filename ::
  "nat \<Rightarrow> (nat \<Rightarrow> alloc_env) \<Rightarrow> int \<Rightarrow> (nat \<Rightarrow> char list option) \<Rightarrow> nat \<Rightarrow> char list res" where
  "get_filename fuel mem errno_ok peek addr =
     filename_loop fuel (mem 1) errno_ok peek addr 0 4096
       (if can_alloc (mem 0) 4096 then Some (realloc_bytes (mem 0) [] 4096) else None)"

section \<open>The loop\<close>

text \<open>The output so far is \<open>out\<close>; the return code is \<open>None\<close> while the tracer still waits.\<close>

function trace_loop ::
  "nat \<Rightarrow> (nat \<Rightarrow> alloc_env) \<Rightarrow> int \<Rightarrow> wait_status \<Rightarrow> int \<Rightarrow> wait_event list \<Rightarrow> string
   \<Rightarrow> (int option \<times> string) res" where
  "trace_loop fuel mem errno_ok junk_status worker evs out =
     (case wait_for_syscall junk_status evs of
        None \<Rightarrow> Inr (None, out)
      | Some (r, t, evs1) \<Rightarrow>
          if r \<noteq> 0 then Inr (Some 0, out)
          else if to_int32 (tr_orig_rax t) = 2 then
            bind_r (get_filename fuel mem errno_ok (tr_peek t) (tr_rdi t)) (\<lambda>v. bind_r (c_str v) (\<lambda>sval.
              let out = out @ ''PID: '' @ show_int worker @ '', '' @ [CHR 0x22] @ sval @ [CHR 0x22]
                        @ '', '' @ show_int (to_int32 (tr_rsi t)) in
              case wait_for_syscall junk_status evs1 of
                None \<Rightarrow> Inr (None, out)
              | Some (r, t, evs2) \<Rightarrow>
                  if r \<noteq> 0 then Inr (Some 0, out)
                  else trace_loop fuel mem errno_ok junk_status worker evs2
                         (out @ '', '' @ show_int (to_int32 (tr_rax t)) @ [NL])))
          else trace_loop fuel mem errno_ok junk_status worker evs1 out)"
  by pat_completeness auto
termination
  by (relation "measure (\<lambda>(fuel, mem, errno_ok, junk_status, worker, evs, out). length evs)")
     (auto dest!: wait_shorter)

declare trace_loop.simps [simp del]

text \<open>The stop that the worker sends itself is waited for first.\<close>

definition run_traceOnPayload ::
  "nat \<Rightarrow> (nat \<Rightarrow> alloc_env) \<Rightarrow> int \<Rightarrow> wait_status \<Rightarrow> int \<Rightarrow> wait_event list \<Rightarrow> (int option \<times> string) res" where
  "run_traceOnPayload fuel mem errno_ok junk_status worker evs =
     (case evs of [] \<Rightarrow> Inr (None, []) | _ # evs \<Rightarrow> trace_loop fuel mem errno_ok junk_status worker evs [])"

definition run_workpayload :: "string list \<Rightarrow> string option list" where
  "run_workpayload argv = map Some argv @ [None]"

text \<open>
  \<open>main\<close>: the return code when arguments are missing; the command that the worker executes; or the
  run of the tracer, also when \<open>fork\<close> fails.
\<close>

definition ftracer_main ::
  "nat \<Rightarrow> (nat \<Rightarrow> alloc_env) \<Rightarrow> int \<Rightarrow> wait_status \<Rightarrow> string list \<Rightarrow> int \<Rightarrow> wait_event list
   \<Rightarrow> (int option \<times> string) res + string option list" where
  "ftracer_main fuel mem errno_ok junk_status argv pid evs =
     (if length argv < 2 then Inl (Inr (Some (-1), []))
      else if pid = 0 then Inr (run_workpayload (tl argv))
      else Inl (run_traceOnPayload fuel mem errno_ok junk_status pid evs))"

text \<open>The string in the memory of the worker, word by word.\<close>

fun tracee_string :: "(nat \<Rightarrow> char list option) \<Rightarrow> nat \<Rightarrow> nat \<Rightarrow> string" where
  "tracee_string peek addr 0 = []"
| "tracee_string peek addr (Suc n) =
     (case peek (addr mod 2 ^ 64) of None \<Rightarrow> []
      | Some w \<Rightarrow> if NUL \<in> set w then takeWhile (\<lambda>c. c \<noteq> NUL) w else w @ tracee_string peek (addr + 8) n)"

fun string_ends :: "(nat \<Rightarrow> char list option) \<Rightarrow> nat \<Rightarrow> nat \<Rightarrow> bool" where
  "string_ends peek addr 0 = False"
| "string_ends peek addr (Suc n) =
     (case peek (addr mod 2 ^ 64) of None \<Rightarrow> True
      | Some w \<Rightarrow> NUL \<in> set w \<or> string_ends peek (addr + 8) n)"

section \<open>Reading a name\<close>

lemma grow_name_fits:
  assumes "\<forall>k < 2 ^ 31. can_alloc env k" "length v = a" "8 dvd a" "8 dvd n" "n \<le> a" "4096 \<le> a"
    "a \<le> max 4096 (2 * n)" "n + 8 \<le> 2 ^ 30"
  shows "\<exists>a' v'. grow_name env n (int a) (Some v) = (int a', Some v') \<and> length v' = a' \<and> 8 dvd a'
     \<and> n + 8 \<le> a' \<and> 4096 \<le> a' \<and> a' \<le> max 4096 (2 * (n + 8)) \<and> take n v' = take n v"
proof (cases "a < n + 8")
  case True
  with assms(3-5) have a: "a = n" by presburger
  have n: "int a * 2 < 2 ^ 31" using assms(8) a by simp
  have size: "to_int32 (int a * 2) = int (2 * a)"
    using n by (simp add: to_int32_def)
  have mod: "int a mod 2 ^ 64 = int a" "int (2 * a) mod 2 ^ 64 = int (2 * a)"
    using n by simp_all
  have "can_alloc env (2 * a)"
    using assms(1) n by simp
  then have "grow_name env n (int a) (Some v) = (int (2 * a), Some (realloc_bytes env v (2 * a)))"
    unfolding grow_name_def mod size Let_def using True by (simp add: mod del: of_nat_mult)
  then show ?thesis
    using assms a by (intro exI [of _ "2 * a"] exI [of _ "realloc_bytes env v (2 * a)"]) simp
next
  case False
  have "int a mod 2 ^ 64 = int a"
    using assms(7,8) by simp
  then have "grow_name env n (int a) (Some v) = (int a, Some v)"
    using False by (simp add: grow_name_def)
  with False assms show ?thesis
    by (intro exI [of _ a] exI [of _ v]) simp
qed

lemma c_str_prefix:
  assumes "NUL \<notin> set p" "NUL \<in> set w"
  shows "c_str (p @ w @ rest) = Inr (p @ takeWhile (\<lambda>c. c \<noteq> NUL) w)"
proof -
  have "takeWhile (\<lambda>c. c \<noteq> NUL) (p @ w @ rest) = p @ takeWhile (\<lambda>c. c \<noteq> NUL) w"
    using assms by (induction p) (auto simp: takeWhile_append)
  with assms(2) show ?thesis by (simp add: c_str_def)
qed

lemma filename_loop_reads:
  assumes "string_ends peek (addr + n) m" "m \<le> fuel" "n + 8 * m \<le> 2 ^ 30"
    and "\<forall>a w. peek a = Some w \<longrightarrow> length w = 8" "\<forall>k < 2 ^ 31. can_alloc env k"
    and "length v = a" "8 dvd a" "8 dvd n" "n \<le> a" "4096 \<le> a" "a \<le> max 4096 (2 * n)"
    and "NUL \<notin> set (take n v)"
  shows "\<exists>v'. filename_loop fuel env 0 peek addr n (int a) (Some v) = Inr v'
     \<and> c_str v' = Inr (take n v @ tracee_string peek (addr + n) m)"
  using assms
proof (induction m arbitrary: fuel n a v)
  case 0
  then show ?case by simp
next
  case (Suc m)
  then obtain f where f: "fuel = Suc f" "m \<le> f" by (cases fuel) auto
  obtain a' v' where g: "grow_name env n (int a) (Some v) = (int a', Some v')" "length v' = a'" "8 dvd a'"
    "n + 8 \<le> a'" "4096 \<le> a'" "a' \<le> max 4096 (2 * (n + 8))" "take n v' = take n v"
    using grow_name_fits [OF Suc.prems(5-11)] Suc.prems(3) by auto
  show ?case
  proof (cases "peek ((addr + n) mod 2 ^ 64)")
    case None
    have "v'[n := NUL] = take n v @ NUL # drop (Suc n) v'"
      using g(2,4,7) by (simp add: upd_conv_take_nth_drop)
    with None g Suc.prems(12) show ?thesis
      unfolding f(1) by simp
  next
    case (Some w)
    have w: "length w = 8" using Suc.prems(4) Some by blast
    let ?v = "take n v' @ w @ drop (n + 8) v'"
    have put: "write_at v' n w = Inr ?v"
      using g(2,4) w by simp
    show ?thesis
    proof (cases "NUL \<in> set w")
      case True
      have "c_str ?v = Inr (take n v @ takeWhile (\<lambda>c. c \<noteq> NUL) w)"
        using c_str_prefix [OF Suc.prems(12) True] g(7) by simp
      with True Some g(1) put show ?thesis
        unfolding f(1) by simp
    next
      case False
      have "take (n + 8) ?v = take n v' @ w" "length ?v = a'"
        using g(2,4) w by simp_all
      then obtain u where u: "write_at v' n w = Inr u" "take (n + 8) u = take n v @ w" "length u = a'"
        using put g(7) by simp
      have e: "string_ends peek (addr + (n + 8)) m"
        using Suc.prems(1) Some False by (simp add: add.assoc)
      have "\<exists>u'. filename_loop f env 0 peek addr (n + 8) (int a') (Some u) = Inr u'
          \<and> c_str u' = Inr (take (n + 8) u @ tracee_string peek (addr + (n + 8)) m)"
        using Suc.prems(3,8,12) False u(2)
        by (intro Suc.IH [OF e f(2) _ Suc.prems(4,5) u(3) g(3) _ g(4,5,6)]) auto
      with False Some g(1) u show ?thesis
        unfolding f(1) by (auto simp: add.assoc)
    qed
  qed
qed

lemma get_filename_reads:
  assumes "string_ends peek addr m" "m \<le> fuel" "8 * m \<le> 2 ^ 30"
    and "\<forall>a w. peek a = Some w \<longrightarrow> length w = 8" "\<forall>k < 2 ^ 31. can_alloc (mem 1) k" "can_alloc (mem 0) 4096"
  shows "\<exists>v. get_filename fuel mem 0 peek addr = Inr v \<and> c_str v = Inr (tracee_string peek addr m)"
  using filename_loop_reads [of peek addr 0 m fuel "mem 1" "realloc_bytes (mem 0) [] 4096" 4096] assms
  by (simp add: get_filename_def)

section \<open>Following a worker\<close>

text \<open>
  One system call as the tracer sees it: stops for other reasons, the stop at the entry, again other
  stops, and the stop at the exit, where the number of the call still stands in its register.
\<close>

record call =
  ca_before :: "wait_event list"
  ca_entry :: tracee
  ca_during :: "wait_event list"
  ca_exit :: tracee

definition quiet :: "wait_event list \<Rightarrow> bool" where
  "quiet evs \<longleftrightarrow> list_all (\<lambda>(st, _). case st of None \<Rightarrow> False | Some st \<Rightarrow> \<not> syscall_stop st \<and> st \<noteq> WExited) evs"

definition call_events :: "call \<Rightarrow> wait_event list" where
  "call_events c = ca_before c @ (Some (WStopped 133), ca_entry c)
     # ca_during c @ [(Some (WStopped 133), ca_exit c)]"

definition is_open :: "call \<Rightarrow> bool" where
  "is_open c \<longleftrightarrow> to_int32 (tr_orig_rax (ca_entry c)) = 2"

definition call_ok :: "nat \<Rightarrow> call \<Rightarrow> bool" where
  "call_ok m c \<longleftrightarrow> quiet (ca_before c) \<and> quiet (ca_during c)
     \<and> tr_orig_rax (ca_exit c) = tr_orig_rax (ca_entry c)
     \<and> (is_open c \<longrightarrow> string_ends (tr_peek (ca_entry c)) (tr_rdi (ca_entry c)) m
          \<and> (\<forall>a w. tr_peek (ca_entry c) a = Some w \<longrightarrow> length w = 8))"

definition call_line :: "int \<Rightarrow> nat \<Rightarrow> call \<Rightarrow> string" where
  "call_line worker m c =
     ''PID: '' @ show_int worker @ '', '' @ [CHR 0x22]
     @ tracee_string (tr_peek (ca_entry c)) (tr_rdi (ca_entry c)) m @ [CHR 0x22]
     @ '', '' @ show_int (to_int32 (tr_rsi (ca_entry c)))
     @ '', '' @ show_int (to_int32 (tr_rax (ca_exit c))) @ [NL]"

lemma wait_quiet:
  "quiet evs \<Longrightarrow> wait_for_syscall status (evs @ (Some st, t) # rest)
     = (if syscall_stop st then Some (0, t, rest) else if st = WExited then Some (1, t, rest)
        else wait_for_syscall st rest)"
  by (induction status evs rule: wait_for_syscall.induct)
     (auto simp: quiet_def Let_def split: option.splits)

lemma wait_stop: "quiet evs \<Longrightarrow> wait_for_syscall status (evs @ (Some (WStopped 133), t) # rest) = Some (0, t, rest)"
  by (simp add: wait_quiet syscall_stop_def)

lemma trace_loop_call:
  assumes "call_ok m c" "m \<le> fuel" "8 * m \<le> 2 ^ 30" "\<forall>k < 2 ^ 31. can_alloc (mem 1) k" "can_alloc (mem 0) 4096"
  shows "trace_loop fuel mem 0 junk_status worker (call_events c @ rest) out
    = trace_loop fuel mem 0 junk_status worker rest (out @ (if is_open c then call_line worker m c else []))"
proof -
  have q: "quiet (ca_before c)" "quiet (ca_during c)"
    using assms(1) by (simp_all add: call_ok_def)
  show ?thesis
  proof (cases "is_open c")
    case True
    then obtain v where v: "get_filename fuel mem 0 (tr_peek (ca_entry c)) (tr_rdi (ca_entry c)) = Inr v"
      "c_str v = Inr (tracee_string (tr_peek (ca_entry c)) (tr_rdi (ca_entry c)) m)"
      using get_filename_reads [OF _ assms(2,3) _ assms(4,5)] assms(1) by (metis call_ok_def)
    show ?thesis
      using True
      by (subst trace_loop.simps)
         (simp add: call_events_def wait_stop q is_open_def v Let_def call_line_def)
  next
    case False
    then have "to_int32 (tr_orig_rax (ca_entry c)) \<noteq> 2" "to_int32 (tr_orig_rax (ca_exit c)) \<noteq> 2"
      using assms(1) by (simp_all add: is_open_def call_ok_def)
    then show ?thesis
      using False
      by (subst trace_loop.simps)
         (simp add: call_events_def wait_stop q is_open_def, subst trace_loop.simps, simp add: wait_stop q)
  qed
qed

section \<open>Properties\<close>


text \<open>A worker that opens a file and ends, after a call of another kind and a signal.\<close>

definition demo_peek :: "nat \<Rightarrow> char list option" where
  "demo_peek a = (if a = 64 then Some ''/etc/pas'' else if a = 72 then Some (''swd'' @ replicate 5 NUL) else None)"

definition demo_tracee :: "int \<Rightarrow> tracee" where
  "demo_tracee n = \<lparr>tr_orig_rax = n, tr_rax = 3, tr_rdi = 64, tr_rsi = 0, tr_peek = demo_peek\<rparr>"

definition demo_call :: "int \<Rightarrow> call" where
  "demo_call n = \<lparr>ca_before = [(Some (WStopped 19), demo_tracee 0)], ca_entry = demo_tracee n,
     ca_during = [], ca_exit = demo_tracee n\<rparr>"

lemma demo_peek_ok: "string_ends demo_peek 64 2" "\<forall>a w. demo_peek a = Some w \<longrightarrow> length w = 8"
  "tracee_string demo_peek 64 2 = ''/etc/passwd''"
proof -
  have "string_ends demo_peek 64 (Suc (Suc 0))" "tracee_string demo_peek 64 (Suc (Suc 0)) = ''/etc/passwd''"
    by (simp_all add: demo_peek_def NUL_def)
  then show "string_ends demo_peek 64 2" "tracee_string demo_peek 64 2 = ''/etc/passwd''"
    by (simp_all only: numeral_2_eq_2)
qed (simp add: demo_peek_def)




theorem killed_worker_waited_for:
  assumes "\<forall>c \<in> set cs. call_ok m c" "m \<le> fuel" "8 * m \<le> 2 ^ 30"
    and "\<forall>k < 2 ^ 31. can_alloc (mem 1) k" "can_alloc (mem 0) 4096"
  shows "run_traceOnPayload fuel mem 0 junk_status worker
      (first # concat (map call_events cs) @ (Some WSignaled, t) # replicate k (None, t))
    = Inr (None, concat (map (call_line worker m) (filter is_open cs)))"
proof -
  have w: "wait_for_syscall WSignaled (replicate k (None, t)) = None"
    by (induction k) (simp_all add: syscall_stop_def)
  have "trace_loop fuel mem 0 junk_status worker
        (concat (map call_events cs) @ (Some WSignaled, t) # replicate k (None, t)) out
      = Inr (None, out @ concat (map (call_line worker m) (filter is_open cs)))" for out
    using assms(1)
  proof (induction cs arbitrary: out)
    case Nil
    show ?case
      by (subst trace_loop.simps) (simp add: syscall_stop_def w)
  next
    case (Cons c cs)
    then show ?case
      using trace_loop_call [OF _ assms(2-5)] by simp
  qed
  then show ?thesis
    by (simp add: run_traceOnPayload_def)
qed

theorem killed_worker_waited_for_witness:
  "run_traceOnPayload 9 (\<lambda>_. roomy) 0 WExited 77
      ((Some (WStopped 19), demo_tracee 0) # concat (map call_events [demo_call 2])
        @ (Some WSignaled, demo_tracee 0) # replicate 1000 (None, demo_tracee 0))
    = Inr (None, call_line 77 2 (demo_call 2))"
  using killed_worker_waited_for [of "[demo_call 2]" 2 9 "\<lambda>_. roomy" WExited 77
      "(Some (WStopped 19), demo_tracee 0)" "demo_tracee 0" 1000] demo_peek_ok(1,2)
  by (simp add: call_ok_def demo_call_def demo_tracee_def quiet_def syscall_stop_def is_open_def to_int32_def
      del: replicate.simps)

end
