(* ===== verification/ThreadMap.thy ===== *)
theory ThreadMap
  imports Bytes
begin

text \<open>
  The map of the threads of a process, \<open>src/src/tracer/utils/thread_map.c\<close> and \<open>thread_map.h\<close>:
  a block with a header and one entry for each thread, filled from the names in
  \<open>/proc/<pid>/task\<close>. What \<open>scandir\<close> finds there is a parameter, and so is what a block holds
  that \<open>realloc\<close> returns.
\<close>

section \<open>State and operations\<close>

record thread_map_data =
  td_pid :: int
  td_cmd :: "string option"

record thread_map =
  tm_refcnt :: int
  tm_nr :: int
  tm_map :: "thread_map_data list"

definition zero_data :: thread_map_data where
  "zero_data = \<lparr>td_pid = 0, td_cmd = None\<rparr>"

text \<open>The function that \<open>scandir\<close> asks for every name.\<close>

definition task_filter :: "string \<Rightarrow> bool" where
  "task_filter name = (name = [] \<or> hd name \<noteq> CHR ''.'')"

text \<open>The size is unsigned, so a negative difference is far larger than any block.\<close>

definition thread_map_reset :: "thread_map \<Rightarrow> int \<Rightarrow> int \<Rightarrow> thread_map res" where
  "thread_map_reset m start nr =
     (let n = (nr - start) * 16 mod 2 ^ 64 div 16 in
      if start < 0 then Inl OutOfBounds
      else bind_r (write_at (tm_map m) (nat start) (replicate (nat n) zero_data)) (\<lambda>d. Inr (m\<lparr>tm_map := d\<rparr>)))"

definition thread_map_realloc ::
  "alloc_env \<Rightarrow> thread_map \<Rightarrow> thread_map option \<Rightarrow> int \<Rightarrow> thread_map option res" where
  "thread_map_realloc env junk_map m nr =
     (let start = (case m of None \<Rightarrow> 0 | Some m \<Rightarrow> tm_nr m) in
      if \<not> can_alloc env (nat ((8 + 16 * nr) mod 2 ^ 64)) then Inr None
      else let old = (case m of None \<Rightarrow> junk_map\<lparr>tm_map := []\<rparr> | Some m \<Rightarrow> m);
               kept = take (nat nr) (tm_map old) in
        bind_r (thread_map_reset
            (old\<lparr>tm_map := kept @ take (nat nr - length kept) (tm_map junk_map)\<rparr>) start nr)
          (\<lambda>m. Inr (Some m)))"

definition thread_map_set_pid :: "thread_map \<Rightarrow> int \<Rightarrow> int \<Rightarrow> thread_map res" where
  "thread_map_set_pid m thread pid =
     bind_r (slot (tm_map m) thread) (\<lambda>d.
       bind_r (set_slot (tm_map m) thread (d\<lparr>td_pid := pid\<rparr>)) (\<lambda>ds. Inr (m\<lparr>tm_map := ds\<rparr>)))"

definition thread_map_nr :: "thread_map option \<Rightarrow> int" where
  "thread_map_nr m = (case m of None \<Rightarrow> 1 | Some m \<Rightarrow> tm_nr m)"

definition thread_map_pid :: "thread_map \<Rightarrow> int \<Rightarrow> int res" where
  "thread_map_pid m thread = bind_r (slot (tm_map m) thread) (\<lambda>d. Inr (td_pid d))"

definition thread_map_comm :: "thread_map \<Rightarrow> int \<Rightarrow> string option res" where
  "thread_map_comm m thread = bind_r (slot (tm_map m) thread) (\<lambda>d. Inr (td_cmd d))"

text \<open>The loop over the names, from index \<open>i\<close> on.\<close>

fun set_pids :: "string list \<Rightarrow> int \<Rightarrow> thread_map \<Rightarrow> thread_map res" where
  "set_pids [] i m = Inr m"
| "set_pids (name # names) i m = bind_r (thread_map_set_pid m i (atoi name)) (set_pids names (i + 1))"

definition new_thread_map ::
  "alloc_env \<Rightarrow> thread_map \<Rightarrow> (string \<Rightarrow> string list option) \<Rightarrow> int \<Rightarrow> thread_map option res" where
  "new_thread_map env junk_map scandir pid =
     (case scandir (''/proc/'' @ show_int pid @ ''/task'') of
        None \<Rightarrow> Inr None
      | Some entries \<Rightarrow>
          let names = filter task_filter entries; items = int (length names) in
          if items \<le> 0 then Inr None
          else bind_r (thread_map_realloc env junk_map None items) (\<lambda>m.
            case m of None \<Rightarrow> Inr None
            | Some m \<Rightarrow> bind_r (set_pids names 0 m) (\<lambda>m.
                Inr (Some (m\<lparr>tm_nr := items, tm_refcnt := items\<rparr>)))))"

section \<open>What they do\<close>

text \<open>Room for \<open>n\<close> entries is in the block that the allocator hands out.\<close>

lemma set_pids_from:
  assumes "k + length names = length (tm_map m)" "\<forall>j < length (tm_map m). k \<le> j \<longrightarrow> tm_map m ! j = zero_data"
  shows "set_pids names (int k) m = Inr (m\<lparr>tm_map := take k (tm_map m) @ map (\<lambda>n. zero_data\<lparr>td_pid := atoi n\<rparr>) names\<rparr>)"
  using assms
proof (induction names arbitrary: k m)
  case Nil
  then show ?case by simp
next
  case (Cons name names)
  let ?d = "zero_data\<lparr>td_pid := atoi name\<rparr>"
  let ?m = "m\<lparr>tm_map := (tm_map m)[k := ?d]\<rparr>"
  have k: "k < length (tm_map m)" using Cons.prems(1) by simp
  have set: "thread_map_set_pid m (int k) (atoi name) = Inr ?m"
    using k Cons.prems(2) by (simp add: thread_map_set_pid_def)
  have "set_pids names (int (Suc k)) ?m
      = Inr (?m\<lparr>tm_map := take (Suc k) (tm_map ?m) @ map (\<lambda>n. zero_data\<lparr>td_pid := atoi n\<rparr>) names\<rparr>)"
    using Cons.prems by (intro Cons.IH) auto
  then have "set_pids names (int k + 1) ?m
      = Inr (?m\<lparr>tm_map := take (Suc k) (tm_map ?m) @ map (\<lambda>n. zero_data\<lparr>td_pid := atoi n\<rparr>) names\<rparr>)"
    by (simp add: add.commute)
  then show ?case
    using k set by (simp add: take_Suc_conv_app_nth)
qed

lemma thread_map_alloc:
  assumes "can_alloc env (nat (8 + 16 * int n))" "length (tm_map junk_map) \<ge> n"
  shows "thread_map_realloc env junk_map None (int n) = Inr (Some (junk_map\<lparr>tm_map := replicate n zero_data\<rparr>))"
proof -
  have small: "8 + 16 * int n < 2 ^ 63"
    using assms(1) by (simp add: can_alloc_def nat_less_iff)
  then have "int n * 16 mod 2 ^ 64 div 16 = int n" "(8 + 16 * int n) mod 2 ^ 64 = 8 + 16 * int n"
    by simp_all
  then show ?thesis
    using assms by (simp add: thread_map_realloc_def thread_map_reset_def Let_def)
qed

section \<open>Properties\<close>

theorem new_thread_map_lists_tasks:
  assumes "scandir (''/proc/'' @ show_int pid @ ''/task'') = Some entries"
    and "names = filter task_filter entries" "names \<noteq> []"
    and "can_alloc env (nat (8 + 16 * int (length names)))" "length names \<le> length (tm_map junk_map)"
  shows "\<exists>m. new_thread_map env junk_map scandir pid = Inr (Some m)
     \<and> thread_map_nr (Some m) = int (length names)
     \<and> map (thread_map_pid m) (map int [0..<length names]) = map (Inr \<circ> atoi) names
     \<and> thread_map_pid m (thread_map_nr (Some m)) = Inl OutOfBounds"
proof -
  let ?n = "length names"
  let ?fresh = "junk_map\<lparr>tm_map := replicate ?n zero_data\<rparr>"
  let ?m = "junk_map\<lparr>tm_map := map (\<lambda>n. zero_data\<lparr>td_pid := atoi n\<rparr>) names, tm_nr := int ?n, tm_refcnt := int ?n\<rparr>"
  have "set_pids names (int 0) ?fresh = Inr (?fresh\<lparr>tm_map := take 0 (tm_map ?fresh)
      @ map (\<lambda>n. zero_data\<lparr>td_pid := atoi n\<rparr>) names\<rparr>)"
    using set_pids_from [of 0 names ?fresh] by simp
  then have "new_thread_map env junk_map scandir pid = Inr (Some ?m)"
    using assms(1,2,3) thread_map_alloc [OF assms(4,5)] by (simp add: new_thread_map_def Let_def)
  moreover have "map (thread_map_pid ?m) (map int [0..<?n]) = map (Inr \<circ> atoi) names"
    by (rule nth_equalityI) (simp_all add: thread_map_pid_def)
  ultimately show ?thesis
    by (simp add: thread_map_nr_def thread_map_pid_def slot_out)
qed

definition demo_junk_map :: thread_map where
  "demo_junk_map = \<lparr>tm_refcnt = 9, tm_nr = 9, tm_map = replicate 9 \<lparr>td_pid = 9, td_cmd = Some ''x''\<rparr>\<rparr>"

theorem new_thread_map_lists_tasks_witness:
  "\<exists>m. new_thread_map roomy demo_junk_map (\<lambda>_. Some [''.'', ''..'', ''71'', ''72'']) 71 = Inr (Some m)
     \<and> thread_map_nr (Some m) = int (length [''71'', ''72''])
     \<and> map (thread_map_pid m) (map int [0..<length [''71'', ''72'']]) = map (Inr \<circ> atoi) [''71'', ''72'']
     \<and> thread_map_pid m (thread_map_nr (Some m)) = Inl OutOfBounds"
  by (rule new_thread_map_lists_tasks [where entries = "[''.'', ''..'', ''71'', ''72'']"])
     (simp_all add: task_filter_def demo_junk_map_def)

theorem thread_map_shrink_overruns:
  assumes "0 \<le> nr" "nr < tm_nr m" "tm_nr m < 2 ^ 31" "can_alloc env (nat (8 + 16 * nr))"
    and "length (tm_map m) = nat (tm_nr m)"
  shows "thread_map_realloc env junk_map (Some m) nr = Inl OutOfBounds"
proof -
  have "((nr - tm_nr m) * 16 + 2 ^ 64) mod 2 ^ 64 = (nr - tm_nr m) * 16 + 2 ^ 64"
    using assms(1-3) by (intro mod_pos_pos_trivial) simp_all
  then have "(nr - tm_nr m) * 16 mod 2 ^ 64 div 16 = nr - tm_nr m + 2 ^ 60"
    by simp
  moreover have "(8 + 16 * nr) mod 2 ^ 64 = 8 + 16 * nr"
    using assms(1-3) by simp
  ultimately show ?thesis
    using assms
    by (simp add: thread_map_realloc_def thread_map_reset_def Let_def write_at_def del: replicate.simps)
qed

theorem thread_map_shrink_overruns_witness:
  "thread_map_realloc roomy demo_junk_map (Some demo_junk_map) 3 = Inl OutOfBounds"
  by (rule thread_map_shrink_overruns) (simp_all add: demo_junk_map_def)

end
